(* ===== verification/Prelude.thy ===== *)
theory Prelude
  imports Complex_Main "HOL-Library.Word" "HOL-Library.Sublist"
begin

text \<open>
  Shared vocabulary of the development: Go's 64-bit integers with their wrap-around,
  slice expressions that panic out of range, the byte type, the collections of
  rewrite rules the component theories extend, and the lemmas on lists, options and
  subsequences that several components use.
\<close>

named_theorems go_defs "unfolding rules of small operations of the code"
named_theorems flow "how an operation changes the bytes a component holds"
named_theorems wiring "how an operation changes the shape of a link"

type_synonym byte = "8 word"

text \<open>
  A value of Go's \<open>int\<close>, \<open>int64\<close> or \<open>time.Duration\<close> (64 bits on the
  platforms the program runs on). Every addition, subtraction and product of such values
  is wrapped with \<open>i64\<close>.
\<close>

definition i64 :: "int \<Rightarrow> int" where
  "i64 x = (x + 2 ^ 63) mod 2 ^ 64 - 2 ^ 63"

definition is_i64 :: "int \<Rightarrow> bool" where
  "is_i64 x \<longleftrightarrow> - (2 ^ 63) \<le> x \<and> x < 2 ^ 63"

lemma i64_id: "- (2 ^ 63) \<le> x \<Longrightarrow> x < 2 ^ 63 \<Longrightarrow> i64 x = x"
  by (simp add: i64_def)

lemma i64_small: "0 \<le> x \<Longrightarrow> x < 2 ^ 62 \<Longrightarrow> i64 x = x"
  by (simp add: i64_def)

lemma is_i64_i64 [simp, intro]: "is_i64 (i64 x)"
  by (simp add: i64_def is_i64_def)

lemma i64_is_i64: "is_i64 x \<Longrightarrow> i64 x = x"
  by (simp add: is_i64_def i64_id)

lemma i64_i64 [simp]: "i64 (i64 x) = i64 x"
  by (simp add: i64_is_i64)

text \<open>Go's integer division truncates towards zero; a zero divisor panics.\<close>

definition go_div :: "int \<Rightarrow> int \<Rightarrow> int option" where
  "go_div a b = (if b = 0 then None else Some (i64 (sgn a * sgn b * (\<bar>a\<bar> div \<bar>b\<bar>))))"

text \<open>
  The slice expression \<open>xs[lo:hi]\<close>, \<open>None\<close> for the run-time panic. The upper
  bound is taken to be the length, which is the capacity of a slice built by \<open>make\<close>. (Of a
  slice cut from the front of a longer one Go lets an expression reach further, up to the
  capacity; only a slicer with settings its comment forbids asks for that.)
\<close>

definition go_slice :: "int \<Rightarrow> int \<Rightarrow> 'a list \<Rightarrow> 'a list option" where
  "go_slice lo hi xs =
     (if 0 \<le> lo \<and> lo \<le> hi \<and> hi \<le> int (length xs)
      then Some (take (nat hi - nat lo) (drop (nat lo) xs)) else None)"

lemma go_slice_Some:
  "go_slice lo hi xs = Some ys \<Longrightarrow> 0 \<le> lo \<and> lo \<le> hi \<and> hi \<le> int (length xs)
     \<and> ys = take (nat hi - nat lo) (drop (nat lo) xs)"
  by (simp add: go_slice_def split: if_splits)

lemma go_slice_prefix [simp]:
  "0 \<le> n \<Longrightarrow> n \<le> int (length xs) \<Longrightarrow> go_slice 0 n xs = Some (take (nat n) xs)"
  by (simp add: go_slice_def)

lemma go_slice_suffix:
  "0 \<le> n \<Longrightarrow> n \<le> int (length xs) \<Longrightarrow> go_slice n (int (length xs)) xs = Some (drop (nat n) xs)"
  by (simp add: go_slice_def)

lemma go_slice_split:
  assumes "go_slice lo hi xs = Some ys"
  shows "drop (nat lo) xs = ys @ drop (nat hi) xs"
proof -
  from assms have b: "0 \<le> lo" "lo \<le> hi" and ys: "ys = take (nat hi - nat lo) (drop (nat lo) xs)"
    by (auto dest: go_slice_Some)
  from b have "nat lo \<le> nat hi" by simp
  then have "drop (nat hi - nat lo) (drop (nat lo) xs) = drop (nat hi) xs"
    by (simp add: drop_drop)
  then show ?thesis
    using append_take_drop_id [of "nat hi - nat lo" "drop (nat lo) xs"] ys by simp
qed

subsection \<open>Lists\<close>

lemma split_at_index:
  assumes "k < length xs"
  obtains as bs where "xs = as @ (xs ! k) # bs" "length as = k"
proof
  show "xs = take k xs @ xs ! k # drop (Suc k) xs"
    using assms by (rule id_take_nth_drop)
  show "length (take k xs) = k" using assms by simp
qed

lemma subseq_append_same: "subseq xs ys \<Longrightarrow> subseq (xs @ zs) (ys @ zs)"
  by (simp add: list_emb_append_mono)

lemma subseq_drop_middle: "subseq (as @ bs @ cs) zs \<Longrightarrow> subseq (as @ cs) zs"
proof -
  assume a: "subseq (as @ bs @ cs) zs"
  have "subseq (as @ cs) (as @ bs @ cs)"
    by (intro list_emb_append_mono list_emb_append2) simp_all
  with a show ?thesis by (rule subseq_order.trans [rotated])
qed

subsection \<open>Numbers as texts\<close>

text \<open>\<open>%d\<close> of a natural number.\<close>

fun decimal :: "nat \<Rightarrow> string" where
  "decimal n = (if n < 10 then [char_of (48 + n)] else decimal (n div 10) @ [char_of (48 + n mod 10)])"

declare decimal.simps [simp del]

end
