(* ===== verification/Direction.thy ===== *)
theory Direction
  imports Prelude
begin

text \<open>
  The package-level part of \<open>stream/direction.go\<close>: a direction is a Go
  \<open>uint8\<close> with two named values and the bound \<open>NumDirections\<close>; \<open>String\<close> and
  \<open>ParseDirection\<close> translate it to and from the \<open>stream\<close> attribute of a toxic.
\<close>

type_synonym direction = "8 word"

definition Upstream :: direction where
  "Upstream = 0"

definition Downstream :: direction where
  "Downstream = 1"

definition NumDirections :: direction where
  "NumDirections = 2"

datatype direction_error = ErrInvalidDirectionParameter

definition direction_String :: "direction \<Rightarrow> string" where
  "direction_String d =
     (if d \<ge> NumDirections then ''num_directions''
      else [''upstream'', ''downstream''] ! unat d)"

text \<open>
  \<open>strings.ToLower\<close> on the bytes of the value. Only the ASCII letters matter: no other
  code point is lower-cased to a letter of the two direction names.
\<close>

definition lower_char :: "char \<Rightarrow> char" where
  "lower_char c =
     (if 65 \<le> (of_char c :: nat) \<and> (of_char c :: nat) \<le> 90
      then char_of ((of_char c :: nat) + 32) else c)"

definition ToLower :: "string \<Rightarrow> string" where
  "ToLower s = map lower_char s"

definition ParseDirection :: "string \<Rightarrow> direction \<times> direction_error option" where
  "ParseDirection value' =
     (if ToLower value' = ''downstream'' then (Downstream, None)
      else if ToLower value' = ''upstream'' then (Upstream, None)
      else (NumDirections, Some ErrInvalidDirectionParameter))"

lemmas direction_defs [go_defs] =
  Upstream_def Downstream_def NumDirections_def direction_String_def ParseDirection_def

lemma lower_char_idem [simp]: "lower_char (lower_char c) = lower_char c"
proof (cases "65 \<le> (of_char c :: nat) \<and> (of_char c :: nat) \<le> 90")
  case True
  then have "(of_char (char_of ((of_char c :: nat) + 32) :: char) :: nat) = of_char c + 32"
    by (simp add: of_char_of)
  with True show ?thesis by (simp add: lower_char_def)
next
  case False
  then have "lower_char c = c" by (auto simp: lower_char_def)
  then show ?thesis by simp
qed

lemma ToLower_idem [simp]: "ToLower (ToLower s) = ToLower s"
  by (simp add: ToLower_def o_def)

lemma direction_less_cases:
  "d < NumDirections \<Longrightarrow> d = Upstream \<or> d = Downstream"
proof -
  assume "d < NumDirections"
  then have "unat d < 2" by (simp add: NumDirections_def word_less_nat_alt)
  then have "unat d = 0 \<or> unat d = 1" by linarith
  then show ?thesis
    by (auto simp: word_unat_eq_iff Upstream_def Downstream_def)
qed

lemma ToLower_names [simp]:
  "ToLower ''upstream'' = ''upstream''" "ToLower ''downstream'' = ''downstream''"
  by (simp_all add: ToLower_def lower_char_def)

lemma ParseDirection_names [simp]:
  "ParseDirection ''upstream'' = (Upstream, None)"
  "ParseDirection ''downstream'' = (Downstream, None)"
  by (simp_all add: ParseDirection_def)

lemma direction_String_names [simp]:
  "direction_String Upstream = ''upstream''"
  "direction_String Downstream = ''downstream''"
  by (simp_all add: go_defs word_le_nat_alt)

text \<open>A parsed direction is always one of the two chains, never the bound.\<close>

lemma ParseDirection_None_bound:
  "ParseDirection s = (d, None) \<Longrightarrow> d < NumDirections"
  by (auto simp: go_defs split: if_splits)

text \<open>A value parses to a direction without an error exactly when it is that
  direction's \<open>String\<close> up to ASCII case; every other value is the error together with the
  out-of-range direction \<open>NumDirections\<close>.\<close>

theorem ParseDirection_String:
  "ParseDirection s = (d, e) \<longleftrightarrow>
     (e = None \<and> d < NumDirections \<and> ToLower s = direction_String d) \<or>
     (e = Some ErrInvalidDirectionParameter \<and> d = NumDirections
        \<and> (\<nexists>d'. d' < NumDirections \<and> ToLower s = direction_String d'))"
proof -
  have lt: "Upstream < NumDirections" "Downstream < NumDirections"
    by (simp_all add: Upstream_def Downstream_def NumDirections_def)
  have ex: "(\<exists>d'. d' < NumDirections \<and> ToLower s = direction_String d') \<longleftrightarrow>
      ToLower s = ''upstream'' \<or> ToLower s = ''downstream''"
    using lt direction_less_cases direction_String_names by metis
  have at: "d' < NumDirections \<and> ToLower s = direction_String d' \<longleftrightarrow>
      d' = Upstream \<and> ToLower s = ''upstream'' \<or> d' = Downstream \<and> ToLower s = ''downstream''"
    for d'
    using lt direction_less_cases [of d'] by auto
  show ?thesis unfolding ex at by (auto simp: ParseDirection_def)
qed

end
