(* ===== verification/Channel.thy ===== *)
theory Channel
  imports Prelude
begin

text \<open>
  Go channels, as the components below use them. A channel is its queue, its capacity
  and whether it is closed. The queue holds the buffered values followed by the values of
  senders that are blocked in a send, in the order in which they arrived, as in the Go
  run time: a sender puts its value at the end and stays blocked while the queue is longer
  than the capacity. A receiver takes the head. For an unbuffered channel the capacity is
  0, so a sender is blocked until its value has been taken.
\<close>

record 'a channel =
  queue :: "'a list"
  capacity :: nat
  shut :: bool

definition make_chan :: "nat \<Rightarrow> 'a channel" where
  "make_chan n = \<lparr>queue = [], capacity = n, shut = False\<rparr>"

text \<open>A send on a closed channel panics (\<open>None\<close>).\<close>

definition chan_send :: "'a \<Rightarrow> 'a channel \<Rightarrow> 'a channel option" where
  "chan_send x c = (if shut c then None else Some (c\<lparr>queue := queue c @ [x]\<rparr>))"

text \<open>The last sender is no longer blocked.\<close>

definition settled :: "'a channel \<Rightarrow> bool" where
  "settled c \<longleftrightarrow> length (queue c) \<le> capacity c"

text \<open>A blocked sender gives up (the other branch of its \<open>select\<close> was taken).\<close>

definition chan_withdraw :: "'a channel \<Rightarrow> 'a channel" where
  "chan_withdraw c = c\<lparr>queue := butlast (queue c)\<rparr>"

datatype 'a received =
    Value 'a "'a channel"
  | Drained
  | Empty

text \<open>A receive: a value, the zero value of a closed channel, or blocking.\<close>

definition chan_recv :: "'a channel \<Rightarrow> 'a received" where
  "chan_recv c = (case queue c of
       x # xs \<Rightarrow> Value x (c\<lparr>queue := xs\<rparr>)
     | [] \<Rightarrow> if shut c then Drained else Empty)"

text \<open>Closing a closed channel panics.\<close>

definition chan_close :: "'a channel \<Rightarrow> 'a channel option" where
  "chan_close c = (if shut c then None else Some (c\<lparr>shut := True\<rparr>))"

text \<open>\<open>len(c)\<close> counts the buffered values only.\<close>

definition chan_len :: "'a channel \<Rightarrow> nat" where
  "chan_len c = min (length (queue c)) (capacity c)"

lemmas chan_defs [go_defs] =
  make_chan_def chan_send_def settled_def chan_withdraw_def chan_close_def chan_len_def

lemma chan_recv_Value:
  "chan_recv c = Value x c' \<longleftrightarrow> (\<exists>xs. queue c = x # xs \<and> c' = c\<lparr>queue := xs\<rparr>)"
  by (auto simp: chan_recv_def split: list.splits if_splits)

lemma chan_recv_Drained [simp]: "chan_recv c = Drained \<longleftrightarrow> queue c = [] \<and> shut c"
  by (auto simp: chan_recv_def split: list.splits if_splits)

lemma chan_recv_Empty [simp]: "chan_recv c = Empty \<longleftrightarrow> queue c = [] \<and> \<not> shut c"
  by (auto simp: chan_recv_def split: list.splits if_splits)

lemma chan_recv_cases:
  obtains (value') x xs where "queue c = x # xs" "chan_recv c = Value x (c\<lparr>queue := xs\<rparr>)"
  | (drained) "queue c = []" "shut c" "chan_recv c = Drained"
  | (empty) "queue c = []" "\<not> shut c" "chan_recv c = Empty"
  by (cases "queue c") (auto simp: chan_recv_def split: if_splits)

text \<open>
  The contract of a first-in first-out queue that the links rely on: what was sent and
  not withdrawn is received in order, exactly once.
\<close>

locale fifo =
  fixes content :: "'c \<Rightarrow> 'a list"
    and send :: "'a \<Rightarrow> 'c \<Rightarrow> 'c option"
    and recv :: "'c \<Rightarrow> ('a \<times> 'c) option"
  assumes content_send: "send x c = Some c' \<Longrightarrow> content c' = content c @ [x]"
    and content_recv: "recv c = Some (x, c') \<Longrightarrow> content c = x # content c'"
    and recv_ready: "content c \<noteq> [] \<Longrightarrow> recv c \<noteq> None"
begin

fun send_all :: "'a list \<Rightarrow> 'c \<Rightarrow> 'c option" where
  "send_all [] c = Some c"
| "send_all (x # xs) c = Option.bind (send x c) (send_all xs)"

fun recv_n :: "nat \<Rightarrow> 'c \<Rightarrow> ('a list \<times> 'c) option" where
  "recv_n 0 c = Some ([], c)"
| "recv_n (Suc n) c = Option.bind (recv c) (\<lambda>(x, c').
     map_option (\<lambda>(xs, c''). (x # xs, c'')) (recv_n n c'))"

lemma send_all_content: "send_all xs c = Some c' \<Longrightarrow> content c' = content c @ xs"
proof (induction xs arbitrary: c)
  case Nil
  then show ?case by simp
next
  case (Cons x xs)
  then obtain c1 where "send x c = Some c1" "send_all xs c1 = Some c'"
    by (auto simp: bind_eq_Some_conv)
  with Cons.IH content_send show ?case by fastforce
qed

lemma recv_n_content:
  "n \<le> length (content c) \<Longrightarrow>
     \<exists>c'. recv_n n c = Some (take n (content c), c') \<and> content c' = drop n (content c)"
proof (induction n arbitrary: c)
  case 0
  then show ?case by simp
next
  case (Suc n)
  then have "content c \<noteq> []" by auto
  with recv_ready obtain x c1 where r: "recv c = Some (x, c1)" by fastforce
  then have c: "content c = x # content c1" by (rule content_recv)
  with Suc.prems have "n \<le> length (content c1)" by simp
  from Suc.IH [OF this] show ?case using r c by auto
qed

lemma fifo_order:
  assumes "send_all xs c = Some c'" and "content c = []"
  shows "\<exists>c''. recv_n (length xs) c' = Some (xs, c'') \<and> content c'' = []"
  using recv_n_content [of "length xs" c'] send_all_content [OF assms(1)] assms(2) by simp

end

definition take_value :: "'a channel \<Rightarrow> ('a \<times> 'a channel) option" where
  "take_value c = (case chan_recv c of Value x c' \<Rightarrow> Some (x, c') | _ \<Rightarrow> None)"

interpretation chan: fifo queue chan_send take_value
  by unfold_locales
    (auto simp: chan_send_def take_value_def chan_recv_def split: if_splits received.splits list.splits)

end
