(* ===== verification/IoChan.thy ===== *)
theory IoChan
  imports Channel
begin

text \<open>
  \<open>stream/io_chan.go\<close>: chunks of bytes with their receive time, the writer that sends
  chunks to a channel and the reader that reads bytes from one; and the copy loop of
  \<open>io.Copy\<close> that the two ends of a link run over them.
\<close>

record StreamChunk =
  Data :: "byte list"
  Timestamp :: int

type_synonym chunk_channel = "StreamChunk channel"

definition chunk_bytes :: "StreamChunk list \<Rightarrow> byte list" where
  "chunk_bytes cs = concat (map Data cs)"

lemma chunk_bytes_simps [simp]:
  "chunk_bytes [] = []"
  "chunk_bytes (c # cs) = Data c @ chunk_bytes cs"
  "chunk_bytes (cs @ ds) = chunk_bytes cs @ chunk_bytes ds"
  by (simp_all add: chunk_bytes_def)

datatype io_error = EOF | ErrInterrupted | OtherError string

subsection \<open>ChanWriter\<close>

text \<open>
  \<open>Write\<close> copies the buffer, stamps it with the time and sends it; \<open>None\<close> is the
  panic of a write after \<open>Close\<close>.
\<close>

definition ChanWriter_Write ::
    "int \<Rightarrow> byte list \<Rightarrow> chunk_channel \<Rightarrow> (chunk_channel \<times> nat \<times> io_error option) option" where
  "ChanWriter_Write now buf out =
     map_option (\<lambda>c. (c, length buf, None)) (chan_send \<lparr>Data = buf, Timestamp = now\<rparr> out)"

definition ChanWriter_Close :: "chunk_channel \<Rightarrow> chunk_channel option" where
  "ChanWriter_Close out = chan_close out"

subsection \<open>ChanReader\<close>

text \<open>
  The buffer is \<open>None\<close> for Go's \<open>nil\<close>, which the reader uses to remember that the
  stream has ended. The interrupt channel carries no data.
\<close>

record ChanReader =
  cr_input :: chunk_channel
  cr_interrupt :: "unit channel"
  cr_buffer :: "byte list option"

definition NewChanReader :: "chunk_channel \<Rightarrow> ChanReader" where
  "NewChanReader input =
     \<lparr>cr_input = input, cr_interrupt = make_chan 0, cr_buffer = Some []\<rparr>"

definition SetInterrupt :: "unit channel \<Rightarrow> ChanReader \<Rightarrow> ChanReader" where
  "SetInterrupt interrupt c = c\<lparr>cr_interrupt := interrupt\<rparr>"

datatype 'r read_result =
    Blocks
  | Returns "byte list" "io_error option" 'r

text \<open>
  \<open>Read(out)\<close> with \<open>len(out) = m\<close>. The result holds the bytes copied into \<open>out\<close>,
  the error, and the reader afterwards. When both branches of the last \<open>select\<close> are
  ready Go chooses one; \<open>pick\<close> is that choice (true: the interrupt).
\<close>

definition ChanReader_Read :: "bool \<Rightarrow> nat \<Rightarrow> ChanReader \<Rightarrow> ChanReader read_result" where
  "ChanReader_Read pick m c = (case cr_buffer c of
       None \<Rightarrow> Returns [] (Some EOF) c
     | Some b \<Rightarrow>
         (let n = min m (length b); out = take n b; b' = drop n b; c = c\<lparr>cr_buffer := Some b'\<rparr>
          in if m \<le> length b' then Returns out None c
             else if n > 0 then
               (case chan_recv (cr_input c) of
                  Drained \<Rightarrow> Returns out None (c\<lparr>cr_buffer := None\<rparr>)
                | Value p ch \<Rightarrow>
                    (let n2 = min (m - n) (length (Data p))
                     in Returns (out @ take n2 (Data p)) None
                          (c\<lparr>cr_buffer := Some (drop n2 (Data p)), cr_input := ch\<rparr>))
                | Empty \<Rightarrow> Returns out None c)
             else
               (case (chan_recv (cr_interrupt c), chan_recv (cr_input c)) of
                  (Empty, Empty) \<Rightarrow> Blocks
                | (interrupt, input) \<Rightarrow>
                    if interrupt \<noteq> Empty \<and> (pick \<or> input = Empty)
                    then Returns out (Some ErrInterrupted)
                           (c\<lparr>cr_buffer := Some [],
                              cr_interrupt := (case interrupt of Value _ ch \<Rightarrow> ch
                                               | _ \<Rightarrow> cr_interrupt c)\<rparr>)
                    else (case input of
                        Value p ch \<Rightarrow>
                          (let n2 = min (m - n) (length (Data p))
                           in Returns (out @ take n2 (Data p)) None
                                (c\<lparr>cr_buffer := Some (drop n2 (Data p)), cr_input := ch\<rparr>))
                      | _ \<Rightarrow> Returns [] (Some EOF) (c\<lparr>cr_buffer := None\<rparr>)))))"

text \<open>The bytes the reader still owes its caller.\<close>

definition pending :: "ChanReader \<Rightarrow> byte list" where
  "pending c = (case cr_buffer c of None \<Rightarrow> [] | Some b \<Rightarrow> b) @ chunk_bytes (queue (cr_input c))"

text \<open>
  The buffer is in the range in which a read overwrites its rest: more than \<open>len(out)\<close>
  bytes but fewer than twice as many.
\<close>

definition leftover_at_risk :: "nat \<Rightarrow> ChanReader \<Rightarrow> bool" where
  "leftover_at_risk m c \<longleftrightarrow>
     (\<exists>b. cr_buffer c = Some b \<and> m < length b \<and> length b < 2 * m)"

lemma ChanReader_Read_bytes:
  assumes r: "ChanReader_Read pick m c = Returns bs e c'" and safe: "\<not> leftover_at_risk m c"
  shows "pending c = bs @ pending c'"
proof (cases "cr_buffer c")
  case None
  with r show ?thesis by (simp add: ChanReader_Read_def pending_def)
next
  case (Some b)
  show ?thesis
  proof (cases "m \<le> length b - m")
    case True
    then have "min m (length b) = m \<or> m = 0" by linarith
    with True r Some show ?thesis by (auto simp: ChanReader_Read_def pending_def)
  next
    case small: False
    with safe Some have le: "length b \<le> m" by (auto simp: leftover_at_risk_def)
    with small have m: "0 < m" by simp
    show ?thesis
    proof (cases "b = []")
      case False
      with Some le m r show ?thesis
        by (cases "cr_input c" rule: chan_recv_cases)
          (auto simp: ChanReader_Read_def pending_def Let_def chan_recv_Value)
    next
      case True
      with Some m r show ?thesis
        by (cases "cr_input c" rule: chan_recv_cases)
          (auto simp: ChanReader_Read_def pending_def Let_def chan_recv_Value
            split: received.splits if_splits)
    qed
  qed
qed

lemma ChanReader_Read_bound:
  "ChanReader_Read pick m c = Returns bs e c' \<Longrightarrow> length bs \<le> m"
  by (auto simp: ChanReader_Read_def Let_def split: option.splits received.splits if_splits)

text \<open>C40: Outside the range named by \<open>leftover_at_risk\<close>, a read neither loses, repeats nor
  reorders a byte, on every branch (data, end of stream, interruption): the bytes returned
  followed by what the reader still holds are what it held before, and never exceed the
  buffer of the caller.\<close>

theorem ChanReader_Read_lossless:
  assumes "ChanReader_Read pick m c = Returns bs e c'" and "\<not> leftover_at_risk m c"
  shows "pending c = bs @ pending c' \<and> length bs \<le> m"
  using assms by (simp add: ChanReader_Read_bytes ChanReader_Read_bound)

definition hello_reader :: ChanReader where
  "hello_reader = (NewChanReader \<lparr>queue = [\<lparr>Data = [4, 5], Timestamp = 9\<rparr>], capacity = 0, shut = True\<rparr>)
     \<lparr>cr_buffer := Some [1, 2, 3]\<rparr>"

theorem ChanReader_Read_lossless_witness:
  "\<exists>c'. ChanReader_Read False 4 hello_reader = Returns [1, 2, 3, 4] None c'
     \<and> pending hello_reader = [1, 2, 3, 4] @ pending c'"
proof -
  let ?c = "hello_reader\<lparr>cr_buffer := Some [5],
      cr_input := \<lparr>queue = [], capacity = 0, shut = True\<rparr>\<rparr>"
  have "ChanReader_Read False 4 hello_reader = Returns [1, 2, 3, 4] None ?c"
    by (simp add: ChanReader_Read_def hello_reader_def NewChanReader_def chan_recv_def Let_def)
  moreover have "\<not> leftover_at_risk 4 hello_reader"
    by (simp add: leftover_at_risk_def hello_reader_def)
  ultimately show ?thesis using ChanReader_Read_lossless by blast
qed

text \<open>Inside that range the read does lose bytes whenever the channel is ready: it returns
  the first \<open>m\<close> bytes of its buffer and then replaces the rest of the buffer by the next
  chunk, or forgets it when the stream was closed.\<close>

theorem ChanReader_Read_overwrites:
  assumes b: "cr_buffer c = Some b" "m < length b" "length b < 2 * m"
    and ready: "chan_recv (cr_input c) \<noteq> Empty"
  shows "\<exists>c'. ChanReader_Read pick m c = Returns (take m b) None c'
    \<and> pending c = take m b @ drop m b @ pending c' \<and> drop m b \<noteq> []"
proof -
  from b have m: "0 < m" "\<not> m \<le> length b - m" "min m (length b) = m" by auto
  show ?thesis
  proof (cases "cr_input c" rule: chan_recv_cases)
    case (value' p xs)
    then show ?thesis using b m
      by (simp add: ChanReader_Read_def pending_def Let_def)
  next
    case drained
    then show ?thesis using b m
      by (simp add: ChanReader_Read_def chan_recv_def pending_def Let_def)
  next
    case empty
    with ready show ?thesis by simp
  qed
qed

theorem ChanReader_Read_overwrites_witness:
  "\<exists>c'. ChanReader_Read False 2 hello_reader = Returns [1, 2] None c'
     \<and> pending hello_reader = [1, 2] @ [3] @ pending c'"
  using ChanReader_Read_overwrites [of hello_reader "[1, 2, 3]" 2 False]
  by (simp add: hello_reader_def NewChanReader_def chan_recv_def)

subsection \<open>The copy loop\<close>

text \<open>
  \<open>io.Copy\<close> of Go's standard library, for a source and a destination that offer nothing
  but \<open>Read\<close> and \<open>Write\<close> (as those of a link): a buffer of 32 KiB, one write per
  non-empty read, stop at the first error, \<open>EOF\<close> counting as success. The result says
  whether the loop waits in a read, has ended, or has used up the fuel.
\<close>

definition copy_buffer :: nat where
  "copy_buffer = 32 * 1024"

datatype ('r, 'w) copy_result =
    CopyWaits 'r 'w nat
  | CopyEnds "io_error option" 'r 'w nat
  | CopyFuel

definition copy_write ::
    "(byte list \<Rightarrow> 'w \<Rightarrow> 'w \<times> nat \<times> io_error option) \<Rightarrow> byte list \<Rightarrow> 'w \<Rightarrow> 'w \<times> nat \<times> io_error option"
  where
  "copy_write wr bs w =
     (if bs = [] then (w, 0, None)
      else (case wr bs w of (w', nw, ew) \<Rightarrow>
        if length bs < nw
        then (w', 0, Some (case ew of None \<Rightarrow> OtherError ''invalid write result'' | Some e \<Rightarrow> e))
        else (w', nw, (case ew of Some e \<Rightarrow> Some e
             | None \<Rightarrow> if nw = length bs then None else Some (OtherError ''short write'')))))"

fun io_copy ::
    "(nat \<Rightarrow> 'r \<Rightarrow> 'r read_result) \<Rightarrow> (byte list \<Rightarrow> 'w \<Rightarrow> 'w \<times> nat \<times> io_error option)
       \<Rightarrow> nat \<Rightarrow> nat \<Rightarrow> nat \<Rightarrow> 'r \<Rightarrow> 'w \<Rightarrow> ('r, 'w) copy_result" where
  "io_copy rd wr bsize 0 written r w = CopyFuel"
| "io_copy rd wr bsize (Suc fuel) written r w = (case rd bsize r of
       Blocks \<Rightarrow> CopyWaits r w written
     | Returns bs er r' \<Rightarrow>
         (case copy_write wr bs w of (w', nw, ew) \<Rightarrow>
            if ew \<noteq> None then CopyEnds ew r' w' (written + nw)
            else if er \<noteq> None
              then CopyEnds (if er = Some EOF then None else er) r' w' (written + nw)
            else io_copy rd wr bsize fuel (written + nw) r' w'))"

text \<open>
  What the loop needs from a source: every read hands out the next bytes it owes, an
  error it reports is the end of what it owes, and a read without an error makes progress.
\<close>

locale byte_source =
  fixes rd :: "nat \<Rightarrow> 'r \<Rightarrow> 'r read_result"
    and owed :: "'r \<Rightarrow> byte list"
    and fit :: "nat \<Rightarrow> 'r \<Rightarrow> bool"
    and work :: "'r \<Rightarrow> nat"
  assumes rd_owed: "fit m r \<Longrightarrow> 0 < m \<Longrightarrow> rd m r = Returns bs e r' \<Longrightarrow> owed r = bs @ owed r'"
    and rd_fit: "fit m r \<Longrightarrow> 0 < m \<Longrightarrow> rd m r = Returns bs e r' \<Longrightarrow> fit m r'"
    and rd_bound: "fit m r \<Longrightarrow> rd m r = Returns bs e r' \<Longrightarrow> length bs \<le> m"
    and rd_error: "fit m r \<Longrightarrow> 0 < m \<Longrightarrow> rd m r = Returns bs (Some err) r' \<Longrightarrow> err = EOF \<and> owed r' = []"
    and rd_work: "fit m r \<Longrightarrow> 0 < m \<Longrightarrow> rd m r = Returns bs None r' \<Longrightarrow> work r' < work r"

text \<open>What it needs from a destination: a write without an error takes all the bytes.\<close>

locale byte_sink =
  fixes wr :: "byte list \<Rightarrow> 'w \<Rightarrow> 'w \<times> nat \<times> io_error option"
    and accepted :: "'w \<Rightarrow> byte list"
  assumes wr_all: "wr bs w = (w', n, None) \<Longrightarrow> n = length bs \<and> accepted w' = accepted w @ bs"
    and wr_error: "wr bs w = (w', n, Some e) \<Longrightarrow> accepted w' = accepted w"

locale copying = byte_source rd owed fit work + byte_sink wr accepted
  for rd :: "nat \<Rightarrow> 'r \<Rightarrow> 'r read_result" and owed fit work
    and wr :: "byte list \<Rightarrow> 'w \<Rightarrow> 'w \<times> nat \<times> io_error option" and accepted
begin

lemma copy_write_all:
  "copy_write wr bs w = (w', n, None) \<Longrightarrow> n = length bs \<and> accepted w' = accepted w @ bs"
  by (auto simp: copy_write_def split: if_splits prod.splits option.splits dest: wr_all)

lemma copy_never_out_of_fuel:
  "fit m r \<Longrightarrow> 0 < m \<Longrightarrow> work r < fuel \<Longrightarrow> io_copy rd wr m fuel k r w \<noteq> CopyFuel"
proof (induction fuel arbitrary: r w k)
  case 0
  then show ?case by simp
next
  case (Suc fuel)
  show ?case
  proof (cases "rd m r")
    case Blocks
    then show ?thesis by simp
  next
    case (Returns bs er r')
    show ?thesis
    proof (cases er)
      case None
      from Suc.prems Returns None have "fit m r'" "work r' < fuel"
        using rd_fit rd_work by fastforce+
      with Suc.IH Suc.prems(2) Returns None show ?thesis
        by (simp split: prod.splits)
    next
      case (Some e)
      with Returns show ?thesis by (simp split: prod.splits)
    qed
  qed
qed

lemma copy_complete:
  "fit m r \<Longrightarrow> 0 < m \<Longrightarrow> io_copy rd wr m fuel k r w = CopyEnds None r' w' n \<Longrightarrow>
     accepted w' = accepted w @ owed r \<and> n = k + length (owed r)"
proof (induction fuel arbitrary: r w k)
  case 0
  then show ?case by simp
next
  case (Suc fuel)
  then obtain bs er r1 where rd: "rd m r = Returns bs er r1"
    by (cases "rd m r") auto
  obtain w1 nw ew where cw: "copy_write wr bs w = (w1, nw, ew)" by (metis prod_cases3)
  from Suc.prems rd cw have ew: "ew = None" by (auto split: if_splits)
  with cw have w1: "nw = length bs" "accepted w1 = accepted w @ bs" by (auto dest: copy_write_all)
  from rd_owed [OF Suc.prems(1,2) rd] have o: "owed r = bs @ owed r1" .
  show ?case
  proof (cases er)
    case None
    with Suc.prems rd cw ew have rec: "io_copy rd wr m fuel (k + nw) r1 w1 = CopyEnds None r' w' n"
      by simp
    from Suc.IH [OF rd_fit [OF Suc.prems(1,2) rd] Suc.prems(2) rec] w1 o show ?thesis by simp
  next
    case (Some e)
    with Suc.prems rd cw ew have "w' = w1" "n = k + nw" by auto
    moreover have "owed r1 = []" using rd_error Suc.prems(1,2) rd Some by blast
    ultimately show ?thesis using w1 o by simp
  qed
qed

lemma copy_waiting:
  "fit m r \<Longrightarrow> 0 < m \<Longrightarrow> io_copy rd wr m fuel k r w = CopyWaits r' w' n \<Longrightarrow>
     accepted w' @ owed r' = accepted w @ owed r \<and> rd m r' = Blocks"
proof (induction fuel arbitrary: r w k)
  case 0
  then show ?case by simp
next
  case (Suc fuel)
  show ?case
  proof (cases "rd m r")
    case Blocks
    with Suc.prems show ?thesis by auto
  next
    case rd: (Returns bs er r1)
    obtain w1 nw ew where cw: "copy_write wr bs w = (w1, nw, ew)" by (metis prod_cases3)
    from Suc.prems(3) rd cw have "ew = None" "er = None" and
      rec: "io_copy rd wr m fuel (k + nw) r1 w1 = CopyWaits r' w' n"
      by (auto split: if_splits)
    with cw have w1: "accepted w1 = accepted w @ bs" by (auto dest: copy_write_all)
    from Suc.IH [OF rd_fit [OF Suc.prems(1,2) rd] Suc.prems(2) rec] w1
      rd_owed [OF Suc.prems(1,2) rd]
    show ?thesis by simp
  qed
qed

end

text \<open>
  The reader of a link is a source for the loop as long as no chunk is larger than the
  buffer, which keeps its own buffer empty between reads: each read returns one chunk.
\<close>

definition reader_fit :: "nat \<Rightarrow> ChanReader \<Rightarrow> bool" where
  "reader_fit m c \<longleftrightarrow>
     (\<forall>p \<in> set (queue (cr_input c)). length (Data p) \<le> m) \<and>
     queue (cr_interrupt c) = [] \<and> \<not> shut (cr_interrupt c) \<and>
     (cr_buffer c = Some [] \<or> cr_buffer c = None \<and> queue (cr_input c) = [])"

lemma reader_fit_NewChanReader:
  "\<forall>p \<in> set (queue ch). length (Data p) \<le> m \<Longrightarrow> reader_fit m (NewChanReader ch)"
  by (simp add: reader_fit_def NewChanReader_def make_chan_def)

lemma ChanReader_Read_fit:
  assumes "reader_fit m c" and "0 < m"
  shows "ChanReader_Read pick m c =
    (case cr_buffer c of None \<Rightarrow> Returns [] (Some EOF) c
     | Some b \<Rightarrow> (case queue (cr_input c) of
         p # ps \<Rightarrow> Returns (Data p) None (c\<lparr>cr_buffer := Some [], cr_input := (cr_input c)\<lparr>queue := ps\<rparr>\<rparr>)
       | [] \<Rightarrow> if shut (cr_input c) then Returns [] (Some EOF) (c\<lparr>cr_buffer := None\<rparr>) else Blocks))"
  using assms
  by (auto simp: ChanReader_Read_def reader_fit_def chan_recv_def Let_def
      split: option.splits list.splits)

interpretation chan_source: byte_source "ChanReader_Read pick" pending reader_fit
    "\<lambda>c. length (queue (cr_input c))" for pick
proof unfold_locales
  fix m r bs e r'
  assume f: "reader_fit m r" "0 < m" and r: "ChanReader_Read pick m r = Returns bs e r'"
  show "pending r = bs @ pending r'" and "reader_fit m r'"
    using r f by (auto simp: ChanReader_Read_fit pending_def reader_fit_def
        split: option.splits list.splits if_splits)
next
  fix m r bs e r'
  show "ChanReader_Read pick m r = Returns bs e r' \<Longrightarrow> length bs \<le> m"
    by (rule ChanReader_Read_bound)
next
  fix m r bs e r'
  assume f: "reader_fit m r" "0 < m" and r: "ChanReader_Read pick m r = Returns bs (Some e) r'"
  then show "e = EOF \<and> pending r' = []"
    by (auto simp: ChanReader_Read_fit pending_def reader_fit_def
        split: option.splits list.splits if_splits)
next
  fix m r bs r'
  assume f: "reader_fit m r" "0 < m" and r: "ChanReader_Read pick m r = Returns bs None r'"
  then show "length (queue (cr_input r')) < length (queue (cr_input r))"
    by (auto simp: ChanReader_Read_fit split: option.splits list.splits if_splits)
qed

end
