(* ===== verification/Pipe.thy ===== *)
theory Pipe
  imports IoChan
begin

text \<open>
  The contract of a toxic's \<open>Pipe\<close> goroutine (\<open>toxics/toxic.go\<close>, the
  \<open>Toxic\<close> interface). Between two communications the goroutine stands at a program
  point; \<open>offer\<close> says which communications that point is ready for, and a step takes
  one of them to the next point. The theories \<open>Noop\<close>, \<open>Latency\<close>, \<open>Bandwidth\<close>,
  \<open>Slicer\<close> and \<open>ResetPeer\<close> translate the five toxics this way; the laws a link
  relies on are the locales \<open>pipe\<close> and \<open>lossless_pipe\<close>.
\<close>

definition Microsecond :: int where
  "Microsecond = 1000"

definition Millisecond :: int where
  "Millisecond = 1000 * 1000"

definition Second :: int where
  "Second = 1000 * 1000 * 1000"

lemmas duration_defs [go_defs] = Microsecond_def Millisecond_def Second_def

text \<open>\<open>time.Time.Sub\<close> (and \<open>time.Since\<close>) saturates at the limits of a duration.\<close>

definition time_sub :: "int \<Rightarrow> int \<Rightarrow> int" where
  "time_sub t u = max (- (2 ^ 63)) (min (2 ^ 63 - 1) (t - u))"

lemma time_sub_id: "is_i64 (t - u) \<Longrightarrow> time_sub t u = t - u"
  by (simp add: time_sub_def is_i64_def)

text \<open>
  What a step reads from its environment: the clock, and the numbers the random generator
  hands out. \<open>rand.Intn\<close> and \<open>rand.Int63n\<close> panic when their bound is not positive.
\<close>

record environment =
  now :: int
  draws :: "nat \<Rightarrow> nat"

definition rand_below :: "(nat \<Rightarrow> nat) \<Rightarrow> nat \<Rightarrow> int \<Rightarrow> int option" where
  "rand_below ds k n = (if n \<le> 0 then None else Some (int (ds k) mod n))"

lemma rand_below_Some:
  "rand_below ds k n = Some x \<Longrightarrow> 0 \<le> x \<and> x < n"
  by (auto simp: rand_below_def split: if_splits)

text \<open>
  The program points by what they wait for: the outer \<open>select\<close> on \<open>Interrupt\<close> and
  \<open>Input\<close>; a \<open>select\<close> on \<open>time.After\<close> and \<open>Interrupt\<close>; \<open>time.After\<close>
  alone; a send on \<open>Output\<close>; and \<open>WriteOutput\<close>, a send with a timeout.
\<close>

datatype offer =
    Select
  | Await int
  | Sleep int
  | Send StreamChunk
  | SendOr StreamChunk int

datatype event =
    Interrupted
  | Received StreamChunk
  | InputClosed
  | TimerFired
  | Sent
  | WriteTimedOut

fun accepts :: "offer \<Rightarrow> event \<Rightarrow> bool" where
  "accepts Select e = (case e of Interrupted \<Rightarrow> True | Received c \<Rightarrow> True | InputClosed \<Rightarrow> True | _ \<Rightarrow> False)"
| "accepts (Await d) e = (e = Interrupted \<or> e = TimerFired)"
| "accepts (Sleep d) e = (e = TimerFired)"
| "accepts (Send c) e = (e = Sent)"
| "accepts (SendOr c d) e = (e = Sent \<or> e = WriteTimedOut)"

lemma accepts_event_simps [simp]:
  "accepts o' (Received c) \<longleftrightarrow> o' = Select"
  "accepts o' InputClosed \<longleftrightarrow> o' = Select"
  "accepts o' Interrupted \<longleftrightarrow> o' = Select \<or> (\<exists>d. o' = Await d)"
  "accepts o' TimerFired \<longleftrightarrow> (\<exists>d. o' = Await d) \<or> (\<exists>d. o' = Sleep d)"
  "accepts o' Sent \<longleftrightarrow> (\<exists>c. o' = Send c) \<or> (\<exists>c d. o' = SendOr c d)"
  "accepts o' WriteTimedOut \<longleftrightarrow> (\<exists>c d. o' = SendOr c d)"
  by (cases o'; simp)+

text \<open>
  Where a step leads: to another point, out of \<open>Pipe\<close>, out of it after closing the
  stub, or to a run-time panic (of the whole process).
\<close>

datatype 'p run = At 'p | Returned | ClosedReturned | Panicked

fun absorbed :: "event \<Rightarrow> byte list" where
  "absorbed (Received c) = Data c"
| "absorbed _ = []"

fun sends :: "offer \<Rightarrow> event \<Rightarrow> StreamChunk list" where
  "sends (Send c) Sent = [c]"
| "sends (SendOr c d) Sent = [c]"
| "sends _ _ = []"

fun offered :: "offer \<Rightarrow> StreamChunk option" where
  "offered (Send c) = Some c"
| "offered (SendOr c d) = Some c"
| "offered _ = None"

lemma offered_Some: "offered o' = Some c \<longleftrightarrow> o' = Send c \<or> (\<exists>d. o' = SendOr c d)"
  by (cases o') auto

definition run_held :: "('p \<Rightarrow> byte list) \<Rightarrow> 'p run \<Rightarrow> byte list" where
  "run_held held r = (case r of At p \<Rightarrow> held p | _ \<Rightarrow> [])"

lemma run_held_simps [simp]:
  "run_held held (At p) = held p"
  "run_held held Returned = []"
  "run_held held ClosedReturned = []"
  "run_held held Panicked = []"
  by (simp_all add: run_held_def)

text \<open>
  A run over a list of events, each with the environment it reads; \<open>None\<close> when an
  event is not one the goroutine waits for. The second component is what it sent.
\<close>

fun drive ::
    "('p \<Rightarrow> offer) \<Rightarrow> ('p \<Rightarrow> environment \<Rightarrow> event \<Rightarrow> 'p run) \<Rightarrow> (environment \<times> event) list
       \<Rightarrow> 'p run \<Rightarrow> ('p run \<times> StreamChunk list) option" where
  "drive offer step [] r = Some (r, [])"
| "drive offer step ((v, e) # es) (At p) =
     (if accepts (offer p) e
      then map_option (\<lambda>(r, cs). (r, sends (offer p) e @ cs)) (drive offer step es (step p v e))
      else None)"
| "drive offer step ((v, e) # es) r = None"

text \<open>A point whose only way on is to hand out its last chunk and return.\<close>

definition leaving :: "('p \<Rightarrow> offer) \<Rightarrow> ('p \<Rightarrow> environment \<Rightarrow> event \<Rightarrow> 'p run) \<Rightarrow> 'p \<Rightarrow> bool" where
  "leaving offer step p \<longleftrightarrow>
     (\<exists>c. offer p = Send c) \<and> (\<forall>v. step p v Sent = Returned) \<or>
     (\<exists>c d. offer p = SendOr c d) \<and> (\<forall>v. step p v Sent = Returned \<and> step p v WriteTimedOut = Returned)"

fun received :: "(environment \<times> event) list \<Rightarrow> byte list" where
  "received [] = []"
| "received ((v, e) # es) = absorbed e @ received es"

locale pipe =
  fixes offer :: "'p \<Rightarrow> offer"
    and step :: "'p \<Rightarrow> environment \<Rightarrow> event \<Rightarrow> 'p run"
    and held :: "'p \<Rightarrow> byte list"
    and good :: "'p \<Rightarrow> bool"
  assumes good_step: "good p \<Longrightarrow> accepts (offer p) e \<Longrightarrow> step p v e = At p' \<Longrightarrow> good p'"
    and select_idle: "good p \<Longrightarrow> offer p = Select \<Longrightarrow> held p = []"
    and thins: "good p \<Longrightarrow> accepts (offer p) e \<Longrightarrow>
      subseq (chunk_bytes (sends (offer p) e) @ run_held held (step p v e)) (held p @ absorbed e)"
    and send_prefix: "good p \<Longrightarrow> offered (offer p) = Some c \<Longrightarrow>
      \<exists>bs. held p = Data c @ bs \<and> (\<forall>v. step p v Sent = Panicked \<or> run_held held (step p v Sent) = bs)"
    and timeout_ends: "good p \<Longrightarrow> offer p = SendOr c d \<Longrightarrow> step p v WriteTimedOut = Returned"
    and interrupt_ends: "good p \<Longrightarrow> accepts (offer p) Interrupted \<Longrightarrow>
      step p v Interrupted = Returned \<or> step p v Interrupted = Panicked
      \<or> (\<exists>p'. step p v Interrupted = At p' \<and> leaving offer step p')"
begin

lemma drive_good:
  "drive offer step es (At p) = Some (At p', cs) \<Longrightarrow> good p \<Longrightarrow> good p'"
proof (induction es arbitrary: p cs)
  case Nil
  then show ?case by simp
next
  case (Cons ve es)
  obtain v e where ve: "ve = (v, e)" by (cases ve)
  from Cons.prems ve obtain cs' where acc: "accepts (offer p) e"
    and d: "drive offer step es (step p v e) = Some (At p', cs')"
    by (auto split: if_splits)
  show ?case
  proof (cases "step p v e")
    case (At q)
    with Cons.IH d good_step [OF Cons.prems(2) acc At] show ?thesis by simp
  qed (use d in \<open>cases es; auto\<close>)+
qed

lemma drive_thins:
  "drive offer step es (At p) = Some (r, cs) \<Longrightarrow> good p \<Longrightarrow>
     subseq (chunk_bytes cs @ run_held held r) (held p @ received es)"
proof (induction es arbitrary: p cs)
  case Nil
  then show ?case by auto
next
  case (Cons ve es)
  obtain v e where ve: "ve = (v, e)" by (cases ve)
  from Cons.prems ve obtain cs' where acc: "accepts (offer p) e"
    and d: "drive offer step es (step p v e) = Some (r, cs')" and cs: "cs = sends (offer p) e @ cs'"
    by (auto split: if_splits)
  let ?out = "chunk_bytes (sends (offer p) e)" and ?in = "received es"
  have thin: "subseq (?out @ run_held held (step p v e)) (held p @ absorbed e)"
    using thins Cons.prems(2) acc by blast
  have "subseq (chunk_bytes cs' @ run_held held r) (run_held held (step p v e) @ ?in)"
  proof (cases "step p v e")
    case (At p')
    with Cons.IH [of p' cs'] d good_step [OF Cons.prems(2) acc At] show ?thesis by simp
  qed (use d in \<open>cases es; auto\<close>)+
  then have "subseq (?out @ chunk_bytes cs' @ run_held held r)
      (?out @ run_held held (step p v e) @ ?in)"
    by (rule list_emb_append_mono [OF subseq_order.order_refl])
  also have "subseq \<dots> ((held p @ absorbed e) @ ?in)"
    using subseq_append_same [OF thin, of ?in] by simp
  finally show ?case using cs ve by simp
qed

end

locale lossless_pipe = pipe +
  assumes conserves: "good p \<Longrightarrow> accepts (offer p) e \<Longrightarrow> e \<noteq> WriteTimedOut \<Longrightarrow>
      step p v e \<noteq> Panicked \<Longrightarrow>
      held p @ absorbed e = chunk_bytes (sends (offer p) e) @ run_held held (step p v e)"
begin

lemma drive_conserves:
  "drive offer step es (At p) = Some (r, cs) \<Longrightarrow> good p \<Longrightarrow> r \<noteq> Panicked \<Longrightarrow>
     WriteTimedOut \<notin> snd ` set es \<Longrightarrow>
     held p @ received es = chunk_bytes cs @ run_held held r"
proof (induction es arbitrary: p cs)
  case Nil
  then show ?case by auto
next
  case (Cons ve es)
  obtain v e where ve: "ve = (v, e)" by (cases ve)
  from Cons.prems ve obtain cs' where acc: "accepts (offer p) e"
    and d: "drive offer step es (step p v e) = Some (r, cs')" and cs: "cs = sends (offer p) e @ cs'"
    by (auto split: if_splits)
  have np: "step p v e \<noteq> Panicked"
    using d Cons.prems(3) by (cases es) auto
  have c: "held p @ absorbed e = chunk_bytes (sends (offer p) e) @ run_held held (step p v e)"
    using conserves Cons.prems(2,4) acc np ve by auto
  have "run_held held (step p v e) @ received es = chunk_bytes cs' @ run_held held r"
  proof (cases "step p v e")
    case (At p')
    with Cons.IH [of p' cs'] Cons.prems d good_step [OF Cons.prems(2) acc At] show ?thesis
      by simp
  qed (use d in \<open>cases es; auto\<close>)+
  with c show ?case using cs ve by (metis append.assoc chunk_bytes_simps(3) received.simps(2))
qed

end

end
