(* ===== verification/Noop.thy ===== *)
theory Noop
  imports Pipe
begin

text \<open>
  \<open>toxics/noop.go\<close>: the toxic without an effect. It is also what a stub runs when the
  toxicity draw decides against its own toxic.
\<close>

datatype noop_pc =
    NSelect
  | NSend StreamChunk

fun noop_offer :: "noop_pc \<Rightarrow> offer" where
  "noop_offer NSelect = Select"
| "noop_offer (NSend c) = Send c"

fun noop_Pipe :: "noop_pc \<Rightarrow> environment \<Rightarrow> event \<Rightarrow> noop_pc run" where
  "noop_Pipe NSelect v Interrupted = Returned"
| "noop_Pipe NSelect v InputClosed = ClosedReturned"
| "noop_Pipe NSelect v (Received c) = At (NSend c)"
| "noop_Pipe (NSend c) v Sent = At NSelect"
| "noop_Pipe p v e = At p"

fun noop_held :: "noop_pc \<Rightarrow> byte list" where
  "noop_held NSelect = []"
| "noop_held (NSend c) = Data c"

lemma noop_no_timeout [simp]: "noop_offer p \<noteq> SendOr c d"
  by (cases p) auto

interpretation noop: lossless_pipe noop_offer noop_Pipe noop_held "\<lambda>_. True"
proof unfold_locales
  fix p e v
  assume acc: "accepts (noop_offer p) e"
  then show "subseq (chunk_bytes (sends (noop_offer p) e) @ run_held noop_held (noop_Pipe p v e))
      (noop_held p @ absorbed e)"
    by (cases p; cases e) auto
  show "noop_held p @ absorbed e
      = chunk_bytes (sends (noop_offer p) e) @ run_held noop_held (noop_Pipe p v e)"
    using acc by (cases p; cases e) auto
next
  fix p
  show "noop_offer p = Select \<Longrightarrow> noop_held p = []" by (cases p) auto
next
  fix p v
  show "accepts (noop_offer p) Interrupted \<Longrightarrow>
      noop_Pipe p v Interrupted = Returned \<or> noop_Pipe p v Interrupted = Panicked
      \<or> (\<exists>p'. noop_Pipe p v Interrupted = At p' \<and> leaving noop_offer (noop_Pipe) p')"
    by (cases p) (auto simp: leaving_def)
next
  fix p c
  show "offered (noop_offer p) = Some c \<Longrightarrow> \<exists>bs. noop_held p = Data c @ bs
      \<and> (\<forall>v. noop_Pipe p v Sent = Panicked \<or> run_held noop_held (noop_Pipe p v Sent) = bs)"
    by (cases p) auto
next
  fix p v c d
  show "noop_offer p = SendOr c d \<Longrightarrow> noop_Pipe p v WriteTimedOut = Returned"
    by (cases p) auto
qed simp

end
