(* ===== verification/Latency.thy ===== *)
theory Latency
  imports Pipe
begin

text \<open>
  \<open>toxics/latency.go\<close>: every chunk is held back until \<open>Latency\<close> plus or minus
  \<open>Jitter\<close> milliseconds have passed since its timestamp. When the wait is over the
  timestamp is moved by the time waited, so that a later latency toxic counts from there.
\<close>

record LatencyToxic =
  Latency :: int
  Jitter :: int

definition latency_GetBufferSize :: "LatencyToxic \<Rightarrow> nat" where
  "latency_GetBufferSize t = 1024"

text \<open>\<open>delay()\<close>; \<open>None\<close> is the panic of \<open>rand.Int63n\<close> when twice the jitter overflows.\<close>

definition delay :: "LatencyToxic \<Rightarrow> (nat \<Rightarrow> nat) \<Rightarrow> int option" where
  "delay t ds =
     (if Jitter t > 0
      then map_option (\<lambda>x. i64 (i64 (Latency t + i64 (x - Jitter t)) * Millisecond))
             (rand_below ds 0 (i64 (Jitter t * 2)))
      else Some (i64 (Latency t * Millisecond)))"

datatype latency_pc =
    LSelect
  | LWait StreamChunk int
  | LSend StreamChunk
  | LSendExit StreamChunk

fun latency_offer :: "latency_pc \<Rightarrow> offer" where
  "latency_offer LSelect = Select"
| "latency_offer (LWait c slp) = Await slp"
| "latency_offer (LSend c) = Send c"
| "latency_offer (LSendExit c) = Send c"

fun latency_Pipe :: "LatencyToxic \<Rightarrow> latency_pc \<Rightarrow> environment \<Rightarrow> event \<Rightarrow> latency_pc run" where
  "latency_Pipe t LSelect v Interrupted = Returned"
| "latency_Pipe t LSelect v InputClosed = ClosedReturned"
| "latency_Pipe t LSelect v (Received c) =
     (case delay t (draws v) of
        None \<Rightarrow> Panicked
      | Some d \<Rightarrow> At (LWait c (i64 (d - time_sub (now v) (Timestamp c)))))"
| "latency_Pipe t (LWait c slp) v TimerFired = At (LSend (c\<lparr>Timestamp := Timestamp c + slp\<rparr>))"
| "latency_Pipe t (LWait c slp) v Interrupted = At (LSendExit c)"
| "latency_Pipe t (LSend c) v Sent = At LSelect"
| "latency_Pipe t (LSendExit c) v Sent = Returned"
| "latency_Pipe t p v e = At p"

fun latency_held :: "latency_pc \<Rightarrow> byte list" where
  "latency_held LSelect = []"
| "latency_held (LWait c slp) = Data c"
| "latency_held (LSend c) = Data c"
| "latency_held (LSendExit c) = Data c"

lemma latency_no_timeout [simp]: "latency_offer p \<noteq> SendOr c d"
  by (cases p) auto

interpretation latency: lossless_pipe latency_offer "latency_Pipe t" latency_held "\<lambda>_. True" for t
proof unfold_locales
  fix p e v
  assume acc: "accepts (latency_offer p) e"
  then show "subseq (chunk_bytes (sends (latency_offer p) e) @ run_held latency_held (latency_Pipe t p v e))
      (latency_held p @ absorbed e)"
    by (cases p; cases e) (auto split: option.splits)
  show "latency_Pipe t p v e \<noteq> Panicked \<Longrightarrow> latency_held p @ absorbed e
      = chunk_bytes (sends (latency_offer p) e) @ run_held latency_held (latency_Pipe t p v e)"
    using acc by (cases p; cases e) (auto split: option.splits)
next
  fix p
  show "latency_offer p = Select \<Longrightarrow> latency_held p = []" by (cases p) auto
next
  fix p v
  show "accepts (latency_offer p) Interrupted \<Longrightarrow>
      latency_Pipe t p v Interrupted = Returned \<or> latency_Pipe t p v Interrupted = Panicked
      \<or> (\<exists>p'. latency_Pipe t p v Interrupted = At p' \<and> leaving latency_offer (latency_Pipe t) p')"
    by (cases p) (auto simp: leaving_def)
next
  fix p c
  show "offered (latency_offer p) = Some c \<Longrightarrow> \<exists>bs. latency_held p = Data c @ bs
      \<and> (\<forall>v. latency_Pipe t p v Sent = Panicked \<or> run_held latency_held (latency_Pipe t p v Sent) = bs)"
    by (cases p) auto
next
  fix p v c d
  show "latency_offer p = SendOr c d \<Longrightarrow> latency_Pipe t p v WriteTimedOut = Returned"
    by (cases p) auto
qed simp

end
