(* ===== verification/Bandwidth.thy ===== *)
theory Bandwidth
  imports Pipe
begin

text \<open>
  \<open>toxics/bandwidth.go\<close>: data passes at \<open>Rate\<close> kilobytes per second. The variable
  \<open>sleep\<close> of the loop is carried from chunk to chunk; a chunk of more than 100 ms worth
  of data is cut into slices sent 100 ms apart.
\<close>

record BandwidthToxic =
  Rate :: int

datatype bandwidth_pc =
    BSelect int
  | BSplit StreamChunk int
  | BSendSlice StreamChunk StreamChunk int
  | BFinal StreamChunk int int
  | BSendLast StreamChunk int
  | BWriteOut StreamChunk

fun bandwidth_offer :: "bandwidth_pc \<Rightarrow> offer" where
  "bandwidth_offer (BSelect slp) = Select"
| "bandwidth_offer (BSplit p slp) = Await (100 * Millisecond)"
| "bandwidth_offer (BSendSlice q p slp) = Send q"
| "bandwidth_offer (BFinal p slp start) = Await slp"
| "bandwidth_offer (BSendLast p slp) = Send p"
| "bandwidth_offer (BWriteOut p) = SendOr p (5 * Second)"

text \<open>The number of bytes in 100 ms, \<open>t.Rate*100\<close>.\<close>

definition slice_size :: "BandwidthToxic \<Rightarrow> int" where
  "slice_size t = i64 (Rate t * 100)"

text \<open>The head of the splitting loop; leaving it reads the clock for \<open>start\<close>.\<close>

definition split_loop :: "BandwidthToxic \<Rightarrow> StreamChunk \<Rightarrow> int \<Rightarrow> int \<Rightarrow> bandwidth_pc run" where
  "split_loop t p slp tm =
     (if int (length (Data p)) > slice_size t then At (BSplit p slp) else At (BFinal p slp tm))"

text \<open>The sleep after a chunk has been received.\<close>

definition next_sleep :: "BandwidthToxic \<Rightarrow> int \<Rightarrow> StreamChunk \<Rightarrow> int option" where
  "next_sleep t slp p =
     (if Rate t \<le> 0 then Some 0
      else map_option (\<lambda>q. i64 (slp + q))
             (go_div (i64 (int (length (Data p)) * Millisecond)) (Rate t)))"

fun bandwidth_Pipe :: "BandwidthToxic \<Rightarrow> bandwidth_pc \<Rightarrow> environment \<Rightarrow> event \<Rightarrow> bandwidth_pc run" where
  "bandwidth_Pipe t (BSelect slp) v Interrupted = Returned"
| "bandwidth_Pipe t (BSelect slp) v InputClosed = ClosedReturned"
| "bandwidth_Pipe t (BSelect slp) v (Received p) =
     (case next_sleep t slp p of None \<Rightarrow> Panicked | Some slp' \<Rightarrow> split_loop t p slp' (now v))"
| "bandwidth_Pipe t (BSplit p slp) v TimerFired =
     (case go_slice 0 (slice_size t) (Data p) of
        None \<Rightarrow> Panicked
      | Some d \<Rightarrow> At (BSendSlice \<lparr>Data = d, Timestamp = Timestamp p\<rparr> p slp))"
| "bandwidth_Pipe t (BSplit p slp) v Interrupted = At (BWriteOut p)"
| "bandwidth_Pipe t (BSendSlice q p slp) v Sent =
     (case go_slice (slice_size t) (int (length (Data p))) (Data p) of
        None \<Rightarrow> Panicked
      | Some d \<Rightarrow> split_loop t (p\<lparr>Data := d\<rparr>) (i64 (slp - 100 * Millisecond)) (now v))"
| "bandwidth_Pipe t (BFinal p slp start) v TimerFired =
     At (BSendLast p (i64 (slp - time_sub (now v) start)))"
| "bandwidth_Pipe t (BFinal p slp start) v Interrupted = At (BWriteOut p)"
| "bandwidth_Pipe t (BSendLast p slp) v Sent = At (BSelect slp)"
| "bandwidth_Pipe t (BWriteOut p) v Sent = Returned"
| "bandwidth_Pipe t (BWriteOut p) v WriteTimedOut = Returned"
| "bandwidth_Pipe t p v e = At p"

fun bandwidth_held :: "bandwidth_pc \<Rightarrow> byte list" where
  "bandwidth_held (BSelect slp) = []"
| "bandwidth_held (BSplit p slp) = Data p"
| "bandwidth_held (BSendSlice q p slp) = Data p"
| "bandwidth_held (BFinal p slp start) = Data p"
| "bandwidth_held (BSendLast p slp) = Data p"
| "bandwidth_held (BWriteOut p) = Data p"

text \<open>A slice being sent is the front of the chunk it is cut from.\<close>

fun bandwidth_good :: "BandwidthToxic \<Rightarrow> bandwidth_pc \<Rightarrow> bool" where
  "bandwidth_good t (BSendSlice q p slp) = (go_slice 0 (slice_size t) (Data p) = Some (Data q))"
| "bandwidth_good t _ = True"

lemma split_loop_held [simp]: "run_held bandwidth_held (split_loop t p slp tm) = Data p"
  by (simp add: split_loop_def)

lemma split_loop_At [simp]:
  "split_loop t p slp tm \<noteq> Panicked" "split_loop t p slp tm \<noteq> Returned"
  "split_loop t p slp tm = At q \<Longrightarrow> bandwidth_good t q"
  by (auto simp: split_loop_def split: if_splits)

lemma slice_sent:
  assumes "go_slice 0 n xs = Some ys"
  shows "go_slice n (int (length xs)) xs = Some (drop (nat n) xs)" and "xs = ys @ drop (nat n) xs"
  using go_slice_split [OF assms] go_slice_Some [OF assms] by (simp_all add: go_slice_suffix)

lemma bandwidth_conserves:
  assumes g: "bandwidth_good t p" and acc: "accepts (bandwidth_offer p) e"
    and e: "e \<noteq> WriteTimedOut" and np: "bandwidth_Pipe t p v e \<noteq> Panicked"
  shows "bandwidth_held p @ absorbed e
    = chunk_bytes (sends (bandwidth_offer p) e) @ run_held bandwidth_held (bandwidth_Pipe t p v e)"
proof (cases p)
  case (BSendSlice q p' slp)
  with g have "go_slice 0 (slice_size t) (Data p') = Some (Data q)" by simp
  note s = slice_sent [OF this]
  from acc BSendSlice have "e = Sent" by (cases e) auto
  with BSendSlice s show ?thesis by simp
qed (use acc e np in \<open>cases e; auto split: option.splits\<close>)+

interpretation bandwidth: lossless_pipe bandwidth_offer "bandwidth_Pipe t" bandwidth_held
  "bandwidth_good t" for t
proof unfold_locales
  fix p e v
  assume g: "bandwidth_good t p" and acc: "accepts (bandwidth_offer p) e"
  show c: "bandwidth_held p @ absorbed e
      = chunk_bytes (sends (bandwidth_offer p) e) @ run_held bandwidth_held (bandwidth_Pipe t p v e)"
    if "e \<noteq> WriteTimedOut" "bandwidth_Pipe t p v e \<noteq> Panicked"
    using bandwidth_conserves g acc that by blast
  show "subseq (chunk_bytes (sends (bandwidth_offer p) e)
        @ run_held bandwidth_held (bandwidth_Pipe t p v e)) (bandwidth_held p @ absorbed e)"
  proof (cases "e = WriteTimedOut \<or> bandwidth_Pipe t p v e = Panicked")
    case False
    with c show ?thesis by simp
  next
    case True
    then show ?thesis
    proof
      assume "e = WriteTimedOut"
      with acc show ?thesis by (cases p) auto
    next
      assume pa: "bandwidth_Pipe t p v e = Panicked"
      with g acc have "sends (bandwidth_offer p) e = []"
        by (cases p; cases e) (auto simp: slice_sent(1) split: option.splits)
      with pa show ?thesis by simp
    qed
  qed
  show "bandwidth_good t p'" if "bandwidth_Pipe t p v e = At p'" for p'
    using that acc by (cases p; cases e) (auto split: option.splits)
next
  fix p
  show "bandwidth_offer p = Select \<Longrightarrow> bandwidth_held p = []" by (cases p) auto
next
  fix p v
  show "accepts (bandwidth_offer p) Interrupted \<Longrightarrow>
      bandwidth_Pipe t p v Interrupted = Returned \<or> bandwidth_Pipe t p v Interrupted = Panicked
      \<or> (\<exists>p'. bandwidth_Pipe t p v Interrupted = At p' \<and> leaving bandwidth_offer (bandwidth_Pipe t) p')"
    by (cases p) (auto simp: leaving_def)
next
  fix p c
  show "bandwidth_good t p \<Longrightarrow> offered (bandwidth_offer p) = Some c \<Longrightarrow> \<exists>bs. bandwidth_held p = Data c @ bs
      \<and> (\<forall>v. bandwidth_Pipe t p v Sent = Panicked \<or> run_held bandwidth_held (bandwidth_Pipe t p v Sent) = bs)"
    by (cases p) (auto simp: slice_sent(1) dest: slice_sent(2))
next
  fix p v c d
  show "bandwidth_offer p = SendOr c d \<Longrightarrow> bandwidth_Pipe t p v WriteTimedOut = Returned"
    by (cases p) auto
qed

end
