(* ===== verification/Slicer.thy ===== *)
theory Slicer
  imports Pipe
begin

text \<open>
  \<open>toxics/slicer.go\<close>: a chunk is cut at the offsets that the recursive function
  \<open>chunk\<close> chooses, and the slices are sent with a delay between them.
\<close>

record SlicerToxic =
  AverageSize :: int
  SizeVariation :: int
  SlicerDelay :: int

text \<open>
  The middle of a range, moved by a random amount, and the position in the sequence of
  draws afterwards; \<open>None\<close> is the panic of \<open>rand.Intn\<close> on a bound that overflowed.
\<close>

definition chunk_mid :: "SlicerToxic \<Rightarrow> (nat \<Rightarrow> nat) \<Rightarrow> nat \<Rightarrow> int \<Rightarrow> int \<Rightarrow> (int \<times> nat) option" where
  "chunk_mid t ds k start fin =
     (case go_div (i64 (fin - start)) 2 of
        None \<Rightarrow> None
      | Some half \<Rightarrow>
          (let mid = i64 (start + half)
           in if SizeVariation t > 0
              then map_option (\<lambda>x. (i64 (mid + i64 (x - SizeVariation t)), Suc k))
                     (rand_below ds k (i64 (SizeVariation t * 2)))
              else Some (mid, k)))"

text \<open>
  \<open>chunk(start, end)\<close>. The recursion of the source is not bounded by its arguments for
  every setting, so the function is partial: \<open>None\<close> means that the call does not return
  (it panics, or the recursion has no end and overflows the stack).
\<close>

partial_function (option) chunk ::
    "SlicerToxic \<Rightarrow> (nat \<Rightarrow> nat) \<Rightarrow> nat \<Rightarrow> int \<Rightarrow> int \<Rightarrow> (int list \<times> nat) option" where
  "chunk t ds k start fin =
     (if i64 (i64 (fin - start) - AverageSize t) \<le> SizeVariation t then Some ([start, fin], k)
      else Option.bind (chunk_mid t ds k start fin) (\<lambda>(mid, k1).
           Option.bind (chunk t ds k1 start mid) (\<lambda>(left, k2).
           Option.bind (chunk t ds k2 mid fin) (\<lambda>(right, k3).
           Some (left @ right, k3)))))"

declare chunk.simps [code]

text \<open>
  The loop over the offsets takes them two at a time; \<open>rest\<close> are those not yet used.
\<close>

datatype slicer_pc =
    SSelect
  | SSend StreamChunk StreamChunk int "int list"
  | SDelay StreamChunk int "int list"
  | SSendRest StreamChunk

definition slice_loop :: "StreamChunk \<Rightarrow> int list \<Rightarrow> slicer_pc run" where
  "slice_loop c offsets = (case offsets of
       lo # hi # rest \<Rightarrow>
         (case go_slice lo hi (Data c) of
            None \<Rightarrow> Panicked
          | Some d \<Rightarrow> At (SSend \<lparr>Data = d, Timestamp = Timestamp c\<rparr> c hi rest))
     | _ \<Rightarrow> At SSelect)"

fun slicer_offer :: "SlicerToxic \<Rightarrow> slicer_pc \<Rightarrow> offer" where
  "slicer_offer t SSelect = Select"
| "slicer_offer t (SSend q c hi rest) = Send q"
| "slicer_offer t (SDelay c hi rest) = Await (i64 (SlicerDelay t * Microsecond))"
| "slicer_offer t (SSendRest q) = Send q"

fun slicer_Pipe :: "SlicerToxic \<Rightarrow> slicer_pc \<Rightarrow> environment \<Rightarrow> event \<Rightarrow> slicer_pc run" where
  "slicer_Pipe t SSelect v Interrupted = Returned"
| "slicer_Pipe t SSelect v InputClosed = ClosedReturned"
| "slicer_Pipe t SSelect v (Received c) =
     (case chunk t (draws v) 0 0 (int (length (Data c))) of
        None \<Rightarrow> Panicked
      | Some (offsets, k) \<Rightarrow> slice_loop c offsets)"
| "slicer_Pipe t (SSend q c hi rest) v Sent = At (SDelay c hi rest)"
| "slicer_Pipe t (SDelay c hi rest) v Interrupted =
     (case go_slice hi (int (length (Data c))) (Data c) of
        None \<Rightarrow> Panicked
      | Some d \<Rightarrow> At (SSendRest \<lparr>Data = d, Timestamp = Timestamp c\<rparr>))"
| "slicer_Pipe t (SDelay c hi rest) v TimerFired = slice_loop c rest"
| "slicer_Pipe t (SSendRest q) v Sent = Returned"
| "slicer_Pipe t p v e = At p"

text \<open>Offsets that cover a range without gaps, two per slice.\<close>

fun tiles :: "int \<Rightarrow> int \<Rightarrow> int list \<Rightarrow> bool" where
  "tiles s e [a, b] = (a = s \<and> b = e)"
| "tiles s e (a # b # c # rest) = (a = s \<and> tiles b e (c # rest))"
| "tiles s e _ = False"

definition covers :: "int \<Rightarrow> int \<Rightarrow> int list \<Rightarrow> bool" where
  "covers s e rest \<longleftrightarrow> (rest = [] \<and> s = e) \<or> tiles s e rest"

lemma tiles_append: "tiles s m xs \<Longrightarrow> tiles m e ys \<Longrightarrow> tiles s e (xs @ ys)"
proof (induction s m xs rule: tiles.induct)
  case (1 s m a b)
  then show ?case by (cases ys) auto
qed auto

lemma tiles_Cons: "tiles s e (a # b # rest) \<longleftrightarrow> a = s \<and> covers b e rest"
  by (cases rest) (auto simp: covers_def)

lemma tiles_cases:
  assumes "covers s e offsets"
  obtains (done_) "offsets = []" "s = e"
  | (slice) hi rest where "offsets = s # hi # rest" "covers hi e rest"
proof (cases offsets)
  case Nil
  with assms done_ show thesis by (simp add: covers_def)
next
  case (Cons a bs)
  with assms have "tiles s e (a # bs)" by (simp add: covers_def)
  with Cons slice show thesis by (cases bs) (auto simp: tiles_Cons)
qed

lemma chunk_tiles: "chunk t ds k s e = Some (xs, k') \<Longrightarrow> tiles s e xs"
proof -
  assume ret: "chunk t ds k s e = Some (xs, k')"
  have "case (xs, k') of (xs, k') \<Rightarrow> tiles s e xs"
  proof (rule chunk.raw_induct [where P = "\<lambda>t ds k s e r. case r of (xs, k') \<Rightarrow> tiles s e xs", OF _ ret])
    fix f t ds k s e y
    assume IH: "\<And>t ds k s e y. f t ds k s e = Some y \<Longrightarrow> case y of (xs, k') \<Rightarrow> tiles s e xs"
      and eq: "(if i64 (i64 (e - s) - AverageSize t) \<le> SizeVariation t then Some ([s, e], k)
          else Option.bind (chunk_mid t ds k s e) (\<lambda>(mid, k1).
               Option.bind (f t ds k1 s mid) (\<lambda>(left, k2).
               Option.bind (f t ds k2 mid e) (\<lambda>(right, k3).
               Some (left @ right, k3))))) = Some y"
    then show "case y of (xs, k') \<Rightarrow> tiles s e xs"
      by (fastforce simp: bind_eq_Some_conv split: if_splits dest!: IH intro: tiles_append)
  qed
  then show ?thesis by simp
qed

text \<open>
  The bytes of the chunk not yet sent. A point after the first slice is \<open>good\<close> when the
  offsets still to be used continue at the end of the slice last sent.
\<close>

fun slicer_held :: "slicer_pc \<Rightarrow> byte list" where
  "slicer_held SSelect = []"
| "slicer_held (SSend q c hi rest) = Data q @ drop (nat hi) (Data c)"
| "slicer_held (SDelay c hi rest) = drop (nat hi) (Data c)"
| "slicer_held (SSendRest q) = Data q"

definition offsets_left :: "StreamChunk \<Rightarrow> int \<Rightarrow> int list \<Rightarrow> bool" where
  "offsets_left c hi rest \<longleftrightarrow>
     0 \<le> hi \<and> hi \<le> int (length (Data c)) \<and> covers hi (int (length (Data c))) rest"

fun slicer_good :: "slicer_pc \<Rightarrow> bool" where
  "slicer_good (SSend q c hi rest) = offsets_left c hi rest"
| "slicer_good (SDelay c hi rest) = offsets_left c hi rest"
| "slicer_good _ = True"

lemma slice_loop_laws:
  assumes c: "covers lo (int (length (Data c))) offsets"
  shows "slice_loop c offsets \<noteq> Panicked \<Longrightarrow>
      run_held slicer_held (slice_loop c offsets) = drop (nat lo) (Data c)"
    and "slice_loop c offsets = At q \<Longrightarrow> slicer_good q"
proof -
  show "run_held slicer_held (slice_loop c offsets) = drop (nat lo) (Data c)"
    if np: "slice_loop c offsets \<noteq> Panicked"
    using c
  proof (cases rule: tiles_cases)
    case done_
    then show ?thesis by (simp add: slice_loop_def)
  next
    case (slice hi rest)
    with np obtain d where "go_slice lo hi (Data c) = Some d"
      by (auto simp: slice_loop_def split: option.splits)
    with slice go_slice_split [OF this] show ?thesis by (simp add: slice_loop_def)
  qed
  show "slicer_good q" if at: "slice_loop c offsets = At q"
    using c
  proof (cases rule: tiles_cases)
    case done_
    with at show ?thesis by (auto simp: slice_loop_def)
  next
    case (slice hi rest)
    with at obtain d where "go_slice lo hi (Data c) = Some d"
        "q = SSend \<lparr>Data = d, Timestamp = Timestamp c\<rparr> c hi rest"
      by (auto simp: slice_loop_def split: option.splits)
    with slice show ?thesis by (auto simp: offsets_left_def dest: go_slice_Some)
  qed
qed

lemma chunk_covers: "chunk t ds k s e = Some (xs, k') \<Longrightarrow> covers s e xs"
  by (simp add: covers_def chunk_tiles)

lemma slicer_conserves:
  assumes g: "slicer_good p" and acc: "accepts (slicer_offer t p) e"
    and np: "slicer_Pipe t p v e \<noteq> Panicked"
  shows "slicer_held p @ absorbed e
    = chunk_bytes (sends (slicer_offer t p) e) @ run_held slicer_held (slicer_Pipe t p v e)"
proof (cases p)
  case SSelect
  show ?thesis
  proof (cases e)
    case (Received c)
    with SSelect np obtain xs k where x: "chunk t (draws v) 0 0 (int (length (Data c))) = Some (xs, k)"
      "slice_loop c xs \<noteq> Panicked" by (auto split: option.splits)
    with slice_loop_laws(1) [OF chunk_covers] SSelect Received show ?thesis by fastforce
  qed (use SSelect acc in auto)
next
  case (SDelay c hi rest)
  with g have h: "offsets_left c hi rest" by simp
  show ?thesis
  proof (cases e)
    case TimerFired
    with SDelay h np slice_loop_laws(1) [of hi c rest] show ?thesis by (simp add: offsets_left_def)
  next
    case Interrupted
    with SDelay h show ?thesis by (simp add: offsets_left_def go_slice_suffix)
  qed (use SDelay acc in auto)
qed (use acc in \<open>cases e; auto\<close>)+

lemma slicer_no_timeout [simp]: "slicer_offer t p \<noteq> SendOr c d"
  by (cases p) auto

interpretation slicer: lossless_pipe "slicer_offer t" "slicer_Pipe t" slicer_held slicer_good for t
proof unfold_locales
  fix p e v
  assume g: "slicer_good p" and acc: "accepts (slicer_offer t p) e"
  show c: "slicer_held p @ absorbed e
      = chunk_bytes (sends (slicer_offer t p) e) @ run_held slicer_held (slicer_Pipe t p v e)"
    if "slicer_Pipe t p v e \<noteq> Panicked"
    using slicer_conserves g acc that by blast
  show "subseq (chunk_bytes (sends (slicer_offer t p) e)
        @ run_held slicer_held (slicer_Pipe t p v e)) (slicer_held p @ absorbed e)"
  proof (cases "slicer_Pipe t p v e = Panicked")
    case False
    with c show ?thesis by simp
  next
    case True
    with acc have "sends (slicer_offer t p) e = []"
      by (cases p; cases e) auto
    with True show ?thesis by simp
  qed
  show "slicer_good p'" if st: "slicer_Pipe t p v e = At p'" for p'
  proof (cases p)
    case SSelect
    with st acc show ?thesis
      by (cases e) (auto split: option.splits dest: slice_loop_laws(2) [OF chunk_covers])
  next
    case (SDelay c hi rest)
    with g have "covers hi (int (length (Data c))) rest" by (simp add: offsets_left_def)
    with SDelay st acc show ?thesis
      by (cases e) (auto split: option.splits dest: slice_loop_laws(2))
  qed (use st acc g in \<open>cases e; auto\<close>)+
next
  fix p
  show "slicer_offer t p = Select \<Longrightarrow> slicer_held p = []" by (cases p) auto
next
  fix p v
  assume g: "slicer_good p"
  then show "accepts (slicer_offer t p) Interrupted \<Longrightarrow>
      slicer_Pipe t p v Interrupted = Returned \<or> slicer_Pipe t p v Interrupted = Panicked
      \<or> (\<exists>p'. slicer_Pipe t p v Interrupted = At p' \<and> leaving (slicer_offer t) (slicer_Pipe t) p')"
    by (cases p) (auto simp: leaving_def offsets_left_def go_slice_suffix)
next
  fix p c
  show "slicer_good p \<Longrightarrow> offered (slicer_offer t p) = Some c \<Longrightarrow> \<exists>bs. slicer_held p = Data c @ bs
      \<and> (\<forall>v. slicer_Pipe t p v Sent = Panicked \<or> run_held slicer_held (slicer_Pipe t p v Sent) = bs)"
    by (cases p) auto
next
  fix p v c d
  show "slicer_offer t p = SendOr c d \<Longrightarrow> slicer_Pipe t p v WriteTimedOut = Returned"
    by (cases p) auto
qed

subsection \<open>The offsets of documented settings\<close>

text \<open>
  The comment on the struct asks for a variation below the average size. The further
  bounds keep the 64-bit arithmetic exact.
\<close>

definition slicer_documented :: "SlicerToxic \<Rightarrow> bool" where
  "slicer_documented t \<longleftrightarrow>
     0 \<le> SizeVariation t \<and> SizeVariation t < AverageSize t \<and> AverageSize t < 2 ^ 61"

fun pieces :: "int list \<Rightarrow> (int \<times> int) list" where
  "pieces (a # b # rest) = (a, b) # pieces rest"
| "pieces _ = []"

lemma pieces_append: "tiles s m xs \<Longrightarrow> pieces (xs @ ys) = pieces xs @ pieces ys"
  by (induction s m xs rule: tiles.induct) auto

lemma chunk_mid_documented:
  assumes t: "slicer_documented t" and b: "0 \<le> s" "e < 2 ^ 62"
    and big: "AverageSize t + SizeVariation t < e - s"
  obtains mid k1 where "chunk_mid t ds k s e = Some (mid, k1)" "s < mid" "mid < e"
proof -
  let ?v = "SizeVariation t" and ?h = "(e - s) div 2"
  from t have v: "0 \<le> ?v" "?v < AverageSize t" "AverageSize t < 2 ^ 61"
    by (auto simp: slicer_documented_def)
  from b big v have es: "0 < e - s" "e - s < 2 ^ 62" by auto
  then have half: "go_div (i64 (e - s)) 2 = Some ?h"
    by (simp add: go_div_def i64_id)
  have h: "?v < ?h" "?h < e - s" "?h + ?v \<le> e - s" using big v by linarith+
  have mid: "i64 (s + ?h) = s + ?h" using b h es by (simp add: i64_id)
  show thesis
  proof (cases "?v > 0")
    case False
    with half mid have "chunk_mid t ds k s e = Some (s + ?h, k)" by (simp add: chunk_mid_def)
    with h v show thesis by (intro that) auto
  next
    case True
    have two: "i64 (?v * 2) = ?v * 2" using v by (simp add: i64_id)
    let ?x = "int (ds k) mod (?v * 2)"
    have x: "0 \<le> ?x" "?x < ?v * 2" using True by auto
    have m: "i64 (s + ?h + i64 (?x - ?v)) = s + ?h + (?x - ?v)"
      using x v b h es by (simp add: i64_id)
    have "chunk_mid t ds k s e = Some (s + ?h + (?x - ?v), Suc k)"
      using True half mid two m by (simp add: chunk_mid_def rand_below_def)
    moreover have "s < s + ?h + (?x - ?v)" "s + ?h + (?x - ?v) < e" using h x by linarith+
    ultimately show thesis by (rule that)
  qed
qed

lemma chunk_documented:
  assumes t: "slicer_documented t"
  shows "0 \<le> s \<Longrightarrow> s \<le> e \<Longrightarrow> e < 2 ^ 62 \<Longrightarrow>
    \<exists>xs k'. chunk t ds k s e = Some (xs, k') \<and>
      (\<forall>(lo, hi) \<in> set (pieces xs). lo \<le> hi \<and> (s < e \<longrightarrow> lo < hi)
          \<and> hi - lo \<le> AverageSize t + SizeVariation t)"
proof (induction "nat (e - s)" arbitrary: s e k rule: less_induct)
  case less
  let ?v = "SizeVariation t" and ?a = "AverageSize t"
  have guard: "i64 (i64 (e - s) - ?a) = e - s - ?a"
    using t less.prems by (simp add: slicer_documented_def i64_id)
  show ?case
  proof (cases "e - s - ?a \<le> ?v")
    case True
    with guard have "chunk t ds k s e = Some ([s, e], k)" by (simp add: chunk.simps)
    with True less.prems show ?thesis by auto
  next
    case False
    then have big: "?a + ?v < e - s" by simp
    from chunk_mid_documented [OF t less.prems(1,3) big] obtain mid k1
      where m: "chunk_mid t ds k s e = Some (mid, k1)" "s < mid" "mid < e" by blast
    from less.hyps [of mid s k1] m less.prems obtain left k2
      where l: "chunk t ds k1 s mid = Some (left, k2)"
        "\<forall>(lo, hi) \<in> set (pieces left). lo < hi \<and> hi - lo \<le> ?a + ?v" by fastforce
    from less.hyps [of e mid k2] m less.prems obtain right k3
      where r: "chunk t ds k2 mid e = Some (right, k3)"
        "\<forall>(lo, hi) \<in> set (pieces right). lo < hi \<and> hi - lo \<le> ?a + ?v" by fastforce
    from False guard m(1) l(1) r(1) have "chunk t ds k s e = Some (left @ right, k3)"
      by (subst chunk.simps) simp
    moreover have "pieces (left @ right) = pieces left @ pieces right"
      using chunk_tiles [OF l(1)] by (rule pieces_append)
    ultimately show ?thesis using l(2) r(2) by fastforce
  qed
qed

text \<open>With both sizes 0 (the zero value of the struct) no call on a non-empty range returns.\<close>

lemma chunk_zero_diverges:
  assumes t: "AverageSize t = 0" "SizeVariation t = 0"
    and b: "0 \<le> s" "s < e" "e < 2 ^ 62"
  shows "chunk t ds k s e = None"
proof -
  have "\<not> (0 \<le> s \<and> s < e \<and> e < 2 ^ 62)" if ret: "chunk t ds k s e = Some y" for y
  proof -
    have "AverageSize t = 0 \<and> SizeVariation t = 0 \<longrightarrow> \<not> (0 \<le> s \<and> s < e \<and> e < 2 ^ 62)"
    proof (rule chunk.raw_induct [where P = "\<lambda>t ds k s e r.
          AverageSize t = 0 \<and> SizeVariation t = 0 \<longrightarrow> \<not> (0 \<le> s \<and> s < e \<and> e < 2 ^ 62)", OF _ ret])
      fix f t ds k s e y
      assume IH: "\<And>t ds k s e y. f t ds k s e = Some y \<Longrightarrow>
          AverageSize t = 0 \<and> SizeVariation t = 0 \<longrightarrow> \<not> (0 \<le> s \<and> s < e \<and> e < 2 ^ 62)"
        and eq: "(if i64 (i64 (e - s) - AverageSize t) \<le> SizeVariation t then Some ([s, e], k)
          else Option.bind (chunk_mid t ds k s e) (\<lambda>(mid, k1).
               Option.bind (f t ds k1 s mid) (\<lambda>(left, k2).
               Option.bind (f t ds k2 mid e) (\<lambda>(right, k3).
               Some (left @ right, k3))))) = Some y"
      show "AverageSize t = 0 \<and> SizeVariation t = 0 \<longrightarrow> \<not> (0 \<le> s \<and> s < e \<and> e < 2 ^ 62)"
      proof (intro impI notI)
        assume z: "AverageSize t = 0 \<and> SizeVariation t = 0" and b: "0 \<le> s \<and> s < e \<and> e < 2 ^ 62"
        from b have h: "0 \<le> (e - s) div 2" "(e - s) div 2 < e - s" by linarith+
        have "i64 (e - s) = e - s" "i64 ((e - s) div 2) = (e - s) div 2"
            "i64 (s + (e - s) div 2) = s + (e - s) div 2"
          by - (rule i64_small; use b h in linarith)+
        with z b have "chunk_mid t ds k s e = Some (s + (e - s) div 2, k)"
          by (simp add: chunk_mid_def go_div_def)
        with eq z b obtain y' k1 where "f t ds k1 (s + (e - s) div 2) e = Some y'"
          by (auto simp: i64_id bind_eq_Some_conv split: if_splits)
        from IH [OF this] z b show False by auto
      qed
    qed
    with t show ?thesis by blast
  qed
  with b show ?thesis by (cases "chunk t ds k s e") auto
qed

end
