(* ===== verification/ResetPeer.thy ===== *)
theory ResetPeer
  imports Pipe
begin

text \<open>
  \<open>toxics/reset_peer.go\<close>: the first chunk (or the end of the input) starts a timeout,
  during which neither data nor an interrupt is taken; then the stub is closed. The chunk
  is dropped, so this toxic is a \<open>pipe\<close> but not a \<open>lossless_pipe\<close>.
\<close>

record ResetToxic =
  Timeout :: int

datatype reset_pc =
    RSelect
  | RSleep

fun reset_offer :: "ResetToxic \<Rightarrow> reset_pc \<Rightarrow> offer" where
  "reset_offer t RSelect = Select"
| "reset_offer t RSleep = Sleep (i64 (Timeout t * Millisecond))"

fun reset_Pipe :: "ResetToxic \<Rightarrow> reset_pc \<Rightarrow> environment \<Rightarrow> event \<Rightarrow> reset_pc run" where
  "reset_Pipe t RSelect v Interrupted = Returned"
| "reset_Pipe t RSelect v (Received c) = At RSleep"
| "reset_Pipe t RSelect v InputClosed = At RSleep"
| "reset_Pipe t RSleep v TimerFired = ClosedReturned"
| "reset_Pipe t p v e = At p"

fun reset_held :: "reset_pc \<Rightarrow> byte list" where
  "reset_held _ = []"

lemma reset_no_timeout [simp]: "reset_offer t p \<noteq> SendOr c d"
  by (cases p) auto

interpretation reset: pipe "reset_offer t" "reset_Pipe t" reset_held "\<lambda>_. True" for t
proof unfold_locales
  fix p e v
  show "accepts (reset_offer t p) e \<Longrightarrow>
      subseq (chunk_bytes (sends (reset_offer t p) e) @ run_held reset_held (reset_Pipe t p v e))
      (reset_held p @ absorbed e)"
    by (cases p; cases e) auto
next
  fix p v
  show "accepts (reset_offer t p) Interrupted \<Longrightarrow>
      reset_Pipe t p v Interrupted = Returned \<or> reset_Pipe t p v Interrupted = Panicked
      \<or> (\<exists>p'. reset_Pipe t p v Interrupted = At p' \<and> leaving (reset_offer t) (reset_Pipe t) p')"
    by (cases p) auto
next
  fix p c
  show "offered (reset_offer t p) = Some c \<Longrightarrow> \<exists>bs. reset_held p = Data c @ bs
      \<and> (\<forall>v. reset_Pipe t p v Sent = Panicked \<or> run_held reset_held (reset_Pipe t p v Sent) = bs)"
    by (cases p) auto
next
  fix p v c d
  show "reset_offer t p = SendOr c d \<Longrightarrow> reset_Pipe t p v WriteTimedOut = Returned"
    by (cases p) auto
qed simp_all

end
