(* ===== verification/Toxic.thy ===== *)
theory Toxic
  imports Direction Noop Latency Bandwidth Slicer ResetPeer "HOL-Library.AList"
begin

text \<open>
  \<open>toxics/toxic.go\<close>: the wrapper that names and places a toxic, the registry of toxic
  types, and the stub in which a toxic's goroutine runs, with the operations that start,
  interrupt and close it.
\<close>

subsection \<open>Toxics and their goroutines\<close>

datatype toxic =
    NoopToxic
  | LatencyT LatencyToxic
  | BandwidthT BandwidthToxic
  | SlicerT SlicerToxic
  | ResetT ResetToxic

text \<open>
  A running goroutine: the method \<open>Pipe\<close> that runs, its receiver, and its program point.
  The settings are those of the receiver when \<open>Pipe\<close> was started: the code reads them
  through a pointer, so an update already shows between the assignment and the restart
  that \<open>UpdateToxic\<close> makes right after it.
\<close>

datatype pipe_pc =
    NoopAt noop_pc
  | LatencyAt LatencyToxic latency_pc
  | BandwidthAt BandwidthToxic bandwidth_pc
  | SlicerAt SlicerToxic slicer_pc
  | ResetAt ResetToxic reset_pc

fun Pipe_start :: "toxic \<Rightarrow> pipe_pc" where
  "Pipe_start NoopToxic = NoopAt NSelect"
| "Pipe_start (LatencyT t) = LatencyAt t LSelect"
| "Pipe_start (BandwidthT t) = BandwidthAt t (BSelect 0)"
| "Pipe_start (SlicerT t) = SlicerAt t SSelect"
| "Pipe_start (ResetT t) = ResetAt t RSelect"

fun Pipe_offer :: "pipe_pc \<Rightarrow> offer" where
  "Pipe_offer (NoopAt p) = noop_offer p"
| "Pipe_offer (LatencyAt t p) = latency_offer p"
| "Pipe_offer (BandwidthAt t p) = bandwidth_offer p"
| "Pipe_offer (SlicerAt t p) = slicer_offer t p"
| "Pipe_offer (ResetAt t p) = reset_offer t p"

fun Pipe_step :: "pipe_pc \<Rightarrow> environment \<Rightarrow> event \<Rightarrow> pipe_pc run" where
  "Pipe_step (NoopAt p) v e = map_run NoopAt (noop_Pipe p v e)"
| "Pipe_step (LatencyAt t p) v e = map_run (LatencyAt t) (latency_Pipe t p v e)"
| "Pipe_step (BandwidthAt t p) v e = map_run (BandwidthAt t) (bandwidth_Pipe t p v e)"
| "Pipe_step (SlicerAt t p) v e = map_run (SlicerAt t) (slicer_Pipe t p v e)"
| "Pipe_step (ResetAt t p) v e = map_run (ResetAt t) (reset_Pipe t p v e)"

fun Pipe_held :: "pipe_pc \<Rightarrow> byte list" where
  "Pipe_held (NoopAt p) = noop_held p"
| "Pipe_held (LatencyAt t p) = latency_held p"
| "Pipe_held (BandwidthAt t p) = bandwidth_held p"
| "Pipe_held (SlicerAt t p) = slicer_held p"
| "Pipe_held (ResetAt t p) = reset_held p"

fun Pipe_good :: "pipe_pc \<Rightarrow> bool" where
  "Pipe_good (BandwidthAt t p) = bandwidth_good t p"
| "Pipe_good (SlicerAt t p) = slicer_good p"
| "Pipe_good _ = True"

text \<open>Only \<open>reset_peer\<close> drops data on purpose.\<close>

fun keeps_data :: "pipe_pc \<Rightarrow> bool" where
  "keeps_data (ResetAt t p) = False"
| "keeps_data _ = True"

lemma map_run_At [simp]: "map_run f r = At q \<longleftrightarrow> (\<exists>p. r = At p \<and> q = f p)"
  by (cases r) auto

lemma map_run_ends [simp]:
  "map_run f r = Returned \<longleftrightarrow> r = Returned"
  "map_run f r = ClosedReturned \<longleftrightarrow> r = ClosedReturned"
  "map_run f r = Panicked \<longleftrightarrow> r = Panicked"
  by (cases r; simp)+

lemma run_held_map_run:
  "(\<And>p. r = At p \<Longrightarrow> h (f p) = h' p) \<Longrightarrow> run_held h (map_run f r) = run_held h' r"
  by (cases r) auto

lemma run_held_Pipe [simp]:
  "run_held Pipe_held (map_run NoopAt r1) = run_held noop_held r1"
  "run_held Pipe_held (map_run (LatencyAt t1) r2) = run_held latency_held r2"
  "run_held Pipe_held (map_run (BandwidthAt t2) r3) = run_held bandwidth_held r3"
  "run_held Pipe_held (map_run (SlicerAt t3) r4) = run_held slicer_held r4"
  by (simp_all add: run_held_map_run)

lemma run_held_reset [simp]:
  "run_held Pipe_held (map_run (ResetAt t) r) = []" "run_held reset_held r = []"
  by (cases r; simp)+

lemma leaving_Pipe:
  "leaving noop_offer noop_Pipe p1 \<Longrightarrow> leaving Pipe_offer Pipe_step (NoopAt p1)"
  "leaving latency_offer (latency_Pipe t1) p2 \<Longrightarrow> leaving Pipe_offer Pipe_step (LatencyAt t1 p2)"
  "leaving bandwidth_offer (bandwidth_Pipe t2) p3 \<Longrightarrow> leaving Pipe_offer Pipe_step (BandwidthAt t2 p3)"
  "leaving (slicer_offer t3) (slicer_Pipe t3) p4 \<Longrightarrow> leaving Pipe_offer Pipe_step (SlicerAt t3 p4)"
  "leaving (reset_offer t4) (reset_Pipe t4) p5 \<Longrightarrow> leaving Pipe_offer Pipe_step (ResetAt t4 p5)"
  by (simp_all add: leaving_def)

lemma Pipe_good_step:
  "Pipe_good p \<Longrightarrow> accepts (Pipe_offer p) e \<Longrightarrow> Pipe_step p v e = At p' \<Longrightarrow> Pipe_good p'"
  by (cases p) (auto dest: bandwidth.good_step slicer.good_step)

lemma Pipe_keeps_step: "Pipe_step p v e = At p' \<Longrightarrow> keeps_data p' = keeps_data p"
  by (cases p) auto

interpretation stubbed: pipe Pipe_offer Pipe_step Pipe_held Pipe_good
proof unfold_locales
  fix p e v
  assume g: "Pipe_good p" and acc: "accepts (Pipe_offer p) e"
  then show "subseq (chunk_bytes (sends (Pipe_offer p) e) @ run_held Pipe_held (Pipe_step p v e))
      (Pipe_held p @ absorbed e)"
    using noop.thins latency.thins bandwidth.thins slicer.thins reset.thins
    by (cases p) simp_all
next
  fix p v
  assume g: "Pipe_good p" and acc: "accepts (Pipe_offer p) Interrupted"
  then show "Pipe_step p v Interrupted = Returned \<or> Pipe_step p v Interrupted = Panicked
      \<or> (\<exists>p'. Pipe_step p v Interrupted = At p' \<and> leaving Pipe_offer Pipe_step p')"
  proof (cases p)
    case (NoopAt q)
    with acc noop.interrupt_ends [of q v] show ?thesis by (auto intro: leaving_Pipe)
  next
    case (LatencyAt t q)
    with acc latency.interrupt_ends [of q t v] show ?thesis by (auto intro: leaving_Pipe)
  next
    case (BandwidthAt t q)
    with g acc bandwidth.interrupt_ends [of t q v] show ?thesis by (auto intro: leaving_Pipe)
  next
    case (SlicerAt t q)
    with g acc slicer.interrupt_ends [of q t v] show ?thesis by (auto intro: leaving_Pipe)
  next
    case (ResetAt t q)
    with acc reset.interrupt_ends [of t q v] show ?thesis by (auto intro: leaving_Pipe)
  qed
next
  fix p
  show "Pipe_good p \<Longrightarrow> Pipe_offer p = Select \<Longrightarrow> Pipe_held p = []"
    by (cases p) (simp_all add: noop.select_idle latency.select_idle bandwidth.select_idle
        slicer.select_idle)
next
  fix p c
  assume "Pipe_good p" and "offered (Pipe_offer p) = Some c"
  then show "\<exists>bs. Pipe_held p = Data c @ bs
      \<and> (\<forall>v. Pipe_step p v Sent = Panicked \<or> run_held Pipe_held (Pipe_step p v Sent) = bs)"
    using noop.send_prefix latency.send_prefix bandwidth.send_prefix slicer.send_prefix
      reset.send_prefix
    by (cases p) simp_all
next
  fix p v c d
  show "Pipe_good p \<Longrightarrow> Pipe_offer p = SendOr c d \<Longrightarrow> Pipe_step p v WriteTimedOut = Returned"
    by (cases p) (simp_all add: noop.timeout_ends latency.timeout_ends bandwidth.timeout_ends
        slicer.timeout_ends reset.timeout_ends)
qed (fact Pipe_good_step)

interpretation kept: lossless_pipe Pipe_offer Pipe_step Pipe_held "\<lambda>p. Pipe_good p \<and> keeps_data p"
proof unfold_locales
  fix p e v p'
  assume "Pipe_good p \<and> keeps_data p" "accepts (Pipe_offer p) e" "Pipe_step p v e = At p'"
  then show "Pipe_good p' \<and> keeps_data p'"
    using Pipe_good_step Pipe_keeps_step by blast
next
  fix p e v
  assume "Pipe_good p \<and> keeps_data p" "accepts (Pipe_offer p) e" "e \<noteq> WriteTimedOut"
    "Pipe_step p v e \<noteq> Panicked"
  then show "Pipe_held p @ absorbed e
      = chunk_bytes (sends (Pipe_offer p) e) @ run_held Pipe_held (Pipe_step p v e)"
    by (cases p) (simp_all add: noop.conserves latency.conserves bandwidth.conserves slicer.conserves)
qed (use stubbed.select_idle stubbed.thins stubbed.send_prefix stubbed.timeout_ends stubbed.interrupt_ends in blast)+

subsection \<open>Wrappers and the registry\<close>

text \<open>
  The toxicity is a \<open>float32\<close>, that is, a rational number.
\<close>

record ToxicWrapper =
  tw_Toxic :: toxic
  tw_Name :: string
  tw_Type :: string
  tw_Stream :: string
  tw_Toxicity :: rat
  tw_Direction :: direction
  tw_Index :: int
  tw_BufferSize :: nat

type_synonym registry = "(string \<times> toxic) list"

definition Register :: "string \<Rightarrow> toxic \<Rightarrow> registry \<Rightarrow> registry" where
  "Register typeName tox reg = AList.update typeName tox reg"

text \<open>The settings of a freshly allocated value of each type.\<close>

fun zero_of :: "toxic \<Rightarrow> toxic" where
  "zero_of NoopToxic = NoopToxic"
| "zero_of (LatencyT t) = LatencyT \<lparr>Latency = 0, Jitter = 0\<rparr>"
| "zero_of (BandwidthT t) = BandwidthT \<lparr>Rate = 0\<rparr>"
| "zero_of (SlicerT t) = SlicerT \<lparr>AverageSize = 0, SizeVariation = 0, SlicerDelay = 0\<rparr>"
| "zero_of (ResetT t) = ResetT \<lparr>Timeout = 0\<rparr>"

text \<open>The registry after the \<open>init\<close> functions of the five toxic files have run.\<close>

definition ToxicRegistry :: registry where
  "ToxicRegistry =
     Register ''slicer'' (SlicerT \<lparr>AverageSize = 0, SizeVariation = 0, SlicerDelay = 0\<rparr>)
     (Register ''reset_peer'' (ResetT \<lparr>Timeout = 0\<rparr>)
     (Register ''noop'' NoopToxic
     (Register ''latency'' (LatencyT \<lparr>Latency = 0, Jitter = 0\<rparr>)
     (Register ''bandwidth'' (BandwidthT \<lparr>Rate = 0\<rparr>) []))))"

text \<open>The type assertion to \<open>BufferedToxic\<close>, which only the latency toxic satisfies.\<close>

fun GetBufferSize :: "toxic \<Rightarrow> nat option" where
  "GetBufferSize (LatencyT t) = Some (latency_GetBufferSize t)"
| "GetBufferSize _ = None"

definition New :: "registry \<Rightarrow> ToxicWrapper \<Rightarrow> toxic option \<times> ToxicWrapper" where
  "New reg w = (case map_of reg (tw_Type w) of
       None \<Rightarrow> (None, w)
     | Some orig \<Rightarrow>
         (let tox = zero_of orig
          in (Some tox, w\<lparr>tw_Toxic := tox,
                tw_BufferSize := (case GetBufferSize tox of Some n \<Rightarrow> n | None \<Rightarrow> 0)\<rparr>)))"

definition Count :: "registry \<Rightarrow> nat" where
  "Count reg = length reg"

lemma map_of_Register: "map_of (Register n t reg) = (map_of reg)(n \<mapsto> t)"
  by (simp add: Register_def update_conv')

lemma New_registered: "fst (New (Register (tw_Type w) t reg) w) = Some (zero_of t)"
  by (simp add: New_def map_of_Register Let_def)

lemma New_unknown: "map_of reg (tw_Type w) = None \<Longrightarrow> New reg w = (None, w)"
  by (simp add: New_def)

lemma New_frame:
  "New reg w = (r, w') \<Longrightarrow>
     tw_Name w' = tw_Name w \<and> tw_Type w' = tw_Type w \<and> tw_Stream w' = tw_Stream w
     \<and> tw_Toxicity w' = tw_Toxicity w \<and> tw_Direction w' = tw_Direction w \<and> tw_Index w' = tw_Index w"
  by (auto simp: New_def Let_def split: option.splits)

lemma Count_registry:
  "distinct (map fst reg) \<Longrightarrow> Count reg = card (dom (map_of reg))"
  using distinct_card [of "map fst reg"] by (simp add: Count_def dom_map_of_conv_image_fst)

lemma distinct_Register: "distinct (map fst reg) \<Longrightarrow> distinct (map fst (Register n t reg))"
  by (simp add: Register_def distinct_update)

subsection \<open>Stubs\<close>

text \<open>
  Channels are shared between stubs, so they live in a store and a stub holds the
  identifiers of its \<open>Input\<close> and \<open>Output\<close>. The state of its goroutine stands for
  the channels \<open>Interrupt\<close> and \<open>running\<close>: an interrupt is taken exactly by a
  goroutine that offers it, and \<open>running\<close> is closed when there is no goroutine
  (\<open>Exited\<close>). A goroutine that is blocked in a send has its chunk in the queue of
  \<open>Output\<close> already.
\<close>

type_synonym store = "nat \<Rightarrow> chunk_channel"

datatype goroutine =
    Exited
  | Running pipe_pc
  | Sending pipe_pc
  | Writing pipe_pc

record ToxicStub =
  Input :: nat
  Output :: nat
  is_closed :: bool
  thread :: goroutine

definition NewToxicStub :: "nat \<Rightarrow> nat \<Rightarrow> ToxicStub" where
  "NewToxicStub inp out = \<lparr>Input = inp, Output = out, is_closed = False, thread = Exited\<rparr>"

text \<open>\<open>Run\<close>: the draw of \<open>rand.Float32\<close> decides whether the toxic is applied.\<close>

definition Run :: "rat \<Rightarrow> ToxicWrapper \<Rightarrow> ToxicStub \<Rightarrow> ToxicStub" where
  "Run draw w s =
     s\<lparr>thread := Running (if draw < tw_Toxicity w then Pipe_start (tw_Toxic w) else Pipe_start NoopToxic)\<rparr>"

datatype 'a outcome = Fine 'a | Crash

definition stub_Closed :: "ToxicStub \<Rightarrow> bool" where
  "stub_Closed s = is_closed s"

definition stub_Close :: "store \<Rightarrow> ToxicStub \<Rightarrow> (store \<times> ToxicStub) outcome" where
  "stub_Close \<sigma> s =
     (if stub_Closed s then Fine (\<sigma>, s)
      else (case chan_close (\<sigma> (Output s)) of
              None \<Rightarrow> Crash
            | Some c \<Rightarrow> Fine (\<sigma>(Output s := c), s\<lparr>is_closed := True\<rparr>)))"

text \<open>What happens when a step of the goroutine has come to its end.\<close>

definition resume :: "pipe_pc run \<Rightarrow> store \<Rightarrow> ToxicStub \<Rightarrow> (store \<times> ToxicStub) outcome" where
  "resume r \<sigma> s = (case r of
       At p \<Rightarrow> Fine (\<sigma>, s\<lparr>thread := Running p\<rparr>)
     | Returned \<Rightarrow> Fine (\<sigma>, s\<lparr>thread := Exited\<rparr>)
     | ClosedReturned \<Rightarrow>
         (case stub_Close \<sigma> s of Fine (\<sigma>', s') \<Rightarrow> Fine (\<sigma>', s'\<lparr>thread := Exited\<rparr>) | Crash \<Rightarrow> Crash)
     | Panicked \<Rightarrow> Crash)"

datatype stub_act = ARecv | APost | ASent | ATimeout | ATimer | AInterrupt

text \<open>
  The steps of a stub's goroutine against the store; \<open>None\<close> when the step is not
  possible now. \<open>APost\<close> enters a send (on a closed channel it panics), \<open>ASent\<close> leaves
  it once the chunk has been taken or buffered, \<open>ATimeout\<close> is the other branch of
  \<open>WriteOutput\<close>.
\<close>

fun stub_step :: "stub_act \<Rightarrow> environment \<Rightarrow> store \<Rightarrow> ToxicStub \<Rightarrow> (store \<times> ToxicStub) outcome option"
  where
  "stub_step ARecv v \<sigma> s = (case thread s of
       Running p \<Rightarrow>
         if Pipe_offer p = Select then
           (case chan_recv (\<sigma> (Input s)) of
              Value c ch \<Rightarrow> Some (resume (Pipe_step p v (Received c)) (\<sigma>(Input s := ch)) s)
            | Drained \<Rightarrow> Some (resume (Pipe_step p v InputClosed) \<sigma> s)
            | Empty \<Rightarrow> None)
         else None
     | _ \<Rightarrow> None)"
| "stub_step APost v \<sigma> s = (case thread s of
       Running p \<Rightarrow>
         (case offered (Pipe_offer p) of
            None \<Rightarrow> None
          | Some c \<Rightarrow>
              (case chan_send c (\<sigma> (Output s)) of
                 None \<Rightarrow> Some Crash
               | Some ch \<Rightarrow> Some (Fine (\<sigma>(Output s := ch),
                   s\<lparr>thread := (if Pipe_offer p = Send c then Sending p else Writing p)\<rparr>))))
     | _ \<Rightarrow> None)"
| "stub_step ASent v \<sigma> s =
     (if settled (\<sigma> (Output s)) then
        (case thread s of
           Sending p \<Rightarrow> Some (resume (Pipe_step p v Sent) \<sigma> s)
         | Writing p \<Rightarrow> Some (resume (Pipe_step p v Sent) \<sigma> s)
         | _ \<Rightarrow> None)
      else None)"
| "stub_step ATimeout v \<sigma> s = (case thread s of
       Writing p \<Rightarrow>
         if settled (\<sigma> (Output s)) then None
         else Some (resume (Pipe_step p v WriteTimedOut)
                (\<sigma>(Output s := chan_withdraw (\<sigma> (Output s)))) s)
     | _ \<Rightarrow> None)"
| "stub_step ATimer v \<sigma> s = (case thread s of
       Running p \<Rightarrow>
         if accepts (Pipe_offer p) TimerFired then Some (resume (Pipe_step p v TimerFired) \<sigma> s)
         else None
     | _ \<Rightarrow> None)"
| "stub_step AInterrupt v \<sigma> s = (case thread s of
       Running p \<Rightarrow>
         if accepts (Pipe_offer p) Interrupted then Some (resume (Pipe_step p v Interrupted) \<sigma> s)
         else None
     | _ \<Rightarrow> None)"

text \<open>The bytes a stub's goroutine holds and has not put into its output.\<close>

definition thread_held :: "goroutine \<Rightarrow> byte list" where
  "thread_held g = (case g of
       Exited \<Rightarrow> []
     | Running p \<Rightarrow> Pipe_held p
     | Sending p \<Rightarrow> (case offered (Pipe_offer p) of None \<Rightarrow> []
         | Some c \<Rightarrow> drop (length (Data c)) (Pipe_held p))
     | Writing p \<Rightarrow> (case offered (Pipe_offer p) of None \<Rightarrow> []
         | Some c \<Rightarrow> drop (length (Data c)) (Pipe_held p)))"

fun thread_good :: "goroutine \<Rightarrow> bool" where
  "thread_good Exited = True"
| "thread_good (Running p) = Pipe_good p"
| "thread_good (Sending p) = (Pipe_good p \<and> (\<exists>c. Pipe_offer p = Send c))"
| "thread_good (Writing p) = (Pipe_good p \<and> (\<exists>c d. Pipe_offer p = SendOr c d))"

fun thread_keeps :: "goroutine \<Rightarrow> bool" where
  "thread_keeps Exited = True"
| "thread_keeps (Running p) = keeps_data p"
| "thread_keeps (Sending p) = keeps_data p"
| "thread_keeps (Writing p) = keeps_data p"

lemma thread_held_simps [simp]:
  "thread_held Exited = []"
  "thread_held (Running p) = Pipe_held p"
  "Pipe_offer p = Send c \<Longrightarrow> thread_held (Sending p) = drop (length (Data c)) (Pipe_held p)"
  "Pipe_offer p = SendOr c d \<Longrightarrow> thread_held (Writing p) = drop (length (Data c)) (Pipe_held p)"
  by (simp_all add: thread_held_def)

text \<open>The bytes between the far end of a stub's output queue and the near end of its input.\<close>

definition stub_bytes :: "store \<Rightarrow> ToxicStub \<Rightarrow> byte list" where
  "stub_bytes \<sigma> s = chunk_bytes (queue (\<sigma> (Output s))) @ thread_held (thread s)
     @ chunk_bytes (queue (\<sigma> (Input s)))"

lemma Pipe_start_good [simp]:
  "Pipe_good (Pipe_start t)" "Pipe_held (Pipe_start t) = []" "Pipe_offer (Pipe_start t) = Select"
  by (cases t; simp)+

subsection \<open>Laws of the steps\<close>

lemma resume_laws:
  assumes "resume r \<sigma> s = Fine (\<sigma>', s')"
  shows "Input s' = Input s" "Output s' = Output s" "r \<noteq> Panicked"
    and "thread_held (thread s') = run_held Pipe_held r"
    and "\<And>i. queue (\<sigma>' i) = queue (\<sigma> i)" "\<And>i. capacity (\<sigma>' i) = capacity (\<sigma> i)"
    and "\<And>i. shut (\<sigma>' i) \<longleftrightarrow> shut (\<sigma> i) \<or> (i = Output s \<and> r = ClosedReturned \<and> \<not> is_closed s)"
    and "is_closed s' \<longleftrightarrow> is_closed s \<or> r = ClosedReturned"
    and "thread s' = (case r of At p \<Rightarrow> Running p | _ \<Rightarrow> Exited)"
  using assms
  by (auto simp: resume_def stub_Close_def stub_Closed_def chan_close_def
      split: run.splits outcome.splits if_splits)

lemma resume_Crash:
  "resume r \<sigma> s = Crash \<longleftrightarrow>
     r = Panicked \<or> (r = ClosedReturned \<and> \<not> is_closed s \<and> shut (\<sigma> (Output s)))"
  by (auto simp: resume_def stub_Close_def stub_Closed_def chan_close_def
      split: run.splits outcome.splits if_splits option.splits)

text \<open>The five ways in which a step of a stub can succeed, with the event it feeds to \<open>Pipe\<close>.\<close>

lemma stub_step_cases:
  assumes "stub_step a v \<sigma> s = Some (Fine (\<sigma>', s'))"
  obtains
    (recv) p c cs where "a = ARecv" "thread s = Running p" "Pipe_offer p = Select"
      "queue (\<sigma> (Input s)) = c # cs"
      "resume (Pipe_step p v (Received c)) (\<sigma>(Input s := (\<sigma> (Input s))\<lparr>queue := cs\<rparr>)) s = Fine (\<sigma>', s')"
  | (eof) p where "a = ARecv" "thread s = Running p" "Pipe_offer p = Select"
      "queue (\<sigma> (Input s)) = []" "shut (\<sigma> (Input s))"
      "resume (Pipe_step p v InputClosed) \<sigma> s = Fine (\<sigma>', s')"
  | (post) p c where "a = APost" "thread s = Running p" "offered (Pipe_offer p) = Some c"
      "\<not> shut (\<sigma> (Output s))"
      "\<sigma>' = \<sigma>(Output s := (\<sigma> (Output s))\<lparr>queue := queue (\<sigma> (Output s)) @ [c]\<rparr>)"
      "s' = s\<lparr>thread := (if Pipe_offer p = Send c then Sending p else Writing p)\<rparr>"
  | (sent) p where "a = ASent" "thread s = Sending p \<or> thread s = Writing p"
      "settled (\<sigma> (Output s))" "resume (Pipe_step p v Sent) \<sigma> s = Fine (\<sigma>', s')"
  | (timeout) p where "a = ATimeout" "thread s = Writing p" "\<not> settled (\<sigma> (Output s))"
      "resume (Pipe_step p v WriteTimedOut)
         (\<sigma>(Output s := chan_withdraw (\<sigma> (Output s)))) s = Fine (\<sigma>', s')"
  | (timer) p where "a = ATimer" "thread s = Running p" "accepts (Pipe_offer p) TimerFired"
      "resume (Pipe_step p v TimerFired) \<sigma> s = Fine (\<sigma>', s')"
  | (intr) p where "a = AInterrupt" "thread s = Running p" "accepts (Pipe_offer p) Interrupted"
      "resume (Pipe_step p v Interrupted) \<sigma> s = Fine (\<sigma>', s')"
proof (cases a)
  case ARecv
  with assms recv eof show thesis
    by (auto simp: chan_recv_Value split: goroutine.splits if_splits received.splits)
next
  case APost
  with assms post show thesis
    by (auto simp: chan_send_def split: goroutine.splits option.splits if_splits)
next
  case ASent
  with assms sent show thesis by (auto split: goroutine.splits if_splits)
next
  case ATimeout
  with assms timeout show thesis by (auto split: goroutine.splits if_splits)
next
  case ATimer
  with assms timer show thesis by (auto split: goroutine.splits if_splits)
next
  case AInterrupt
  with assms intr show thesis by (auto split: goroutine.splits if_splits)
qed

lemma resume_frame: "resume r \<sigma> s = Fine (\<sigma>', s') \<Longrightarrow> j \<noteq> Output s \<Longrightarrow> \<sigma>' j = \<sigma> j"
  by (auto simp: resume_def stub_Close_def split: run.splits outcome.splits if_splits option.splits)

lemma stub_step_frame:
  assumes "stub_step a v \<sigma> s = Some (Fine (\<sigma>', s'))"
  shows "Input s' = Input s" "Output s' = Output s"
    and "i \<noteq> Input s \<Longrightarrow> i \<noteq> Output s \<Longrightarrow> \<sigma>' i = \<sigma> i"
    and "capacity (\<sigma>' i) = capacity (\<sigma> i)"
proof -
  from assms show "Input s' = Input s" "Output s' = Output s"
    by (cases rule: stub_step_cases; auto dest: resume_laws(1,2))+
  from assms show "capacity (\<sigma>' i) = capacity (\<sigma> i)"
    by (cases rule: stub_step_cases)
      (auto dest!: resume_laws(6) [where i = i] simp: chan_withdraw_def)
  assume i: "i \<noteq> Input s" "i \<noteq> Output s"
  from assms show "\<sigma>' i = \<sigma> i"
    by (cases rule: stub_step_cases) (use i in \<open>auto dest!: resume_frame [where j = i]\<close>)
qed

text \<open>
  The law the links rest on. A step never reorders or repeats bytes; and it loses none,
  unless it is a timeout of \<open>WriteOutput\<close> or a step of a toxic that drops data.
\<close>

lemma chunk_bytes_butlast: "subseq (chunk_bytes (butlast q)) (chunk_bytes q)"
proof (cases q rule: rev_cases)
  case (snoc q' x)
  then show ?thesis by (simp add: prefix_imp_subseq)
qed simp

lemma stub_step_good:
  assumes g: "thread_good (thread s)" and st: "stub_step a v \<sigma> s = Some (Fine (\<sigma>', s'))"
  shows "thread_good (thread s')" and "thread_keeps (thread s) \<Longrightarrow> thread_keeps (thread s')"
proof -
  have n: "thread_good (case r of At q \<Rightarrow> Running q | _ \<Rightarrow> Exited)
      \<and> (keeps_data p \<longrightarrow> thread_keeps (case r of At q \<Rightarrow> Running q | _ \<Rightarrow> Exited))"
    if "Pipe_good p" "accepts (Pipe_offer p) e" "r = Pipe_step p v e" for p e r
    using that Pipe_good_step [of p e v] Pipe_keeps_step [of p v e] by (auto split: run.splits)
  have "thread_good (thread s') \<and> (thread_keeps (thread s) \<longrightarrow> thread_keeps (thread s'))"
    using st
  proof (cases rule: stub_step_cases)
    case (recv p c cs)
    with g n [of p "Received c"] resume_laws(9) [OF recv(5)] show ?thesis by simp
  next
    case (eof p)
    with g n [of p InputClosed] resume_laws(9) [OF eof(6)] show ?thesis by simp
  next
    case (post p c)
    with g show ?thesis by (auto simp: offered_Some)
  next
    case (sent p)
    with g n [of p Sent] resume_laws(9) [OF sent(4)] show ?thesis by auto
  next
    case (timeout p)
    with g n [of p WriteTimedOut] resume_laws(9) [OF timeout(4)] show ?thesis by auto
  next
    case (timer p)
    with g n [of p TimerFired] resume_laws(9) [OF timer(4)] show ?thesis by simp
  next
    case (intr p)
    with g n [of p Interrupted] resume_laws(9) [OF intr(4)] show ?thesis by simp
  qed
  then show "thread_good (thread s')" "thread_keeps (thread s) \<Longrightarrow> thread_keeps (thread s')"
    by simp_all
qed

definition drops_data :: "stub_act \<Rightarrow> ToxicStub \<Rightarrow> bool" where
  "drops_data a s \<longleftrightarrow> a = ATimeout \<or> \<not> thread_keeps (thread s)"

lemma quiet_step:
  assumes "Pipe_good p" and "accepts (Pipe_offer p) e" and "absorbed e = []"
    and "sends (Pipe_offer p) e = []"
  shows "subseq (run_held Pipe_held (Pipe_step p v e)) (Pipe_held p)"
    and "keeps_data p \<Longrightarrow> e \<noteq> WriteTimedOut \<Longrightarrow> Pipe_step p v e \<noteq> Panicked \<Longrightarrow>
      run_held Pipe_held (Pipe_step p v e) = Pipe_held p"
  using stubbed.thins [OF assms(1,2), of v] kept.conserves [of p e v] assms by simp_all

lemma stub_bytes_same:
  assumes "queue (\<sigma>' (Output s)) = queue (\<sigma> (Output s))" and "queue (\<sigma>' (Input s)) = queue (\<sigma> (Input s))"
    and "Input s' = Input s" "Output s' = Output s"
  shows "subseq (thread_held (thread s')) (thread_held (thread s)) \<Longrightarrow>
      subseq (stub_bytes \<sigma>' s') (stub_bytes \<sigma> s)"
    and "thread_held (thread s') = thread_held (thread s) \<Longrightarrow> stub_bytes \<sigma>' s' = stub_bytes \<sigma> s"
  using assms by (auto simp: stub_bytes_def intro: list_emb_append_mono)

lemma stub_flow:
  assumes g: "thread_good (thread s)" and io: "Input s \<noteq> Output s"
    and st: "stub_step a v \<sigma> s = Some (Fine (\<sigma>', s'))"
  shows "subseq (stub_bytes \<sigma>' s') (stub_bytes \<sigma> s)"
    and "\<not> drops_data a s \<Longrightarrow> stub_bytes \<sigma>' s' = stub_bytes \<sigma> s"
proof -
  have "subseq (stub_bytes \<sigma>' s') (stub_bytes \<sigma> s)
      \<and> (\<not> drops_data a s \<longrightarrow> stub_bytes \<sigma>' s' = stub_bytes \<sigma> s)"
    using st
  proof (cases rule: stub_step_cases)
    case (recv p c cs)
    note r = resume_laws [OF recv(5)]
    from g recv have p: "Pipe_good p" "Pipe_held p = []" by (auto intro: stubbed.select_idle)
    let ?h = "run_held Pipe_held (Pipe_step p v (Received c))"
    have thin: "subseq ?h (Data c)" using stubbed.thins [of p "Received c" v] p recv by simp
    have keep: "?h = Data c" if "keeps_data p"
      using kept.conserves [of p "Received c" v] p recv that r(3) by simp
    have b: "stub_bytes \<sigma> s = chunk_bytes (queue (\<sigma> (Output s))) @ Data c @ chunk_bytes cs"
      using recv p by (simp add: stub_bytes_def)
    have a: "stub_bytes \<sigma>' s' = chunk_bytes (queue (\<sigma> (Output s))) @ ?h @ chunk_bytes cs"
      using r io by (simp add: stub_bytes_def)
    show ?thesis unfolding a b
      using thin keep recv by (auto simp: drops_data_def intro: list_emb_append_mono)
  next
    case (eof p)
    note r = resume_laws [OF eof(6)]
    from g eof have p: "Pipe_good p" "Pipe_held p = []" by (auto intro: stubbed.select_idle)
    have "run_held Pipe_held (Pipe_step p v InputClosed) = []"
      using quiet_step(1) [of p InputClosed v] p eof by simp
    with r p eof show ?thesis
      using stub_bytes_same [of \<sigma>' s \<sigma> s'] by simp
  next
    case (post p c)
    from g post obtain bs where h: "Pipe_held p = Data c @ bs"
      using stubbed.send_prefix by fastforce
    have "stub_bytes \<sigma>' s' = stub_bytes \<sigma> s"
      using post h io by (auto simp: stub_bytes_def offered_Some)
    then show ?thesis by simp
  next
    case (sent p)
    note r = resume_laws [OF sent(4)]
    from g sent(2) obtain c where c: "offered (Pipe_offer p) = Some c" "Pipe_good p" by auto
    then obtain bs where h: "Pipe_held p = Data c @ bs"
      "Pipe_step p v Sent = Panicked \<or> run_held Pipe_held (Pipe_step p v Sent) = bs"
      using stubbed.send_prefix by blast
    with r sent(2) c have "thread_held (thread s') = thread_held (thread s)"
      by (auto simp: thread_held_def)
    with r show ?thesis using stub_bytes_same [of \<sigma>' s \<sigma> s'] by simp
  next
    case (timeout p)
    note r = resume_laws [OF timeout(4)]
    from g timeout have "Pipe_step p v WriteTimedOut = Returned"
      using stubbed.timeout_ends by fastforce
    with r have "thread_held (thread s') = []" by simp
    with r io have "stub_bytes \<sigma>' s' = chunk_bytes (butlast (queue (\<sigma> (Output s))))
        @ [] @ chunk_bytes (queue (\<sigma> (Input s)))"
      by (simp add: stub_bytes_def chan_withdraw_def)
    moreover have "subseq \<dots> (stub_bytes \<sigma> s)"
      unfolding stub_bytes_def by (intro list_emb_append_mono chunk_bytes_butlast) simp_all
    ultimately show ?thesis using timeout(1) by (simp add: drops_data_def)
  next
    case (timer p)
    note r = resume_laws [OF timer(4)]
    have q: "sends (Pipe_offer p) TimerFired = []" by (cases "Pipe_offer p") auto
    from g timer q quiet_step [of p TimerFired v] r show ?thesis
      using stub_bytes_same [of \<sigma>' s \<sigma> s'] by (auto simp: drops_data_def)
  next
    case (intr p)
    note r = resume_laws [OF intr(4)]
    have q: "sends (Pipe_offer p) Interrupted = []" by (cases "Pipe_offer p") auto
    from g intr q quiet_step [of p Interrupted v] r show ?thesis
      using stub_bytes_same [of \<sigma>' s \<sigma> s'] by (auto simp: drops_data_def)
  qed
  then show "subseq (stub_bytes \<sigma>' s') (stub_bytes \<sigma> s)"
    and "\<not> drops_data a s \<Longrightarrow> stub_bytes \<sigma>' s' = stub_bytes \<sigma> s"
    by simp_all
qed

end
