(* ===== verification/Link.thy ===== *)
theory Link
  imports Toxic
begin

text \<open>
  \<open>link.go\<close>: a link carries the data of one direction of one client through a chain of
  stubs. The state holds the stubs, the channels that connect them, the two copying
  goroutines at its ends (\<open>link.read\<close> and \<open>link.write\<close>) and the operation in progress:
  \<open>AddToxic\<close>, \<open>UpdateToxic\<close> and \<open>RemoveToxic\<close> run while the goroutines of the link
  keep moving data, and they are called under the lock of the collection, so at most one
  of them is in progress on a link. Every point at which one of these operations waits
  is a constructor of \<open>control\<close>, and \<open>link_step\<close> is one step of any goroutine.
\<close>

datatype phase = Asking | Waiting

text \<open>
  The helper goroutine of \<open>RemoveToxic\<close>, which interrupts the previous stub and sends the
  outcome on the channel \<open>stop\<close>: before and after its interrupt was taken, blocked in the
  send, and after the send.
\<close>

datatype helper = HAsking | HWaiting | HResult bool | HTaken

text \<open>
  Where an operation stands. \<open>Adding\<close>, \<open>Updating\<close> and \<open>Removing\<close>: in \<open>InterruptToxic\<close>
  of the stub concerned. \<open>Stopping\<close>: the loop that passes on what the previous stub is
  still trying to flush; \<open>Collecting\<close>: waiting for the helper after the end of the stream;
  \<open>Flushing\<close>: the loop that empties the buffer. The flag says that the loop is blocked in
  \<open>WriteOutput\<close>.
\<close>

datatype control =
    NoOp
  | Adding ToxicWrapper phase
  | Updating ToxicWrapper phase
  | Removing ToxicWrapper phase
  | Stopping ToxicWrapper helper bool
  | Collecting ToxicWrapper helper
  | Flushing ToxicWrapper bool

datatype read_end = RReady | RBlocked | RDone

datatype write_end = WCopying | WDone

record ToxicLink =
  stubs :: "ToxicStub list"
  chans :: store
  next_chan :: nat
  link_input :: nat
  link_output :: nat
  link_direction :: direction
  read_state :: read_end
  write_state :: write_end
  taken :: "byte list"
  delivered :: "byte list"
  ctl :: control

text \<open>
  The fields \<open>taken\<close> and \<open>delivered\<close> are the bytes that \<open>link.read\<close> has copied from its
  source and \<open>link.write\<close> to its destination.
\<close>

subsection \<open>Creation\<close>

text \<open>
  The loop of \<open>NewToxicLink\<close>: channel identifiers are handed out in order, and the
  channel in front of a stub has the buffer size of its toxic.
\<close>

fun make_stubs :: "ToxicWrapper list \<Rightarrow> store \<Rightarrow> nat \<Rightarrow> ToxicStub list \<times> store \<times> nat" where
  "make_stubs [] \<sigma> last' = ([], \<sigma>, last')"
| "make_stubs (w # ws) \<sigma> last' =
     (let nxt = Suc last';
          size' = (case ws of [] \<Rightarrow> 0 | w' # _ \<Rightarrow> tw_BufferSize w');
          (ss, \<sigma>', out) = make_stubs ws (\<sigma>(nxt := make_chan size')) nxt
      in (NewToxicStub last' nxt # ss, \<sigma>', out))"

definition NewToxicLink :: "ToxicWrapper list \<Rightarrow> direction \<Rightarrow> ToxicLink" where
  "NewToxicLink chain dir =
     (let (ss, \<sigma>, out) = make_stubs chain (\<lambda>_. make_chan 0) 0
      in \<lparr>stubs = ss, chans = \<sigma>, next_chan = Suc out, link_input = 0, link_output = out,
          link_direction = dir, read_state = RReady, write_state = WCopying,
          taken = [], delivered = [], ctl = NoOp\<rparr>)"

text \<open>
  \<open>Start\<close> runs every stub with the toxic at its position. None of the toxics of the
  repository implements \<open>StatefulToxic\<close>, so \<open>State\<close> is never set.
\<close>

definition link_Start :: "(nat \<Rightarrow> rat) \<Rightarrow> ToxicWrapper list \<Rightarrow> ToxicLink \<Rightarrow> ToxicLink" where
  "link_Start ds chain l =
     l\<lparr>stubs := map (\<lambda>i. Run (ds i) (chain ! i) (stubs l ! i)) [0..<length (stubs l)]\<rparr>"

definition link_Direction :: "ToxicLink \<Rightarrow> string" where
  "link_Direction l = direction_String (link_direction l)"

subsection \<open>The operations up to their first wait\<close>

text \<open>Go's index expressions panic out of range (\<open>Crash\<close>).\<close>

definition link_AddToxic :: "ToxicWrapper \<Rightarrow> ToxicLink \<Rightarrow> ToxicLink outcome" where
  "link_AddToxic w l =
     (let i = length (stubs l); newin = next_chan l
      in if i = 0 then Crash
         else Fine (l\<lparr>chans := (chans l)(newin := make_chan (tw_BufferSize w)),
                      next_chan := Suc newin,
                      stubs := stubs l @ [NewToxicStub newin (Output (stubs l ! (i - 1)))],
                      ctl := Adding w Asking\<rparr>))"

definition link_UpdateToxic :: "ToxicWrapper \<Rightarrow> ToxicLink \<Rightarrow> ToxicLink outcome" where
  "link_UpdateToxic w l =
     (if 0 \<le> tw_Index w \<and> nat (tw_Index w) < length (stubs l)
      then Fine (l\<lparr>ctl := Updating w Asking\<rparr>) else Crash)"

definition link_RemoveToxic :: "ToxicWrapper \<Rightarrow> ToxicLink \<Rightarrow> ToxicLink outcome" where
  "link_RemoveToxic w l =
     (if 1 \<le> tw_Index w \<and> nat (tw_Index w) < length (stubs l)
      then Fine (l\<lparr>ctl := Removing w Asking\<rparr>) else Crash)"

subsection \<open>Steps\<close>

text \<open>The stub whose interruption the operation itself waits for, and the helper's.\<close>

definition ctl_target :: "ToxicLink \<Rightarrow> (nat \<times> phase) option" where
  "ctl_target l = (case ctl l of
       Adding w ph \<Rightarrow> Some (length (stubs l) - 2, ph)
     | Updating w ph \<Rightarrow> Some (nat (tw_Index w), ph)
     | Removing w ph \<Rightarrow> Some (nat (tw_Index w), ph)
     | _ \<Rightarrow> None)"

definition helper_of :: "ToxicLink \<Rightarrow> (nat \<times> helper) option" where
  "helper_of l = (case ctl l of
       Stopping w h b \<Rightarrow> Some (nat (tw_Index w) - 1, h)
     | Collecting w h \<Rightarrow> Some (nat (tw_Index w) - 1, h)
     | _ \<Rightarrow> None)"

fun set_phase :: "phase \<Rightarrow> control \<Rightarrow> control" where
  "set_phase ph (Adding w _) = Adding w ph"
| "set_phase ph (Updating w _) = Updating w ph"
| "set_phase ph (Removing w _) = Removing w ph"
| "set_phase ph c = c"

fun set_helper :: "helper \<Rightarrow> control \<Rightarrow> control" where
  "set_helper h (Stopping w _ b) = Stopping w h b"
| "set_helper h (Collecting w _) = Collecting w h"
| "set_helper h c = c"

text \<open>A step of stub \<open>k\<close>, put back into the link.\<close>

definition on_stub :: "nat \<Rightarrow> stub_act \<Rightarrow> environment \<Rightarrow> ToxicLink \<Rightarrow> ToxicLink outcome option" where
  "on_stub k a v l =
     (if k < length (stubs l)
      then (case stub_step a v (chans l) (stubs l ! k) of
              None \<Rightarrow> None
            | Some Crash \<Rightarrow> Some Crash
            | Some (Fine (\<sigma>, s)) \<Rightarrow> Some (Fine (l\<lparr>chans := \<sigma>, stubs := (stubs l)[k := s]\<rparr>)))
      else None)"

text \<open>\<open>InterruptToxic\<close> returned false: the stub was closed.\<close>

definition after_closed :: "ToxicLink \<Rightarrow> ToxicLink outcome" where
  "after_closed l = (case ctl l of
       Adding w ph \<Rightarrow>
         (let i = length (stubs l) - 1; s = stubs l ! i
          in case stub_Close (chans l) (s\<lparr>Output := Input s\<rparr>) of
               Crash \<Rightarrow> Crash
             | Fine (\<sigma>, s') \<Rightarrow> Fine (l\<lparr>chans := \<sigma>, stubs := (stubs l)[i := s'], ctl := NoOp\<rparr>))
     | _ \<Rightarrow> Fine (l\<lparr>ctl := NoOp\<rparr>))"

text \<open>
  \<open>InterruptToxic\<close> returned true: the goroutine of the stub has exited. The chain is
  that of the collection at this moment. No toxic of the repository implements
  \<open>CleanupToxic\<close>, so \<open>RemoveToxic\<close> goes straight to the helper.
\<close>

definition after_exited :: "ToxicWrapper list \<Rightarrow> (nat \<Rightarrow> rat) \<Rightarrow> ToxicLink \<Rightarrow> ToxicLink outcome" where
  "after_exited chain ds l = (case ctl l of
       Adding w ph \<Rightarrow>
         (let i = length (stubs l) - 1; s = stubs l ! i; p = stubs l ! (i - 1)
          in if i - 1 < length chain
             then Fine (l\<lparr>stubs := (stubs l)[i := Run (ds 0) w s,
                                 i - 1 := Run (ds 1) (chain ! (i - 1)) (p\<lparr>Output := Input s\<rparr>)],
                          ctl := NoOp\<rparr>)
             else Crash)
     | Updating w ph \<Rightarrow>
         (let i = nat (tw_Index w)
          in Fine (l\<lparr>stubs := (stubs l)[i := Run (ds 0) w (stubs l ! i)], ctl := NoOp\<rparr>))
     | Removing w ph \<Rightarrow> Fine (l\<lparr>ctl := Stopping w HAsking False\<rparr>)
     | _ \<Rightarrow> Fine l)"

text \<open>\<open>WriteOutput\<close> of the operation on stub \<open>i\<close>: the chunk enters the output.\<close>

definition post_on :: "nat \<Rightarrow> StreamChunk \<Rightarrow> ToxicLink \<Rightarrow> ToxicLink outcome" where
  "post_on i c l =
     (let out = Output (stubs l ! i)
      in case chan_send c (chans l out) of
           None \<Rightarrow> Crash
         | Some ch \<Rightarrow> Fine (l\<lparr>chans := (chans l)(out := ch)\<rparr>))"

definition set_ctl :: "control \<Rightarrow> ToxicLink outcome \<Rightarrow> ToxicLink outcome" where
  "set_ctl c r = (case r of Fine l \<Rightarrow> Fine (l\<lparr>ctl := c\<rparr>) | Crash \<Rightarrow> Crash)"

text \<open>One round of the loop that runs until the previous stub has stopped.\<close>

definition stop_round :: "ToxicWrapper \<Rightarrow> helper \<Rightarrow> ToxicLink \<Rightarrow> ToxicLink outcome option" where
  "stop_round w h l =
     (let i = nat (tw_Index w); inp = Input (stubs l ! i)
      in case chan_recv (chans l inp) of
           Value c ch \<Rightarrow>
             Some (set_ctl (Stopping w h True) (post_on i c (l\<lparr>chans := (chans l)(inp := ch)\<rparr>)))
         | Drained \<Rightarrow>
             Some (case stub_Close (chans l) (stubs l ! i) of
                     Crash \<Rightarrow> Crash
                   | Fine (\<sigma>, s) \<Rightarrow> Fine (l\<lparr>chans := \<sigma>, stubs := (stubs l)[i := s],
                       ctl := (if h = HTaken then NoOp else Collecting w h)\<rparr>))
         | Empty \<Rightarrow> None)"

text \<open>One round of the loop that empties the buffer (\<open>len(Input) > 0\<close>).\<close>

definition flush_round :: "ToxicWrapper \<Rightarrow> ToxicLink \<Rightarrow> ToxicLink outcome option" where
  "flush_round w l =
     (let i = nat (tw_Index w); inp = Input (stubs l ! i)
      in if chan_len (chans l inp) = 0 then None
         else (case chan_recv (chans l inp) of
             Value c ch \<Rightarrow>
               Some (set_ctl (Flushing w True) (post_on i c (l\<lparr>chans := (chans l)(inp := ch)\<rparr>)))
           | _ \<Rightarrow> None))"

text \<open>The end of \<open>RemoveToxic\<close>: rewire, drop the stub, restart the previous one.\<close>

definition finish_remove :: "ToxicWrapper list \<Rightarrow> (nat \<Rightarrow> rat) \<Rightarrow> ToxicWrapper \<Rightarrow> ToxicLink \<Rightarrow> ToxicLink outcome option" where
  "finish_remove chain ds w l =
     (let i = nat (tw_Index w); s = stubs l ! i; p = stubs l ! (i - 1)
      in if chan_len (chans l (Input s)) \<noteq> 0 then None
         else if i - 1 < length chain
         then Some (Fine (l\<lparr>stubs := take (i - 1) (stubs l)
                         @ [Run (ds 0) (chain ! (i - 1)) (p\<lparr>Output := Output s\<rparr>)]
                         @ drop (Suc i) (stubs l), ctl := NoOp\<rparr>))
         else Some Crash)"

datatype link_act =
    ReadChunk "byte list" int
  | ReadSent
  | ReadEnd
  | StubAct nat stub_act environment
  | WriteChunk
  | WriteEnd
  | OpClosed
  | OpInterrupt environment
  | OpExited "nat \<Rightarrow> rat"
  | HelpClosed
  | HelpInterrupt environment
  | HelpExited
  | OpResult
  | OpRound
  | OpSent
  | OpTimeout
  | OpCollect
  | OpFinish "nat \<Rightarrow> rat"

text \<open>
  One step of one goroutine. \<open>ReadChunk\<close>: \<open>io.Copy\<close> in \<open>link.read\<close> hands a non-empty read
  to \<open>link.input\<close>; \<open>ReadSent\<close>: that write has returned; \<open>ReadEnd\<close>: the source has
  ended or failed and \<open>link.input\<close> is closed. \<open>WriteChunk\<close>: \<open>link.write\<close> has copied one chunk
  to the destination; \<open>WriteEnd\<close>: it has seen the end of the stream, or the destination failed.
  The other actions are those of the stubs, of the operation in progress and of its helper.
\<close>

fun link_step :: "ToxicWrapper list \<Rightarrow> link_act \<Rightarrow> ToxicLink \<Rightarrow> ToxicLink outcome option" where
  "link_step chain (ReadChunk bs tm) l =
     (if read_state l = RReady \<and> bs \<noteq> [] then
        (case ChanWriter_Write tm bs (chans l (link_input l)) of
           None \<Rightarrow> Some Crash
         | Some (ch, n, e) \<Rightarrow>
             Some (Fine (l\<lparr>chans := (chans l)(link_input l := ch),
                           read_state := RBlocked, taken := taken l @ bs\<rparr>)))
      else None)"
| "link_step chain ReadSent l =
     (if read_state l = RBlocked \<and> settled (chans l (link_input l))
      then Some (Fine (l\<lparr>read_state := RReady\<rparr>)) else None)"
| "link_step chain ReadEnd l =
     (if read_state l = RReady then
        (case ChanWriter_Close (chans l (link_input l)) of
           None \<Rightarrow> Some Crash
         | Some ch \<Rightarrow> Some (Fine (l\<lparr>chans := (chans l)(link_input l := ch), read_state := RDone\<rparr>)))
      else None)"
| "link_step chain (StubAct k a v) l = (if a = AInterrupt then None else on_stub k a v l)"
| "link_step chain WriteChunk l =
     (if write_state l = WCopying then
        (case chan_recv (chans l (link_output l)) of
           Value c ch \<Rightarrow> Some (Fine (l\<lparr>chans := (chans l)(link_output l := ch),
                                    delivered := delivered l @ Data c\<rparr>))
         | _ \<Rightarrow> None)
      else None)"
| "link_step chain WriteEnd l =
     (if write_state l = WCopying then Some (Fine (l\<lparr>write_state := WDone\<rparr>)) else None)"
| "link_step chain OpClosed l = (case ctl_target l of
       Some (k, Asking) \<Rightarrow> if is_closed (stubs l ! k) then Some (after_closed l) else None
     | _ \<Rightarrow> None)"
| "link_step chain (OpInterrupt v) l = (case ctl_target l of
       Some (k, Asking) \<Rightarrow> map_option (\<lambda>r. case r of Crash \<Rightarrow> Crash
             | Fine l' \<Rightarrow> Fine (l'\<lparr>ctl := set_phase Waiting (ctl l')\<rparr>)) (on_stub k AInterrupt v l)
     | _ \<Rightarrow> None)"
| "link_step chain (OpExited ds) l = (case ctl_target l of
       Some (k, Waiting) \<Rightarrow>
         if thread (stubs l ! k) = Exited then Some (after_exited chain ds l) else None
     | _ \<Rightarrow> None)"
| "link_step chain HelpClosed l = (case helper_of l of
       Some (k, HAsking) \<Rightarrow>
         if is_closed (stubs l ! k) then Some (Fine (l\<lparr>ctl := set_helper (HResult False) (ctl l)\<rparr>))
         else None
     | _ \<Rightarrow> None)"
| "link_step chain (HelpInterrupt v) l = (case helper_of l of
       Some (k, HAsking) \<Rightarrow> map_option (\<lambda>r. case r of Crash \<Rightarrow> Crash
             | Fine l' \<Rightarrow> Fine (l'\<lparr>ctl := set_helper HWaiting (ctl l')\<rparr>)) (on_stub k AInterrupt v l)
     | _ \<Rightarrow> None)"
| "link_step chain HelpExited l = (case helper_of l of
       Some (k, HWaiting) \<Rightarrow>
         if thread (stubs l ! k) = Exited
         then Some (Fine (l\<lparr>ctl := set_helper (HResult True) (ctl l)\<rparr>)) else None
     | _ \<Rightarrow> None)"
| "link_step chain OpResult l = (case ctl l of
       Stopping w (HResult b) False \<Rightarrow>
         Some (Fine (l\<lparr>ctl := (if b then Flushing w False else Stopping w HTaken False)\<rparr>))
     | _ \<Rightarrow> None)"
| "link_step chain OpRound l = (case ctl l of
       Stopping w h False \<Rightarrow> stop_round w h l
     | Flushing w False \<Rightarrow> flush_round w l
     | _ \<Rightarrow> None)"
| "link_step chain OpSent l = (case ctl l of
       Stopping w h True \<Rightarrow>
         if settled (chans l (Output (stubs l ! nat (tw_Index w))))
         then Some (Fine (l\<lparr>ctl := Stopping w h False\<rparr>)) else None
     | Flushing w True \<Rightarrow>
         if settled (chans l (Output (stubs l ! nat (tw_Index w))))
         then Some (Fine (l\<lparr>ctl := Flushing w False\<rparr>)) else None
     | _ \<Rightarrow> None)"
| "link_step chain OpTimeout l =
     (let drop_last = (\<lambda>w. let out = Output (stubs l ! nat (tw_Index w))
          in if settled (chans l out) then None
             else Some (l\<lparr>chans := (chans l)(out := chan_withdraw (chans l out))\<rparr>))
      in case ctl l of
           Stopping w h True \<Rightarrow> map_option (\<lambda>l'. Fine (l'\<lparr>ctl := Stopping w h False\<rparr>)) (drop_last w)
         | Flushing w True \<Rightarrow> map_option (\<lambda>l'. Fine (l'\<lparr>ctl := Flushing w False\<rparr>)) (drop_last w)
         | _ \<Rightarrow> None)"
| "link_step chain OpCollect l = (case ctl l of
       Collecting w (HResult b) \<Rightarrow> Some (Fine (l\<lparr>ctl := NoOp\<rparr>))
     | _ \<Rightarrow> None)"
| "link_step chain (OpFinish ds) l = (case ctl l of
       Flushing w False \<Rightarrow> finish_remove chain ds w l
     | _ \<Rightarrow> None)"

text \<open>
  A run: the steps taken, with the operations the collection starts in between. The chain
  changes with the operations, so each step comes with the chain it is taken under.
\<close>

datatype link_event =
    Step link_act
  | BeginAdd ToxicWrapper
  | BeginUpdate ToxicWrapper
  | BeginRemove ToxicWrapper

definition link_event_step :: "ToxicWrapper list \<Rightarrow> link_event \<Rightarrow> ToxicLink \<Rightarrow> ToxicLink outcome option" where
  "link_event_step chain e l = (case e of
       Step a \<Rightarrow> link_step chain a l
     | BeginAdd w \<Rightarrow> if ctl l = NoOp then Some (link_AddToxic w l) else None
     | BeginUpdate w \<Rightarrow> if ctl l = NoOp then Some (link_UpdateToxic w l) else None
     | BeginRemove w \<Rightarrow> if ctl l = NoOp then Some (link_RemoveToxic w l) else None)"

fun link_run :: "(ToxicWrapper list \<times> link_event) list \<Rightarrow> ToxicLink \<Rightarrow> ToxicLink outcome option" where
  "link_run [] l = Some (Fine l)"
| "link_run ((chain, e) # es) l = (case link_event_step chain e l of
       Some (Fine l') \<Rightarrow> link_run es l'
     | r \<Rightarrow> r)"

end
