(* ===== verification/LinkInv.thy ===== *)
theory LinkInv
  imports Link
begin

text \<open>
  What holds of a link (\<open>link.go\<close>) between any two steps of its goroutines, whatever
  their interleaving with \<open>AddToxic\<close>, \<open>UpdateToxic\<close> and \<open>RemoveToxic\<close>: the stubs form
  one pipeline from \<open>link.input\<close> to \<open>link.output\<close>, every channel has a single writer
  that still has it open, and a stub the operation works on stands still. It follows
  that no goroutine sends on a closed channel or closes one twice.
\<close>

subsection \<open>The state of one stub\<close>

text \<open>The goroutine is not in the middle of a send.\<close>

fun quiet :: "goroutine \<Rightarrow> bool" where
  "quiet Exited = True"
| "quiet (Running p) = True"
| "quiet (Sending p) = False"
| "quiet (Writing p) = False"

definition stopped :: "ToxicStub \<Rightarrow> bool" where
  "stopped s \<longleftrightarrow> thread s = Exited \<and> \<not> is_closed s"

text \<open>An interrupt has been taken: the goroutine may hand out one chunk and ends.\<close>

fun exiting_thread :: "goroutine \<Rightarrow> bool" where
  "exiting_thread Exited = True"
| "exiting_thread (Running p) = leaving Pipe_offer Pipe_step p"
| "exiting_thread (Sending p) = leaving Pipe_offer Pipe_step p"
| "exiting_thread (Writing p) = leaving Pipe_offer Pipe_step p"

definition exiting :: "ToxicStub \<Rightarrow> bool" where
  "exiting s \<longleftrightarrow> exiting_thread (thread s) \<and> \<not> is_closed s"

text \<open>
  \<open>nx\<close> is the channel the stub writes to. The stubs in \<open>W\<close> (named by their input) are
  those for which \<open>RemoveToxic\<close> is writing.
\<close>

definition stub_ok :: "nat set \<Rightarrow> store \<Rightarrow> nat \<Rightarrow> ToxicStub \<Rightarrow> bool" where
  "stub_ok W \<sigma> nx s \<longleftrightarrow> thread_good (thread s) \<and> (is_closed s \<longrightarrow> thread s = Exited)
     \<and> (\<not> is_closed s \<longrightarrow> Output s = nx \<and> \<not> shut (\<sigma> nx)
          \<and> length (queue (\<sigma> nx)) \<le> Suc (capacity (\<sigma> nx))
          \<and> (quiet (thread s) \<and> Input s \<notin> W \<longrightarrow> settled (\<sigma> nx)))"

lemma stub_step_thread: "stub_step a v \<sigma> s = Some r \<Longrightarrow> thread s \<noteq> Exited"
  by (cases a) (auto split: if_splits)

lemma leaving_offer:
  "leaving Pipe_offer Pipe_step p \<Longrightarrow> (\<exists>c. Pipe_offer p = Send c) \<or> (\<exists>c d. Pipe_offer p = SendOr c d)"
  by (auto simp: leaving_def)

lemma leaving_ends:
  "leaving Pipe_offer Pipe_step p \<Longrightarrow> Pipe_step p v Sent = Returned"
  "leaving Pipe_offer Pipe_step p \<Longrightarrow> Pipe_offer p = SendOr c d \<Longrightarrow> Pipe_step p v WriteTimedOut = Returned"
  by (auto simp: leaving_def)

lemma exiting_step:
  assumes "exiting s" and "thread_good (thread s)" and "stub_step a v \<sigma> s = Some (Fine (\<sigma>', s'))"
  shows "exiting s'"
  using assms(3)
proof (cases rule: stub_step_cases)
  case (recv p c cs)
  with assms(1) show ?thesis by (auto simp: exiting_def dest: leaving_offer)
next
  case (eof p)
  with assms(1) show ?thesis by (auto simp: exiting_def dest: leaving_offer)
next
  case (post p c)
  with assms(1) show ?thesis by (simp add: exiting_def)
next
  case (sent p)
  then have "leaving Pipe_offer Pipe_step p" using assms(1) by (auto simp: exiting_def)
  then have "Pipe_step p v Sent = Returned" by (rule leaving_ends)
  with resume_laws(8,9) [OF sent(4)] assms(1) show ?thesis by (simp add: exiting_def)
next
  case (timeout p)
  then have "leaving Pipe_offer Pipe_step p" "\<exists>c d. Pipe_offer p = SendOr c d"
    using assms(1,2) by (auto simp: exiting_def)
  then have "Pipe_step p v WriteTimedOut = Returned" by (auto intro: leaving_ends)
  with resume_laws(8,9) [OF timeout(4)] assms(1) show ?thesis by (simp add: exiting_def)
next
  case (timer p)
  with assms(1) show ?thesis by (auto simp: exiting_def dest: leaving_offer)
next
  case (intr p)
  with assms(1) show ?thesis by (auto simp: exiting_def dest: leaving_offer)
qed

lemma interrupt_exiting:
  assumes "thread_good (thread s)" and "\<not> is_closed s"
    and "stub_step AInterrupt v \<sigma> s = Some (Fine (\<sigma>', s'))"
  shows "exiting s'"
  using assms(3)
proof (cases rule: stub_step_cases)
  case (intr p)
  note r = resume_laws [OF intr(4)]
  have "Pipe_good p" using assms(1) intr(2) by simp
  from stubbed.interrupt_ends [OF this intr(3), of v] r(3)
  show ?thesis using r(8,9) assms(2) by (auto simp: exiting_def)
qed simp_all

text \<open>A channel that has at most lost values: what its writer relies on still holds.\<close>

definition eased :: "store \<Rightarrow> store \<Rightarrow> nat \<Rightarrow> bool" where
  "eased \<sigma> \<sigma>' c \<longleftrightarrow> shut (\<sigma>' c) = shut (\<sigma> c) \<and> length (queue (\<sigma>' c)) \<le> length (queue (\<sigma> c))
     \<and> capacity (\<sigma>' c) = capacity (\<sigma> c)"

lemma eased_refl [simp]: "\<sigma>' c = \<sigma> c \<Longrightarrow> eased \<sigma> \<sigma>' c"
  by (simp add: eased_def)

lemma stub_ok_eased:
  "stub_ok W \<sigma> nx s \<Longrightarrow> eased \<sigma> \<sigma>' nx \<Longrightarrow> stub_ok W \<sigma>' nx s"
  by (auto simp: stub_ok_def eased_def settled_def)

lemma stub_step_input:
  assumes "stub_step a v \<sigma> s = Some (Fine (\<sigma>', s'))" and "c \<noteq> Output s"
  shows "eased \<sigma> \<sigma>' c"
  using assms(1)
proof (cases rule: stub_step_cases)
  case (recv p x cs)
  then show ?thesis using resume_frame [OF recv(5) assms(2)] by (auto simp: eased_def)
next
  case (eof p)
  then show ?thesis using resume_frame [OF eof(6) assms(2)] by simp
next
  case (post p x)
  then show ?thesis using assms(2) by simp
next
  case (sent p)
  then show ?thesis using resume_frame [OF sent(4) assms(2)] by simp
next
  case (timeout p)
  then show ?thesis using resume_frame [OF timeout(4) assms(2)] assms(2) by simp
next
  case (timer p)
  then show ?thesis using resume_frame [OF timer(4) assms(2)] by simp
next
  case (intr p)
  then show ?thesis using resume_frame [OF intr(4) assms(2)] by simp
qed

lemma resume_ok:
  assumes "resume r \<sigma> s = Fine (\<sigma>', s')" and "thread_good (thread s')"
    and "Output s = nx" "\<not> is_closed s" "\<not> shut (\<sigma> nx)"
    and "settled (\<sigma> nx)"
  shows "stub_ok W \<sigma>' nx s'"
proof -
  note r = resume_laws [OF assms(1)]
  show ?thesis
    using r(1,2) r(5,6,7) [of nx] r(8,9) assms(2-6)
    by (auto simp: stub_ok_def settled_def split: run.splits)
qed

lemma stub_step_ok:
  assumes ok: "stub_ok W \<sigma> nx s" and io: "Input s \<noteq> nx" and W: "Input s \<notin> W"
    and st: "stub_step a v \<sigma> s = Some (Fine (\<sigma>', s'))"
  shows "stub_ok W \<sigma>' nx s'"
proof -
  have nc: "\<not> is_closed s" using ok stub_step_thread [OF st] by (auto simp: stub_ok_def)
  with ok have o: "Output s = nx" "\<not> shut (\<sigma> nx)" "thread_good (thread s)"
    and len: "length (queue (\<sigma> nx)) \<le> Suc (capacity (\<sigma> nx))"
    and set: "quiet (thread s) \<Longrightarrow> settled (\<sigma> nx)"
    using W by (auto simp: stub_ok_def)
  note good = stub_step_good(1) [OF o(3) st]
  show ?thesis
    using st
  proof (cases rule: stub_step_cases)
    case (recv p c cs)
    from recv(2) set have "settled (\<sigma> nx)" by simp
    with resume_ok [OF recv(5) good o(1) nc] o io show ?thesis by simp
  next
    case (eof p)
    with resume_ok [OF eof(6) good o(1) nc] o set show ?thesis by simp
  next
    case (post p c)
    with good o nc set show ?thesis by (auto simp: stub_ok_def settled_def)
  next
    case (sent p)
    with resume_ok [OF sent(4) good o(1) nc] o show ?thesis by simp
  next
    case (timeout p)
    have "settled (chan_withdraw (\<sigma> nx))"
      using len by (simp add: settled_def chan_withdraw_def)
    with resume_ok [OF timeout(4) good o(1) nc] o show ?thesis by (simp add: chan_withdraw_def)
  next
    case (timer p)
    with resume_ok [OF timer(4) good o(1) nc] o set show ?thesis by simp
  next
    case (intr p)
    with resume_ok [OF intr(4) good o(1) nc] o set show ?thesis by simp
  qed
qed

subsection \<open>The pipeline\<close>

definition head_chan :: "nat \<Rightarrow> ToxicStub list \<Rightarrow> nat" where
  "head_chan out ss = (case ss of [] \<Rightarrow> out | s # _ \<Rightarrow> Input s)"

lemma head_chan_simps [simp]:
  "head_chan out [] = out"
  "head_chan out (s # ss) = Input s"
  "head_chan out (as @ s # bs) = head_chan (Input s) as"
  "ss \<noteq> [] \<Longrightarrow> head_chan out ss = Input (hd ss)"
  by (simp_all add: head_chan_def split: list.splits)

fun plumbed :: "nat set \<Rightarrow> store \<Rightarrow> nat \<Rightarrow> ToxicStub list \<Rightarrow> bool" where
  "plumbed W \<sigma> out [] = True"
| "plumbed W \<sigma> out (s # ss) = (stub_ok W \<sigma> (head_chan out ss) s \<and> plumbed W \<sigma> out ss)"

lemma plumbed_split:
  "plumbed W \<sigma> out (as @ s # bs) \<longleftrightarrow>
     plumbed W \<sigma> (Input s) as \<and> stub_ok W \<sigma> (head_chan out bs) s \<and> plumbed W \<sigma> out bs"
  by (induction as) auto

text \<open>The channels the stubs of a pipeline write to.\<close>

fun targets :: "nat \<Rightarrow> ToxicStub list \<Rightarrow> nat set" where
  "targets out [] = {}"
| "targets out (s # ss) = insert (head_chan out ss) (targets out ss)"

lemma targets_subset: "targets out ss \<subseteq> insert out (Input ` set (tl ss))"
proof (induction ss)
  case (Cons s ss)
  then show ?case by (cases ss) auto
qed simp

lemma targets_Cons_subset: "targets out ss \<subseteq> insert out (Input ` set ss)"
  using targets_subset [of out ss] by (cases ss) auto

lemma plumbed_eased:
  "plumbed W \<sigma> out ss \<Longrightarrow> (\<And>c. c \<in> targets out ss \<Longrightarrow> eased \<sigma> \<sigma>' c) \<Longrightarrow> plumbed W \<sigma>' out ss"
  by (induction ss) (auto intro: stub_ok_eased)

lemma plumbed_writers:
  "plumbed W \<sigma> out ss \<Longrightarrow> (\<And>s. s \<in> set ss \<Longrightarrow> Input s \<notin> W' \<Longrightarrow> Input s \<notin> W) \<Longrightarrow> plumbed W' \<sigma> out ss"
  by (induction ss) (auto simp: stub_ok_def)

text \<open>A change of one stub and of the channel it writes to leaves the rest alone.\<close>

lemma plumbed_change:
  assumes p: "plumbed W \<sigma> out (as @ s # bs)" and d: "distinct (out # map Input (as @ s # bs))"
    and ok: "stub_ok W \<sigma>' (head_chan out bs) s'" and i: "Input s' = Input s"
    and e: "\<And>c. c \<noteq> head_chan out bs \<Longrightarrow> eased \<sigma> \<sigma>' c"
  shows "plumbed W \<sigma>' out (as @ s' # bs)"
proof -
  from p have pa: "plumbed W \<sigma> (Input s) as" and pb: "plumbed W \<sigma> out bs"
    by (auto simp: plumbed_split)
  have "head_chan out bs \<notin> targets (Input s) as"
    using d targets_Cons_subset [of "Input s" as] by (cases bs) auto
  with pa e have "plumbed W \<sigma>' (Input s) as" by (metis plumbed_eased)
  moreover have "head_chan out bs \<notin> targets out bs"
    using d targets_subset [of out bs] by (cases bs) auto
  with pb e have "plumbed W \<sigma>' out bs" by (metis plumbed_eased)
  ultimately show ?thesis using ok i by (simp add: plumbed_split)
qed

subsection \<open>The invariant of a link\<close>

text \<open>The stubs that carry data: while a toxic is being added its stub is not yet connected.\<close>

fun live_of :: "control \<Rightarrow> ToxicStub list \<Rightarrow> ToxicStub list" where
  "live_of (Adding w ph) ss = butlast ss"
| "live_of c ss = ss"

abbreviation live :: "ToxicLink \<Rightarrow> ToxicStub list" where
  "live l \<equiv> live_of (ctl l) (stubs l)"

text \<open>The input of the stub for which \<open>RemoveToxic\<close> is blocked in a write.\<close>

fun writers_of :: "control \<Rightarrow> ToxicStub list \<Rightarrow> nat set" where
  "writers_of (Stopping w h True) ss = {Input (ss ! nat (tw_Index w))}"
| "writers_of (Flushing w True) ss = {Input (ss ! nat (tw_Index w))}"
| "writers_of c ss = {}"

abbreviation writers :: "ToxicLink \<Rightarrow> nat set" where
  "writers l \<equiv> writers_of (ctl l) (stubs l)"

lemma live_of_other: "(\<And>w ph. c \<noteq> Adding w ph) \<Longrightarrow> live_of c ss = ss"
  by (cases c) auto

lemma writers_of_inputs:
  "(\<And>j. Input (ss' ! j) = Input (ss ! j)) \<Longrightarrow> writers_of c ss' = writers_of c ss"
  by (cases "(c, ss)" rule: writers_of.cases) auto

lemma writers_of_cases:
  assumes "x \<in> writers_of c ss"
  obtains w h where "c = Stopping w h True" "x = Input (ss ! nat (tw_Index w))"
  | w where "c = Flushing w True" "x = Input (ss ! nat (tw_Index w))"
  using assms by (cases "(c, ss)" rule: writers_of.cases) auto

definition helper_ok :: "helper \<Rightarrow> ToxicStub \<Rightarrow> bool" where
  "helper_ok h p = (case h of
       HAsking \<Rightarrow> True
     | HWaiting \<Rightarrow> exiting p
     | HResult b \<Rightarrow> if b then stopped p else is_closed p
     | HTaken \<Rightarrow> is_closed p)"

text \<open>The stub that \<open>AddToxic\<close> has appended: not running, and its channel is unused.\<close>

definition fresh_ok :: "store \<Rightarrow> ToxicStub \<Rightarrow> bool" where
  "fresh_ok \<sigma> s \<longleftrightarrow> stopped s \<and> queue (\<sigma> (Input s)) = [] \<and> \<not> shut (\<sigma> (Input s))"

definition ctl_ok :: "control \<Rightarrow> ToxicStub list \<Rightarrow> nat \<Rightarrow> store \<Rightarrow> bool" where
  "ctl_ok c ss out \<sigma> = (case c of
       NoOp \<Rightarrow> True
     | Adding w ph \<Rightarrow>
         2 \<le> length ss \<and> fresh_ok \<sigma> (last ss)
         \<and> (\<not> is_closed (ss ! (length ss - 2)) \<longrightarrow> Output (last ss) = out)
         \<and> (ph = Waiting \<longrightarrow> exiting (ss ! (length ss - 2)))
     | Updating w ph \<Rightarrow>
         nat (tw_Index w) < length ss \<and> (ph = Waiting \<longrightarrow> exiting (ss ! nat (tw_Index w)))
     | Removing w ph \<Rightarrow>
         0 < nat (tw_Index w) \<and> nat (tw_Index w) < length ss
         \<and> (ph = Waiting \<longrightarrow> exiting (ss ! nat (tw_Index w)))
     | Stopping w h b \<Rightarrow>
         0 < nat (tw_Index w) \<and> nat (tw_Index w) < length ss
         \<and> stopped (ss ! nat (tw_Index w)) \<and> helper_ok h (ss ! (nat (tw_Index w) - 1))
     | Collecting w h \<Rightarrow>
         0 < nat (tw_Index w) \<and> nat (tw_Index w) < length ss
         \<and> helper_ok h (ss ! (nat (tw_Index w) - 1))
     | Flushing w b \<Rightarrow>
         0 < nat (tw_Index w) \<and> nat (tw_Index w) < length ss
         \<and> stopped (ss ! nat (tw_Index w)) \<and> stopped (ss ! (nat (tw_Index w) - 1)))"

definition link_inv :: "ToxicLink \<Rightarrow> bool" where
  "link_inv l \<longleftrightarrow>
     distinct (link_output l # map Input (stubs l))
     \<and> (\<forall>c \<in> set (link_output l # map Input (stubs l)). c < next_chan l)
     \<and> stubs l \<noteq> [] \<and> link_input l = Input (hd (stubs l))
     \<and> plumbed (writers l) (chans l) (link_output l) (live l)
     \<and> (read_state l \<noteq> RDone \<longrightarrow> \<not> shut (chans l (link_input l)))
     \<and> ctl_ok (ctl l) (stubs l) (link_output l) (chans l)"

lemma link_invD:
  assumes "link_inv l"
  shows "distinct (link_output l # map Input (stubs l))"
    and "\<And>c. c \<in> set (link_output l # map Input (stubs l)) \<Longrightarrow> c < next_chan l"
    and "stubs l \<noteq> []" and "link_input l = Input (hd (stubs l))"
    and "plumbed (writers l) (chans l) (link_output l) (live l)"
    and "read_state l \<noteq> RDone \<Longrightarrow> \<not> shut (chans l (link_input l))"
    and "ctl_ok (ctl l) (stubs l) (link_output l) (chans l)"
  using assms by (auto simp: link_inv_def)

text \<open>A stub that stands still or is closed stays so; one that is ending goes on ending.\<close>

definition steady :: "ToxicStub \<Rightarrow> ToxicStub \<Rightarrow> bool" where
  "steady s s' \<longleftrightarrow> (stopped s \<longrightarrow> s' = s) \<and> (is_closed s \<longrightarrow> s' = s) \<and> (exiting s \<longrightarrow> exiting s')"

lemma steady_refl [simp]: "steady s s"
  by (simp add: steady_def)

lemma helper_ok_steady: "helper_ok h p \<Longrightarrow> steady p p' \<Longrightarrow> helper_ok h p'"
  by (auto simp: helper_ok_def steady_def split: helper.splits)

lemma steady_nth:
  assumes "steady (ss ! k) s'" and "j < length ss"
  shows "steady (ss ! j) (ss[k := s'] ! j)"
  using assms by (cases "j = k") auto

lemma ctl_ok_steady:
  assumes "ctl_ok c ss out \<sigma>" and st: "steady (ss ! k) s'"
    and "\<And>w ph. c = Adding w ph \<Longrightarrow> \<sigma>' (Input (last ss)) = \<sigma> (Input (last ss))"
  shows "ctl_ok c (ss[k := s']) out \<sigma>'"
proof -
  note nth = steady_nth [OF st]
  have l: "last (ss[k := s']) = last ss" if "c = Adding w ph" "2 \<le> length ss" "fresh_ok \<sigma> (last ss)" for w ph
    using that nth [of "length ss - 1"] st
    by (cases ss rule: rev_cases) (auto simp: fresh_ok_def steady_def last_conv_nth nth_append)
  show ?thesis
  proof (cases c)
    case (Adding w ph)
    with assms have a: "2 \<le> length ss" "fresh_ok \<sigma> (last ss)" by (auto simp: ctl_ok_def)
    with l [OF Adding] nth [of "length ss - 2"] assms(1,3) Adding show ?thesis
      by (auto simp: ctl_ok_def fresh_ok_def steady_def)
  next
    case (Updating w ph)
    with assms(1) nth [of "nat (tw_Index w)"] show ?thesis by (auto simp: ctl_ok_def steady_def)
  next
    case (Removing w ph)
    with assms(1) nth [of "nat (tw_Index w)"] show ?thesis by (auto simp: ctl_ok_def steady_def)
  next
    case (Stopping w h b)
    with assms(1) nth [of "nat (tw_Index w)"] nth [of "nat (tw_Index w) - 1"] show ?thesis
      by (auto simp: ctl_ok_def steady_def intro: helper_ok_steady)
  next
    case (Collecting w h)
    with assms(1) nth [of "nat (tw_Index w) - 1"] show ?thesis
      by (auto simp: ctl_ok_def intro: helper_ok_steady)
  next
    case (Flushing w b)
    with assms(1) nth [of "nat (tw_Index w)"] nth [of "nat (tw_Index w) - 1"] show ?thesis
      by (auto simp: ctl_ok_def steady_def)
  qed (simp add: ctl_ok_def)
qed

text \<open>Where a stub with a running goroutine stands in the pipeline.\<close>

lemma live_subset: "set (live l) \<subseteq> set (stubs l)"
  by (cases "ctl l") (auto dest: in_set_butlastD)

lemma live_stub:
  assumes inv: "link_inv l" and k: "k < length (stubs l)" and t: "\<not> stopped (stubs l ! k) \<or> k < length (live l)"
  obtains as bs where "live l = as @ (stubs l ! k) # bs" "length as = k"
    "\<And>s'. live_of (ctl l) ((stubs l)[k := s']) = as @ s' # bs"
proof (cases "\<exists>w ph. ctl l = Adding w ph")
  case False
  then have lv: "live l = stubs l" "\<And>ss. live_of (ctl l) ss = ss"
    by (auto simp: live_of_other)
  from k obtain as bs where "stubs l = as @ (stubs l ! k) # bs" "length as = k"
    by (rule split_at_index)
  then show thesis using that [of as bs] lv by (metis list_update_length)
next
  case True
  then obtain w ph where ad: "ctl l = Adding w ph" by blast
  with inv have f: "stopped (last (stubs l))" "stubs l \<noteq> []"
    by (auto simp: link_inv_def ctl_ok_def fresh_ok_def)
  have k': "k < length (butlast (stubs l))"
    using t k f ad by (cases "k = length (stubs l) - 1") (auto simp: last_conv_nth)
  then obtain as bs where ab: "butlast (stubs l) = as @ (butlast (stubs l) ! k) # bs" "length as = k"
    by (rule split_at_index)
  have n: "butlast (stubs l) ! k = stubs l ! k" using k' by (simp add: nth_butlast)
  have "live_of (ctl l) ((stubs l)[k := s']) = as @ s' # bs" for s' 
    using ad k' ab by (simp add: butlast_list_update) (metis list_update_length)
  then show thesis using that [of as bs] ab n ad by simp
qed

lemma live_distinct:
  assumes "link_inv l"
  shows "distinct (link_output l # map Input (live l))"
proof -
  note d = link_invD(1) [OF assms]
  have "distinct (map Input (butlast (stubs l)))"
    using d by (simp add: map_butlast distinct_butlast)
  with d show ?thesis by (cases "ctl l") (auto dest: in_set_butlastD)
qed

lemma new_stub_apart:
  assumes "link_inv l" and "ctl l = Adding w ph"
  shows "Input (last (stubs l)) \<notin> insert (link_output l) (Input ` set (live l))"
    and "stubs l = live l @ [last (stubs l)]" and "live l \<noteq> []"
    and "Input (last (stubs l)) \<noteq> link_input l"
proof -
  show s: "stubs l = live l @ [last (stubs l)]"
    using assms by (simp add: link_inv_def)
  have "distinct (link_output l # map Input (live l @ [last (stubs l)]))"
    using link_invD(1) [OF assms(1)] s by simp
  then show a: "Input (last (stubs l)) \<notin> insert (link_output l) (Input ` set (live l))" by auto
  show n: "live l \<noteq> []"
    using assms by (auto simp: link_inv_def ctl_ok_def dest: arg_cong [where f = length])
  have "link_input l = Input (hd (live l))"
    using link_invD(4) [OF assms(1)] s n by (metis hd_append2)
  then show "Input (last (stubs l)) \<noteq> link_input l" using a n by auto
qed

subsection \<open>A step of a stub keeps the invariant\<close>

lemma not_writer:
  assumes "link_inv l" and "k < length (stubs l)" and "\<not> stopped (stubs l ! k)"
  shows "Input (stubs l ! k) \<notin> writers l"
proof -
  have d: "distinct (map Input (stubs l))" using link_invD(1) [OF assms(1)] by simp
  have i: False if "stopped (stubs l ! j)" "j < length (stubs l)" "Input (stubs l ! k) = Input (stubs l ! j)" for j
    using that assms(2,3) nth_eq_iff_index_eq [OF d, of k j] by auto
  show ?thesis
  proof
    assume "Input (stubs l ! k) \<in> writers l"
    then show False
      by (cases rule: writers_of_cases) (use i link_invD(7) [OF assms(1)] in \<open>auto simp: ctl_ok_def\<close>)
  qed
qed

lemma stub_steady:
  assumes "thread_good (thread s)" and "is_closed s \<longrightarrow> thread s = Exited"
    and "stub_step a v \<sigma> s = Some (Fine (\<sigma>', s'))"
  shows "steady s s'"
  using assms exiting_step stub_step_thread [OF assms(3)] by (auto simp: steady_def stopped_def)

text \<open>What a step of a stub does to the link around it.\<close>

lemma on_stub_cases:
  assumes inv: "link_inv l" and on: "on_stub k a v l = Some (Fine l')"
  obtains as s s' bs \<sigma>' where "k < length (stubs l)" "s = stubs l ! k" "thread s \<noteq> Exited"
    "stub_step a v (chans l) s = Some (Fine (\<sigma>', s'))"
    "l' = l\<lparr>chans := \<sigma>', stubs := (stubs l)[k := s']\<rparr>"
    "live l = as @ s # bs" "live l' = as @ s' # bs" "Input s \<notin> writers l" "writers l' = writers l"
    "distinct (link_output l # map Input (as @ s # bs))"
    "stub_ok (writers l) (chans l) (head_chan (link_output l) bs) s" "\<not> is_closed s"
    "Input s' = Input s" "Output s = head_chan (link_output l) bs"
    "head_chan (link_output l) bs \<noteq> Input s"
proof -
  from on obtain \<sigma>' s' where k: "k < length (stubs l)"
    and st: "stub_step a v (chans l) (stubs l ! k) = Some (Fine (\<sigma>', s'))"
    and l': "l' = l\<lparr>chans := \<sigma>', stubs := (stubs l)[k := s']\<rparr>"
    by (auto simp: on_stub_def split: if_splits option.splits outcome.splits)
  have t: "thread (stubs l ! k) \<noteq> Exited" by (rule stub_step_thread [OF st])
  then have ns: "\<not> stopped (stubs l ! k)" by (simp add: stopped_def)
  from live_stub [OF inv k] ns obtain as bs where ab: "live l = as @ (stubs l ! k) # bs"
    "\<And>x. live_of (ctl l) ((stubs l)[k := x]) = as @ x # bs" by metis
  have d: "distinct (link_output l # map Input (as @ (stubs l ! k) # bs))"
    using live_distinct [OF inv] ab(1) by simp
  have ok: "stub_ok (writers l) (chans l) (head_chan (link_output l) bs) (stubs l ! k)"
    using link_invD(5) [OF inv] ab(1) by (simp add: plumbed_split)
  have i: "Input s' = Input (stubs l ! k)" using stub_step_frame(1) [OF st] .
  have "Input ((stubs l)[k := s'] ! j) = Input (stubs l ! j)" for j
    using i k by (cases "j = k") auto
  then have "writers_of (ctl l) ((stubs l)[k := s']) = writers l" by (rule writers_of_inputs)
  then have w: "writers l' = writers l" by (simp add: l')
  have lv: "live l' = as @ s' # bs" using ab(2) [of s'] by (simp add: l')
  show thesis
    using that [OF k refl t st l' ab(1) lv not_writer [OF inv k ns] w d ok] ok t d i
    by (cases bs) (auto simp: stub_ok_def)
qed

lemma live_hd:
  assumes "link_inv l"
  shows "live l \<noteq> []" and "link_input l = Input (hd (live l))"
    and "c \<in> insert (link_output l) (Input ` set (tl (live l))) \<Longrightarrow> link_input l \<noteq> c"
proof -
  have "live l \<noteq> [] \<and> hd (live l) = hd (stubs l)"
  proof (cases "\<exists>w ph. ctl l = Adding w ph")
    case True
    then show ?thesis using new_stub_apart(2,3) [OF assms] by (metis hd_append2)
  next
    case False
    then show ?thesis using link_invD(3) [OF assms] by (simp add: live_of_other)
  qed
  then have h: "hd (live l) = hd (stubs l)" and n: "live l \<noteq> []" by simp_all
  show "live l \<noteq> []" by (rule n)
  show i: "link_input l = Input (hd (live l))" using link_invD(4) [OF assms] h by simp
  show "c \<in> insert (link_output l) (Input ` set (tl (live l))) \<Longrightarrow> link_input l \<noteq> c"
    using live_distinct [OF assms] n i by (cases "live l") auto
qed

lemma on_stub_inv:
  assumes inv: "link_inv l" and on: "on_stub k a v l = Some (Fine l')"
  shows "link_inv l'"
  using inv on
proof (cases rule: on_stub_cases)
  case (1 as s s' bs \<sigma>')
  let ?out = "link_output l" let ?nx = "head_chan ?out bs"
  note f = stub_step_frame [OF 1(4)]
  have ins: "map Input (stubs l') = map Input (stubs l)"
    using 1(1,2,5,13) by (simp add: map_update list_update_same_conv)
  have e: "eased (chans l) \<sigma>' c" if "c \<noteq> ?nx" for c
    using stub_step_input [OF 1(4)] that 1(14) by simp
  have p: "plumbed (writers l) \<sigma>' ?out (as @ s' # bs)"
  proof (rule plumbed_change [where \<sigma> = "chans l"])
    show "plumbed (writers l) (chans l) ?out (as @ s # bs)" using link_invD(5) [OF inv] 1(6) by simp
    show "stub_ok (writers l) \<sigma>' ?nx s'" using stub_step_ok [OF 1(11) _ 1(8) 1(4)] 1(15) by metis
  qed (use 1(10) 1(13) e in simp_all)
  have hd: "Input (hd (stubs l')) = Input (hd (stubs l))"
    using ins link_invD(3) [OF inv] by (metis hd_map map_is_Nil_conv)
  have "?nx \<in> insert ?out (Input ` set (tl (live l)))"
    using 1(6) by (cases as; cases bs) auto
  then have "link_input l \<noteq> ?nx" by (rule live_hd(3) [OF inv])
  from e [OF this] have r: "shut (\<sigma>' (link_input l)) = shut (chans l (link_input l))"
    by (simp add: eased_def)
  have c: "ctl_ok (ctl l) ((stubs l)[k := s']) ?out \<sigma>'"
  proof (rule ctl_ok_steady)
    show "ctl_ok (ctl l) (stubs l) ?out (chans l)" using link_invD(7) [OF inv] .
    show "steady (stubs l ! k) s'"
      using stub_steady [OF _ _ 1(4)] 1(11) 1(2) by (auto simp: stub_ok_def)
  next
    fix w ph assume "ctl l = Adding w ph"
    from new_stub_apart(1) [OF inv this] 1(6,14)
    have "Input (last (stubs l)) \<noteq> Input s" "Input (last (stubs l)) \<noteq> Output s"
      by (cases bs; auto)+
    then show "\<sigma>' (Input (last (stubs l))) = chans l (Input (last (stubs l)))" by (rule f(3))
  qed
  show ?thesis
    unfolding link_inv_def ins hd
    using link_invD(1-4,6) [OF inv] p r c 1(5,7,9) by auto
qed

subsection \<open>The other steps keep the invariant\<close>

lemma inv_ctl:
  assumes inv: "link_inv l" and c: "ctl_ok c (stubs l) (link_output l) (chans l)"
    and lv: "live (l\<lparr>ctl := c\<rparr>) = live l"
    and w: "\<And>s. s \<in> set (live l) \<Longrightarrow> Input s \<in> writers l \<Longrightarrow> Input s \<in> writers (l\<lparr>ctl := c\<rparr>)"
  shows "link_inv (l\<lparr>ctl := c\<rparr>)"
proof -
  have "plumbed (writers (l\<lparr>ctl := c\<rparr>)) (chans l) (link_output l) (live l)"
    using link_invD(5) [OF inv] w by (blast intro: plumbed_writers)
  with link_invD(1-4,6) [OF inv] c lv show ?thesis by (simp add: link_inv_def)
qed

lemma ctl_ok_frame:
  assumes "ctl_ok c ss out \<sigma>" and "\<And>w ph. c = Adding w ph \<Longrightarrow> \<sigma>' (Input (last ss)) = \<sigma> (Input (last ss))"
  shows "ctl_ok c ss out \<sigma>'"
  using assms by (auto simp: ctl_ok_def fresh_ok_def split: control.splits)

lemma inv_at_input:
  assumes inv: "link_inv l" and ch: "rs \<noteq> RDone \<Longrightarrow> \<not> shut ch"
  shows "link_inv (l\<lparr>chans := (chans l)(link_input l := ch), read_state := rs, taken := t\<rparr>)"
proof -
  let ?\<sigma> = "(chans l)(link_input l := ch)"
  have lv: "live (l\<lparr>chans := ?\<sigma>, read_state := rs, taken := t\<rparr>) = live l"
    "writers (l\<lparr>chans := ?\<sigma>, read_state := rs, taken := t\<rparr>) = writers l"
    by simp_all
  have "plumbed (writers l) ?\<sigma> (link_output l) (live l)"
  proof (rule plumbed_eased [OF link_invD(5) [OF inv]])
    fix c assume "c \<in> targets (link_output l) (live l)"
    then have "link_input l \<noteq> c" using targets_subset live_hd(3) [OF inv] by blast
    then show "eased (chans l) ?\<sigma> c" by simp
  qed
  moreover have "ctl_ok (ctl l) (stubs l) (link_output l) ?\<sigma>"
    by (rule ctl_ok_frame [OF link_invD(7) [OF inv]]) (simp add: new_stub_apart(4) [OF inv])
  ultimately show ?thesis
    unfolding link_inv_def lv using link_invD(1-4) [OF inv] ch by simp
qed

lemma inv_at_output:
  assumes inv: "link_inv l" and e: "chan_recv (chans l (link_output l)) = Value c ch"
  shows "link_inv (l\<lparr>chans := (chans l)(link_output l := ch), delivered := d\<rparr>)"
proof -
  let ?\<sigma> = "(chans l)(link_output l := ch)"
  have lv: "live (l\<lparr>chans := ?\<sigma>, delivered := d\<rparr>) = live l"
    "writers (l\<lparr>chans := ?\<sigma>, delivered := d\<rparr>) = writers l"
    by simp_all
  have "eased (chans l) ?\<sigma> c'" for c' using e by (auto simp: eased_def chan_recv_Value)
  then have "plumbed (writers l) ?\<sigma> (link_output l) (live l)"
    using plumbed_eased [OF link_invD(5) [OF inv]] by blast
  moreover have "ctl_ok (ctl l) (stubs l) (link_output l) ?\<sigma>"
    by (rule ctl_ok_frame [OF link_invD(7) [OF inv]]) (use new_stub_apart(1) [OF inv] in auto)
  moreover have "link_input l \<noteq> link_output l" using live_hd(3) [OF inv] by blast
  ultimately show ?thesis
    unfolding link_inv_def lv using link_invD(1-4,6) [OF inv] by simp
qed

text \<open>The stub an operation works on, with the one in front of it.\<close>

lemma two_stubs:
  assumes "0 < i" and "i < length ss"
  obtains as bs where "ss = as @ (ss ! (i - 1)) # (ss ! i) # bs" "length as = i - 1"
proof
  have "ss = take (i - 1) ss @ ss ! (i - 1) # drop i ss"
    using id_take_nth_drop [of "i - 1" ss] assms by simp
  moreover have "drop i ss = ss ! i # drop (Suc i) ss" using assms by (simp add: Cons_nth_drop_Suc)
  ultimately show "ss = take (i - 1) ss @ (ss ! (i - 1)) # (ss ! i) # drop (Suc i) ss" by simp
qed (use assms in simp)

lemma stopped_ok:
  "stub_ok W \<sigma> nx s \<Longrightarrow> stopped s \<Longrightarrow> Input s \<notin> W \<Longrightarrow>
     Output s = nx \<and> \<not> shut (\<sigma> nx) \<and> settled (\<sigma> nx)"
  by (auto simp: stub_ok_def stopped_def)

lemma Run_simps [simp]:
  "Input (Run d w s) = Input s" "Output (Run d w s) = Output s" "is_closed (Run d w s) = is_closed s"
  "thread_good (thread (Run d w s))" "quiet (thread (Run d w s))" "thread_held (thread (Run d w s)) = []"
  by (simp_all add: Run_def)

lemma Run_ok:
  "\<not> is_closed s \<Longrightarrow> Output s = nx \<Longrightarrow> \<not> shut (\<sigma> nx) \<Longrightarrow> settled (\<sigma> nx) \<Longrightarrow> stub_ok W \<sigma> nx (Run d w s)"
  by (simp add: stub_ok_def settled_def)

lemma distinct_inputs:
  assumes "distinct (out # map Input (as @ p # s # bs))"
  shows "head_chan out bs \<noteq> Input s" "head_chan out bs \<noteq> Input p" "Input s \<noteq> Input p"
    "\<And>t. t \<in> set as \<union> {p} \<union> set bs \<Longrightarrow> Input t \<noteq> Input s"
proof -
  show "head_chan out bs \<noteq> Input s" "head_chan out bs \<noteq> Input p" "Input s \<noteq> Input p"
    using assms by (cases bs; auto)+
  have "Input s \<notin> Input ` (set as \<union> {p} \<union> set bs)" using assms by auto
  then show "Input t \<noteq> Input s" if "t \<in> set as \<union> {p} \<union> set bs" for t
    using that by (metis imageI)
qed

lemma head_chan_in:
  "ss = as @ s # bs \<Longrightarrow> head_chan out bs \<in> insert out (Input ` set (tl ss))"
  by (cases as; cases bs) auto

text \<open>The operation has moved a chunk from the input of its stub to the output.\<close>

lemma inv_moved:
  assumes inv: "link_inv l" and lv: "live l = stubs l" and w: "writers l = {}"
    and i: "0 < i" "i < length (stubs l)" "stopped (stubs l ! i)"
    and r: "chan_recv (chans l (Input (stubs l ! i))) = Value c ch"
    and p: "post_on i c (l\<lparr>chans := (chans l)(Input (stubs l ! i) := ch)\<rparr>) = Fine l'"
    and c': "ctl_ok ct (stubs l) (link_output l) (chans l)" "\<forall>w ph. ct \<noteq> Adding w ph"
      "writers (l\<lparr>ctl := ct\<rparr>) = {Input (stubs l ! i)}"
  shows "link_inv (l'\<lparr>ctl := ct\<rparr>)"
proof -
  let ?s = "stubs l ! i" let ?out = "link_output l"
  obtain as bs where ab: "stubs l = as @ (stubs l ! (i - 1)) # ?s # bs" "length as = i - 1"
    by (rule two_stubs [OF i(1,2)])
  define \<sigma>1 where "\<sigma>1 = (chans l)(Input ?s := ch)"
  let ?nx = "head_chan ?out bs"
  have pl: "plumbed {} (chans l) ?out ((as @ [stubs l ! (i - 1)]) @ ?s # bs)"
    using link_invD(5) [OF inv] lv w ab(1) by simp
  then have ok: "stub_ok {} (chans l) ?nx ?s" by (simp only: plumbed_split)
  note so = stopped_ok [OF ok i(3), simplified]
  have d: "distinct (?out # map Input (as @ (stubs l ! (i - 1)) # ?s # bs))"
    using link_invD(1) [OF inv] ab(1) by metis
  note di = distinct_inputs [OF d]
  obtain \<sigma>2 where l': "l' = l\<lparr>chans := \<sigma>2\<rparr>" and s2: "\<sigma>2 = \<sigma>1(?nx := (\<sigma>1 ?nx)\<lparr>queue := queue (\<sigma>1 ?nx) @ [c]\<rparr>)"
    using p so di by (auto simp: post_on_def chan_send_def \<sigma>1_def Let_def split: option.splits if_splits)
  have e: "eased (chans l) \<sigma>2 x" if "x \<noteq> ?nx" for x
    using r that by (auto simp: s2 \<sigma>1_def eased_def chan_recv_Value)
  have "plumbed {Input ?s} \<sigma>2 ?out ((as @ [stubs l ! (i - 1)]) @ ?s # bs)"
  proof (rule plumbed_change)
    show "plumbed {Input ?s} (chans l) ?out ((as @ [stubs l ! (i - 1)]) @ ?s # bs)"
      using pl by (rule plumbed_writers) simp
    show "stub_ok {Input ?s} \<sigma>2 ?nx ?s"
      using ok so di i(3) by (auto simp: stub_ok_def s2 \<sigma>1_def settled_def stopped_def)
  qed (use d e in auto)
  then have "plumbed {Input ?s} \<sigma>2 ?out (stubs l)" using ab(1) by simp
  moreover have "live (l'\<lparr>ctl := ct\<rparr>) = stubs l" using c'(2) l' by (simp add: live_of_other)
  moreover have "writers (l'\<lparr>ctl := ct\<rparr>) = {Input ?s}"
    using c'(3) l' by simp
  moreover have "?nx \<in> insert ?out (Input ` set (tl (live l)))"
    using head_chan_in [of "stubs l" "as @ [stubs l ! (i - 1)]" ?s bs ?out] ab(1) lv by simp
  then have "\<sigma>2 (link_input l) = \<sigma>1 (link_input l)"
    using live_hd(3) [OF inv, of ?nx] s2 by auto
  then have "shut (\<sigma>2 (link_input l)) = shut (chans l (link_input l))"
    using r by (auto simp: \<sigma>1_def chan_recv_Value)
  moreover have "ctl_ok ct (stubs l) ?out \<sigma>2" using c' by (auto intro: ctl_ok_frame)
  ultimately show ?thesis using link_invD(1-4,6) [OF inv] l' by (simp add: link_inv_def)
qed

text \<open>The stub the operation works on has been replaced, or its output changed.\<close>

lemma inv_at_op:
  assumes inv: "link_inv l" and lv: "live l = stubs l"
    and st: "stubs l = as @ s # bs"
    and p: "plumbed W \<sigma> (link_output l) (as @ s' # bs)" and i: "Input s' = Input s"
    and e: "\<And>x. x \<noteq> head_chan (link_output l) bs \<Longrightarrow> eased (chans l) \<sigma> x"
    and c: "ctl_ok ct (as @ s' # bs) (link_output l) \<sigma>" "live_of ct (as @ s' # bs) = as @ s' # bs"
      "writers_of ct (as @ s' # bs) = W"
  shows "link_inv (l\<lparr>chans := \<sigma>, stubs := as @ s' # bs, ctl := ct\<rparr>)"
proof -
  have m: "map Input (as @ s' # bs) = map Input (stubs l)" using st i by simp
  then have h: "Input (hd (as @ s' # bs)) = Input (hd (stubs l))"
    by (metis Nil_is_append_conv hd_map list.discI st)
  have "head_chan (link_output l) bs \<in> insert (link_output l) (Input ` set (tl (live l)))"
    using head_chan_in [OF st] lv by simp
  then have "eased (chans l) \<sigma> (link_input l)" using live_hd(3) [OF inv] e by metis
  then show ?thesis
    using link_invD(1-4,6) [OF inv] p c m h by (auto simp: link_inv_def eased_def)
qed

lemma inv_sent:
  assumes inv: "link_inv l" and lv: "live l = stubs l" and st: "stubs l = as @ s # bs"
    and w: "writers l = {Input s}" and "stopped s"
    and e: "\<And>x. x \<noteq> head_chan (link_output l) bs \<Longrightarrow> eased (chans l) \<sigma> x"
    and ok: "\<not> shut (\<sigma> (head_chan (link_output l) bs))" "settled (\<sigma> (head_chan (link_output l) bs))"
  shows "plumbed {} \<sigma> (link_output l) (as @ s # bs)"
proof -
  let ?nx = "head_chan (link_output l) bs"
  have d: "distinct (link_output l # map Input (as @ s # bs))" using link_invD(1) [OF inv] st by simp
  have p: "plumbed {Input s} (chans l) (link_output l) (as @ s # bs)"
    using link_invD(5) [OF inv] lv st w by simp
  then have "stub_ok {Input s} (chans l) ?nx s" by (simp add: plumbed_split)
  with ok assms(5) have s: "stub_ok {} \<sigma> ?nx s" by (auto simp: stub_ok_def stopped_def settled_def)
  then have "stub_ok {Input s} \<sigma> ?nx s" by (auto simp: stub_ok_def)
  with p d e have "plumbed {Input s} \<sigma> (link_output l) (as @ s # bs)" by (blast intro: plumbed_change)
  then have "plumbed {Input s} \<sigma> (Input s) as" "plumbed {Input s} \<sigma> (link_output l) bs"
    by (simp_all add: plumbed_split)
  then have "plumbed {} \<sigma> (Input s) as" "plumbed {} \<sigma> (link_output l) bs"
    using d by (auto elim!: plumbed_writers simp: rev_image_eqI)
  with s show ?thesis by (simp add: plumbed_split)
qed

lemma inv_closed:
  assumes inv: "link_inv l" and lv: "live l = stubs l" and st: "stubs l = as @ s # bs"
    and w: "writers l = {}" and "stopped s" and cl: "stub_Close (chans l) s = Fine (\<sigma>, s')"
  shows "plumbed {} \<sigma> (link_output l) (as @ s' # bs)" and "Input s' = Input s"
    and "is_closed s'" "thread s' = Exited" and "x \<noteq> head_chan (link_output l) bs \<Longrightarrow> \<sigma> x = chans l x"
proof -
  let ?nx = "head_chan (link_output l) bs"
  have d: "distinct (link_output l # map Input (as @ s # bs))" using link_invD(1) [OF inv] st by simp
  have p: "plumbed {} (chans l) (link_output l) (as @ s # bs)"
    using link_invD(5) [OF inv] lv st w by simp
  then have ok: "stub_ok {} (chans l) ?nx s" by (simp add: plumbed_split)
  then have o: "Output s = ?nx" using assms(5) by (auto simp: stub_ok_def stopped_def)
  from cl assms(5) have s': "s' = s\<lparr>is_closed := True\<rparr>" and
    f: "\<And>x. x \<noteq> ?nx \<Longrightarrow> \<sigma> x = chans l x"
    by (auto simp: stub_Close_def stub_Closed_def stopped_def o split: option.splits)
  then show "Input s' = Input s" "is_closed s'" "thread s' = Exited"
    using assms(5) by (simp_all add: stopped_def)
  show "x \<noteq> ?nx \<Longrightarrow> \<sigma> x = chans l x" by (rule f)
  show "plumbed {} \<sigma> (link_output l) (as @ s' # bs)"
  proof (rule plumbed_change [OF p d])
    show "stub_ok {} \<sigma> ?nx s'" using s' assms(5) by (simp add: stub_ok_def stopped_def)
  qed (use s' f in auto)
qed

lemma stopped_nth_update:
  assumes "stubs l = as @ s # bs" and "length as = i"
  shows "(stubs l)[i := s'] = as @ s' # bs" and "stubs l ! i = s"
  using assms by (auto simp: list_update_append nth_append)

text \<open>One lemma for each step of an operation.\<close>

lemma after_closed_inv:
  assumes inv: "link_inv l" and t: "ctl_target l = Some (k, ph)" and cl: "is_closed (stubs l ! k)"
    and r: "after_closed l = Fine l'"
  shows "link_inv l'"
proof (cases "\<exists>w ph. ctl l = Adding w ph")
  case False
  with r have "l' = l\<lparr>ctl := NoOp\<rparr>" by (auto simp: after_closed_def split: control.splits)
  moreover have "writers l = {}" using t by (cases "ctl l") (auto simp: ctl_target_def)
  ultimately show ?thesis
    using inv_ctl [OF inv, of NoOp] False by (auto simp: ctl_ok_def live_of_other)
next
  case True
  then obtain w ph' where ad: "ctl l = Adding w ph'" by blast
  note ns = new_stub_apart [OF inv ad]
  let ?n = "last (stubs l)" let ?out = "link_output l"
  have k: "k = length (live l) - 1" using t ad by (auto simp: ctl_target_def numeral_2_eq_2)
  have fr: "fresh_ok (chans l) ?n" using link_invD(7) [OF inv] ad by (simp add: ctl_ok_def)
  obtain as p where lv: "live l = as @ [p]" using ns(3) by (metis rev_exhaust)
  have st: "stubs l = as @ [p, ?n]" using ns(2) lv by simp
  have kl: "k = length as" using k lv by simp
  have "stubs l ! k = p" unfolding kl by (subst st) simp
  with cl have pc: "is_closed p" by simp
  have n: "stubs l ! (length (stubs l) - 1) = ?n" using link_invD(3) [OF inv] by (simp add: last_conv_nth)
  define \<sigma> where "\<sigma> = (chans l)(Input ?n := (chans l (Input ?n))\<lparr>shut := True\<rparr>)"
  define s' where "s' = ?n\<lparr>Output := Input ?n, is_closed := True\<rparr>"
  have "(stubs l)[length (stubs l) - 1 := s'] = as @ [p, s']"
    by (subst (1 2) st) (simp add: list_update_append)
  with r ad n fr have l': "l' = l\<lparr>chans := \<sigma>, stubs := as @ [p, s'], ctl := NoOp\<rparr>"
    by (auto simp: after_closed_def Let_def stub_Close_def stub_Closed_def chan_close_def fresh_ok_def
        stopped_def \<sigma>_def s'_def)
  have m: "map Input (as @ [p, s']) = map Input (stubs l)" by (subst st) (simp add: s'_def)
  then have h: "Input (hd (as @ [p, s'])) = Input (hd (stubs l))"
    by (metis Nil_is_append_conv hd_map list.discI link_invD(3) [OF inv])
  have d: "distinct (?out # map Input (as @ [p]))" using live_distinct [OF inv] lv by simp
  have pl: "plumbed {} (chans l) ?out (as @ [p])" using link_invD(5) [OF inv] lv ad by simp
  have "Input ?n \<notin> targets ?out (as @ [p])"
    using ns(1) lv targets_subset [of ?out "as @ [p]"] by (cases as) auto
  then have "plumbed {} \<sigma> ?out (as @ [p])"
    using plumbed_eased [OF pl, of \<sigma>] by (metis \<sigma>_def eased_refl fun_upd_other)
  then have "plumbed {} \<sigma> (Input p) as" "stub_ok {} \<sigma> ?out p" by (simp_all add: plumbed_split)
  moreover have "stub_ok {} \<sigma> (Input ?n) p" using calculation(2) pc by (simp add: stub_ok_def)
  moreover have "stub_ok {} \<sigma> ?out s'" using fr by (simp add: stub_ok_def s'_def fresh_ok_def stopped_def)
  ultimately have "plumbed {} \<sigma> ?out (as @ [p, s'])" by (simp add: plumbed_split s'_def)
  then show ?thesis
    using link_invD(1-4,6) [OF inv] l' m h ns(4) by (auto simp: link_inv_def ctl_ok_def \<sigma>_def)
qed

lemma after_exited_inv:
  assumes inv: "link_inv l" and t: "ctl_target l = Some (k, Waiting)"
    and ex: "thread (stubs l ! k) = Exited" and r: "after_exited chain ds l = Fine l'"
  shows "link_inv l'"
proof (cases "ctl l")
  case (Adding w ph)
  note ns = new_stub_apart [OF inv Adding]
  let ?n = "last (stubs l)" let ?out = "link_output l"
  have k: "k = length (live l) - 1" "ph = Waiting" using t Adding by (auto simp: ctl_target_def)
  note c = link_invD(7) [OF inv, unfolded Adding ctl_ok_def, simplified]
  obtain as p where lv: "live l = as @ [p]" using ns(3) by (metis rev_exhaust)
  have st: "stubs l = as @ [p, ?n]" using ns(2) lv by simp
  have "length (stubs l) = Suc (Suc (length as))" by (subst st) simp
  then have kl: "length (stubs l) - 2 = k" "k = length as" using k lv by simp_all
  have "stubs l ! k = p" unfolding kl(2) by (subst st) simp
  then have p: "stubs l ! k = p" "stubs l ! (length (stubs l) - 2) = p" using kl(1) by simp_all
  with c k have pc: "\<not> is_closed p" "Output ?n = ?out" by (auto simp: exiting_def)
  define s' where "s' = Run (ds 0) w ?n"
  define p' where "p' = Run (ds 1) (chain ! (length (stubs l) - 2)) (p\<lparr>Output := Input ?n\<rparr>)"
  have n: "stubs l ! (length (stubs l) - 1) = ?n" using link_invD(3) [OF inv] by (simp add: last_conv_nth)
  have up: "(stubs l)[length (stubs l) - 1 := x, length (stubs l) - 2 := y] = as @ [y, x]" for x y
    by (subst (1 2 3) st) (simp add: list_update_append)
  have two: "length (stubs l) - 1 - 1 = length (stubs l) - 2" by simp
  have l': "l' = l\<lparr>stubs := as @ [p', s'], ctl := NoOp\<rparr>"
    using r Adding by (auto simp only: after_exited_def control.case Let_def two p(2) n up s'_def p'_def
        split: if_splits)
  have m: "map Input (as @ [p', s']) = map Input (stubs l)" by (subst st) (simp add: s'_def p'_def)
  then have h: "Input (hd (as @ [p', s'])) = Input (hd (stubs l))"
    by (metis Nil_is_append_conv hd_map list.discI link_invD(3) [OF inv])
  have pl: "plumbed {} (chans l) ?out (as @ [p])" using link_invD(5) [OF inv] lv Adding by simp
  then have pl': "plumbed {} (chans l) (Input p) as" "stub_ok {} (chans l) ?out p"
    by (simp_all add: plumbed_split)
  have "stopped p" using ex p pc by (simp add: stopped_def)
  note o = stopped_ok [OF pl'(2) this, simplified]
  have "stub_ok {} (chans l) ?out s'"
    unfolding s'_def using c pc o by (intro Run_ok) (auto simp: fresh_ok_def stopped_def)
  moreover have "stub_ok {} (chans l) (Input ?n) p'"
    unfolding p'_def using c pc by (intro Run_ok) (auto simp: fresh_ok_def settled_def)
  moreover have "Input s' = Input ?n" "Input p' = Input p" by (simp_all add: s'_def p'_def)
  ultimately have "plumbed {} (chans l) ?out (as @ [p', s'])" using pl'(1) by (simp add: plumbed_split)
  then show ?thesis
    using link_invD(1-4,6) [OF inv] l' m h by (auto simp: link_inv_def ctl_ok_def)
next
  case (Updating w ph)
  let ?i = "nat (tw_Index w)"
  have k: "k = ?i" "ph = Waiting" using t Updating by (auto simp: ctl_target_def)
  note c = link_invD(7) [OF inv, unfolded Updating ctl_ok_def, simplified]
  with k ex have "stopped (stubs l ! k)" by (simp add: exiting_def stopped_def)
  obtain as bs where ab: "stubs l = as @ (stubs l ! k) # bs" "length as = k"
    using c k split_at_index by metis
  let ?s = "stubs l ! k" let ?s' = "Run (ds 0) w ?s"
  have pl: "plumbed {} (chans l) (link_output l) (as @ ?s # bs)"
    using link_invD(5) [OF inv] Updating ab(1) by simp
  then have "stub_ok {} (chans l) (head_chan (link_output l) bs) ?s" by (simp only: plumbed_split)
  note o = stopped_ok [OF this \<open>stopped ?s\<close>, simplified]
  have "stub_ok {} (chans l) (head_chan (link_output l) bs) ?s'"
    using o \<open>stopped ?s\<close> by (intro Run_ok) (auto simp: stopped_def)
  with pl have "plumbed {} (chans l) (link_output l) (as @ ?s' # bs)" by (simp add: plumbed_split)
  from inv_at_op [OF inv _ ab(1) this, of NoOp]
  have "link_inv (l\<lparr>chans := chans l, stubs := as @ ?s' # bs, ctl := NoOp\<rparr>)"
    using Updating by (simp add: ctl_ok_def)
  moreover have "l' = l\<lparr>chans := chans l, stubs := as @ ?s' # bs, ctl := NoOp\<rparr>"
    using r Updating k stopped_nth_update(1) [OF ab] by (simp add: after_exited_def)
  ultimately show ?thesis by simp
next
  case (Removing w ph)
  then have k: "k = nat (tw_Index w)" "ph = Waiting" using t by (auto simp: ctl_target_def)
  have "l' = l\<lparr>ctl := Stopping w HAsking False\<rparr>" using r Removing by (simp add: after_exited_def)
  moreover have "ctl_ok (Stopping w HAsking False) (stubs l) (link_output l) (chans l)"
    using link_invD(7) [OF inv] Removing k ex
    by (auto simp: ctl_ok_def helper_ok_def exiting_def stopped_def)
  ultimately show ?thesis using inv_ctl [OF inv] Removing by simp
qed (use t in \<open>auto simp: ctl_target_def\<close>)

lemma op_split:
  assumes "0 < i" and "i < length (stubs l)"
  obtains as p s bs where "stubs l = as @ p # s # bs" "length as = i - 1"
    "stubs l ! (i - 1) = p" "stubs l ! i = s" "stubs l = (as @ [p]) @ s # bs" "length (as @ [p]) = i"
proof -
  from two_stubs [OF assms] obtain as bs where
    "stubs l = as @ (stubs l ! (i - 1)) # (stubs l ! i) # bs" "length as = i - 1" .
  with that assms(1) show thesis by fastforce
qed

lemma stop_round_inv:
  assumes inv: "link_inv l" and ct: "ctl l = Stopping w h False"
    and r: "stop_round w h l = Some (Fine l')"
  shows "link_inv l'"
proof -
  let ?i = "nat (tw_Index w)"
  have c: "0 < ?i" "?i < length (stubs l)" "stopped (stubs l ! ?i)" "helper_ok h (stubs l ! (?i - 1))"
    using link_invD(7) [OF inv] ct by (auto simp: ctl_ok_def)
  have lv: "live l = stubs l" "writers l = {}" using ct by simp_all
  show ?thesis
  proof (cases "chan_recv (chans l (Input (stubs l ! ?i)))")
    case (Value x ch)
    with r obtain l1 where p: "post_on ?i x (l\<lparr>chans := (chans l)(Input (stubs l ! ?i) := ch)\<rparr>) = Fine l1"
      and l': "l' = l1\<lparr>ctl := Stopping w h True\<rparr>"
      by (auto simp: stop_round_def set_ctl_def Let_def split: outcome.splits)
    show ?thesis
      unfolding l' by (rule inv_moved [OF inv lv c(1-3) Value p]) (use c in \<open>simp_all add: ctl_ok_def\<close>)
  next
    case Drained
    obtain as p s bs where st: "stubs l = as @ p # s # bs" "length as = ?i - 1" "stubs l ! (?i - 1) = p"
      "stubs l ! ?i = s" "stubs l = (as @ [p]) @ s # bs" "length (as @ [p]) = ?i"
      by (rule op_split [OF c(1,2)])
    let ?ct = "if h = HTaken then NoOp else Collecting w h"
    from r [unfolded stop_round_def Let_def st(4) Drained [unfolded st(4)] received.case] obtain \<sigma> s' where cl: "stub_Close (chans l) s = Fine (\<sigma>, s')"
      and l': "l' = l\<lparr>chans := \<sigma>, stubs := (stubs l)[?i := s'], ctl := ?ct\<rparr>"
      by (auto split: outcome.splits)
    note k = inv_closed [OF inv lv(1) st(5) lv(2) _ cl]
    have sp: "stopped s" using c st by simp
    have "link_inv (l\<lparr>chans := \<sigma>, stubs := (as @ [p]) @ s' # bs, ctl := ?ct\<rparr>)"
    proof (rule inv_at_op [OF inv lv(1) st(5) k(1) [OF sp] k(2) [OF sp]])
      show "ctl_ok ?ct ((as @ [p]) @ s' # bs) (link_output l) \<sigma>"
        using c st(2,3,6) by (auto simp: ctl_ok_def nth_append)
    qed (use k(5) [OF sp] in auto)
    then show ?thesis using l' stopped_nth_update(1) [OF st(5,6)] by simp
  next
    case Empty
    with r show ?thesis by (simp add: stop_round_def Let_def)
  qed
qed

lemma flush_round_inv:
  assumes inv: "link_inv l" and ct: "ctl l = Flushing w False"
    and r: "flush_round w l = Some (Fine l')"
  shows "link_inv l'"
proof -
  let ?i = "nat (tw_Index w)"
  have c: "0 < ?i" "?i < length (stubs l)" "stopped (stubs l ! ?i)" "stopped (stubs l ! (?i - 1))"
    using link_invD(7) [OF inv] ct by (auto simp: ctl_ok_def)
  have lv: "live l = stubs l" "writers l = {}" using ct by simp_all
  from r obtain x ch l1 where v: "chan_recv (chans l (Input (stubs l ! ?i))) = Value x ch"
    and p: "post_on ?i x (l\<lparr>chans := (chans l)(Input (stubs l ! ?i) := ch)\<rparr>) = Fine l1"
    and l': "l' = l1\<lparr>ctl := Flushing w True\<rparr>"
    by (auto simp: flush_round_def set_ctl_def Let_def split: outcome.splits if_splits received.splits)
  show ?thesis
    unfolding l' by (rule inv_moved [OF inv lv c(1-3) v p]) (use c in \<open>simp_all add: ctl_ok_def\<close>)
qed

text \<open>The end of a write of the operation: the chunk was taken, or it is withdrawn.\<close>

lemma op_written_inv:
  assumes inv: "link_inv l"
    and ct: "ctl l = Stopping w h True \<and> ct = Stopping w h False \<or> ctl l = Flushing w True \<and> ct = Flushing w False"
    and out: "out = Output (stubs l ! nat (tw_Index w))"
    and \<sigma>: "settled (chans l out) \<and> \<sigma> = chans l
      \<or> \<not> settled (chans l out) \<and> \<sigma> = (chans l)(out := chan_withdraw (chans l out))"
  shows "link_inv (l\<lparr>chans := \<sigma>, ctl := ct\<rparr>)"
proof -
  let ?i = "nat (tw_Index w)"
  have c: "0 < ?i" "?i < length (stubs l)" "stopped (stubs l ! ?i)"
    using link_invD(7) [OF inv] ct by (auto simp: ctl_ok_def)
  obtain as p s bs where st: "stubs l = as @ p # s # bs" "length as = ?i - 1" "stubs l ! (?i - 1) = p"
    "stubs l ! ?i = s" "stubs l = (as @ [p]) @ s # bs" "length (as @ [p]) = ?i"
    by (rule op_split [OF c(1,2)])
  have lv: "live l = stubs l" "writers l = {Input s}" using ct st(4) by auto
  have "stub_ok {Input s} (chans l) (head_chan (link_output l) bs) s"
    using link_invD(5) [OF inv] lv st(5) by (simp add: plumbed_split)
  with c(3) st(4) have o: "Output s = head_chan (link_output l) bs"
    "\<not> shut (chans l (Output s))" "length (queue (chans l (Output s))) \<le> Suc (capacity (chans l (Output s)))"
    by (auto simp: stub_ok_def stopped_def)
  have pl: "plumbed {} \<sigma> (link_output l) ((as @ [p]) @ s # bs)"
  proof (rule inv_sent [OF inv lv(1) st(5) lv(2)])
    show "stopped s" using c(3) st(4) by simp
    show "eased (chans l) \<sigma> x" if "x \<noteq> head_chan (link_output l) bs" for x
      using that \<sigma> out o(1) st(4) by (auto simp: eased_def)
    show "\<not> shut (\<sigma> (head_chan (link_output l) bs))" "settled (\<sigma> (head_chan (link_output l) bs))"
      using \<sigma> out o st(4) by (auto simp: settled_def chan_withdraw_def)
  qed
  have "link_inv (l\<lparr>chans := \<sigma>, stubs := (as @ [p]) @ s # bs, ctl := ct\<rparr>)"
  proof (rule inv_at_op [OF inv lv(1) st(5) pl])
    show "eased (chans l) \<sigma> x" if "x \<noteq> head_chan (link_output l) bs" for x
      using that \<sigma> out o(1) st(4) by (auto simp: eased_def)
    show "ctl_ok ct ((as @ [p]) @ s # bs) (link_output l) \<sigma>"
      using link_invD(7) [OF inv] ct st(5) by (auto simp: ctl_ok_def)
  qed (use ct in auto)
  then show ?thesis using st(5) by (metis ToxicLink.update_convs(1,2) ToxicLink.surjective)
qed

lemma finish_remove_inv:
  assumes inv: "link_inv l" and ct: "ctl l = Flushing w False"
    and r: "finish_remove chain ds w l = Some (Fine l')"
  shows "link_inv l'"
proof -
  let ?i = "nat (tw_Index w)" let ?out = "link_output l"
  have c: "0 < ?i" "?i < length (stubs l)" "stopped (stubs l ! ?i)" "stopped (stubs l ! (?i - 1))"
    using link_invD(7) [OF inv] ct by (auto simp: ctl_ok_def)
  obtain as p s bs where st: "stubs l = as @ p # s # bs" "length as = ?i - 1" "stubs l ! (?i - 1) = p"
    "stubs l ! ?i = s" "stubs l = (as @ [p]) @ s # bs" "length (as @ [p]) = ?i"
    by (rule op_split [OF c(1,2)])
  define p' where "p' = Run (ds 0) (chain ! (?i - 1)) (p\<lparr>Output := Output s\<rparr>)"
  have "take (?i - 1) (stubs l) = as" "drop (Suc ?i) (stubs l) = bs"
    using st(1,2) c(1) by (simp_all add: Suc_diff_le)
  with r st have l': "l' = l\<lparr>stubs := as @ p' # bs, ctl := NoOp\<rparr>"
    by (auto simp: finish_remove_def Let_def p'_def split: if_splits)
  have pl: "plumbed {} (chans l) ?out (as @ p # s # bs)" using link_invD(5) [OF inv] ct st(1) by simp
  then have s: "plumbed {} (chans l) (Input p) as" "stub_ok {} (chans l) (head_chan ?out bs) s"
    "plumbed {} (chans l) ?out bs" by (simp_all add: plumbed_split)
  have "stopped s" using c st by simp
  note o = stopped_ok [OF s(2) this, simplified]
  have "stub_ok {} (chans l) (head_chan ?out bs) p'"
    unfolding p'_def using o c(4) st(3) by (intro Run_ok) (auto simp: stopped_def)
  moreover have i: "Input p' = Input p" by (simp add: p'_def)
  ultimately have "plumbed {} (chans l) ?out (as @ p' # bs)" using s by (simp add: plumbed_split)
  moreover have "Input (hd (as @ p' # bs)) = Input (hd (stubs l))" using st(1) i by (cases as) auto
  ultimately show ?thesis
    using link_invD(1-4,6) [OF inv] l' i st(1) by (auto simp: link_inv_def ctl_ok_def)
qed

lemma interrupted_inv:
  assumes inv: "link_inv l" and on: "on_stub k AInterrupt v l = Some (Fine l1)"
    and c: "ctl_ok (ctl l1) (stubs l1) (link_output l1) (chans l1) \<Longrightarrow> exiting (stubs l1 ! k) \<Longrightarrow>
      ctl_ok ct (stubs l1) (link_output l1) (chans l1)"
    and same: "live_of ct (stubs l1) = live l1" "writers_of ct (stubs l1) = writers l1"
  shows "link_inv (l1\<lparr>ctl := ct\<rparr>)"
proof -
  have i1: "link_inv l1" using on_stub_inv [OF inv on] .
  have "exiting (stubs l1 ! k)"
    using inv on
  proof (cases rule: on_stub_cases)
    case (1 as s s' bs \<sigma>')
    have "thread_good (thread s)" using 1(11) by (simp add: stub_ok_def)
    with interrupt_exiting 1(4,12) have "exiting s'" by blast
    then show ?thesis using 1(1,5) by simp
  qed
  with c link_invD(7) [OF i1] have "ctl_ok ct (stubs l1) (link_output l1) (chans l1)" by blast
  from inv_ctl [OF i1 this] same show ?thesis by simp
qed

lemma on_stub_ctl:
  "on_stub k a v l = Some (Fine l') \<Longrightarrow> ctl l' = ctl l \<and> length (stubs l') = length (stubs l)
     \<and> link_output l' = link_output l"
  by (auto simp: on_stub_def split: if_splits option.splits outcome.splits)

lemma helper_inv:
  assumes inv: "link_inv l" and h: "helper_of l = Some (k, h)"
    and ok: "helper_ok h (stubs l ! k) \<Longrightarrow> helper_ok h' (stubs l ! k)"
  shows "link_inv (l\<lparr>ctl := set_helper h' (ctl l)\<rparr>)"
  by (rule inv_ctl [OF inv])
    (use h ok link_invD(7) [OF inv] in
      \<open>auto simp: helper_of_def ctl_ok_def split: control.splits elim!: writers_of_cases\<close>)

lemma map_fine:
  "map_option (\<lambda>r. case r of Fine x \<Rightarrow> Fine (f x) | Crash \<Rightarrow> Crash) m = Some (Fine y)
     \<longleftrightarrow> (\<exists>x. m = Some (Fine x) \<and> y = f x)"
  "map_option (\<lambda>r. case r of Fine x \<Rightarrow> Fine (f x) | Crash \<Rightarrow> Crash) m = Some Crash \<longleftrightarrow> m = Some Crash"
  by (cases m; cases "the m"; auto)+

lemma link_step_inv:
  assumes inv: "link_inv l" and st: "link_step chain a l = Some (Fine l')"
  shows "link_inv l'"
proof (cases a)
  case (ReadChunk bs tm)
  with st obtain ch where l': "l' = l\<lparr>chans := (chans l)(link_input l := ch), read_state := RBlocked, taken := taken l @ bs\<rparr>"
    and "\<not> shut ch"
    by (auto simp: ChanWriter_Write_def chan_send_def split: if_splits)
  then show ?thesis using inv_at_input [OF inv] by simp
next
  case ReadSent
  with st have "l' = l\<lparr>read_state := RReady\<rparr>" and "read_state l = RBlocked" by (auto split: if_splits)
  then show ?thesis using inv by (auto simp: link_inv_def)
next
  case ReadEnd
  with st obtain ch where l': "l' = l\<lparr>chans := (chans l)(link_input l := ch), read_state := RDone, taken := taken l\<rparr>"
    by (auto simp: ChanWriter_Close_def chan_close_def split: if_splits)
  show ?thesis unfolding l' by (rule inv_at_input [OF inv]) simp
next
  case (StubAct k a v)
  with st show ?thesis using on_stub_inv [OF inv] by (auto split: if_splits)
next
  case WriteChunk
  with st obtain c ch where "chan_recv (chans l (link_output l)) = Value c ch"
    and "l' = l\<lparr>chans := (chans l)(link_output l := ch), delivered := delivered l @ Data c\<rparr>"
    by (auto split: if_splits received.splits)
  then show ?thesis using inv_at_output [OF inv] by simp
next
  case WriteEnd
  with st have "l' = l\<lparr>write_state := WDone\<rparr>" by (auto split: if_splits)
  then show ?thesis using inv by (auto simp: link_inv_def)
next
  case OpClosed
  with st show ?thesis using after_closed_inv [OF inv]
    by (auto split: option.splits phase.splits if_splits)
next
  case (OpInterrupt v)
  with st obtain k l1 where t: "ctl_target l = Some (k, Asking)" and on: "on_stub k AInterrupt v l = Some (Fine l1)"
    and l': "l' = l1\<lparr>ctl := set_phase Waiting (ctl l1)\<rparr>"
    by (auto simp: map_fine simp del: map_option_eq_Some split: option.splits phase.splits)
  note f = on_stub_ctl [OF on]
  show ?thesis unfolding l'
  proof (rule interrupted_inv [OF inv on])
    show "live_of (set_phase Waiting (ctl l1)) (stubs l1) = live l1"
      "writers_of (set_phase Waiting (ctl l1)) (stubs l1) = writers l1"
      using t f by (cases "ctl l"; auto simp: ctl_target_def)+
    show "ctl_ok (set_phase Waiting (ctl l1)) (stubs l1) (link_output l1) (chans l1)"
      if "ctl_ok (ctl l1) (stubs l1) (link_output l1) (chans l1)" "exiting (stubs l1 ! k)"
      using t f that by (cases "ctl l") (auto simp: ctl_target_def ctl_ok_def)
  qed
next
  case (OpExited ds)
  with st show ?thesis using after_exited_inv [OF inv]
    by (auto split: option.splits phase.splits if_splits)
next
  case HelpClosed
  with st obtain k where "helper_of l = Some (k, HAsking)" "is_closed (stubs l ! k)"
    "l' = l\<lparr>ctl := set_helper (HResult False) (ctl l)\<rparr>"
    by (auto split: option.splits helper.splits if_splits)
  then show ?thesis using helper_inv [OF inv] by (simp add: helper_ok_def)
next
  case (HelpInterrupt v)
  with st obtain k l1 where t: "helper_of l = Some (k, HAsking)" and on: "on_stub k AInterrupt v l = Some (Fine l1)"
    and l': "l' = l1\<lparr>ctl := set_helper HWaiting (ctl l1)\<rparr>"
    by (auto simp: map_fine simp del: map_option_eq_Some split: option.splits helper.splits)
  note f = on_stub_ctl [OF on]
  show ?thesis unfolding l'
  proof (rule interrupted_inv [OF inv on])
    show "live_of (set_helper HWaiting (ctl l1)) (stubs l1) = live l1"
      using t f by (cases "ctl l") (auto simp: helper_of_def)
    show "writers_of (set_helper HWaiting (ctl l1)) (stubs l1) = writers l1"
      using t f by (cases "(ctl l1, stubs l1)" rule: writers_of.cases) (auto simp: helper_of_def)
    show "ctl_ok (set_helper HWaiting (ctl l1)) (stubs l1) (link_output l1) (chans l1)"
      if "ctl_ok (ctl l1) (stubs l1) (link_output l1) (chans l1)" "exiting (stubs l1 ! k)"
      using t f that by (cases "ctl l") (auto simp: helper_of_def ctl_ok_def helper_ok_def)
  qed
next
  case HelpExited
  with st obtain k where "helper_of l = Some (k, HWaiting)" "thread (stubs l ! k) = Exited"
    "l' = l\<lparr>ctl := set_helper (HResult True) (ctl l)\<rparr>"
    by (auto split: option.splits helper.splits if_splits)
  then show ?thesis using helper_inv [OF inv] by (auto simp: helper_ok_def exiting_def stopped_def)
next
  case OpResult
  with st obtain w b where ct: "ctl l = Stopping w (HResult b) False"
    and l': "l' = l\<lparr>ctl := if b then Flushing w False else Stopping w HTaken False\<rparr>"
    by (auto split: control.splits helper.splits bool.splits)
  show ?thesis unfolding l'
    by (rule inv_ctl [OF inv])
      (use ct link_invD(7) [OF inv] in \<open>auto simp: ctl_ok_def helper_ok_def\<close>)
next
  case OpRound
  with st consider w h where "ctl l = Stopping w h False" "stop_round w h l = Some (Fine l')"
    | w where "ctl l = Flushing w False" "flush_round w l = Some (Fine l')"
    by (auto split: control.splits bool.splits)
  then show ?thesis using stop_round_inv [OF inv] flush_round_inv [OF inv] by cases blast+
next
  case OpSent
  with st obtain w h ct where
    "ctl l = Stopping w h True \<and> ct = Stopping w h False \<or> ctl l = Flushing w True \<and> ct = Flushing w False"
    "settled (chans l (Output (stubs l ! nat (tw_Index w))))" "l' = l\<lparr>ctl := ct\<rparr>"
    by (auto split: control.splits bool.splits if_splits)
  then show ?thesis using op_written_inv [OF inv _ refl, where \<sigma> = "chans l"] by simp
next
  case OpTimeout
  with st obtain w h out \<sigma> ct where
    "ctl l = Stopping w h True \<and> ct = Stopping w h False \<or> ctl l = Flushing w True \<and> ct = Flushing w False"
    "out = Output (stubs l ! nat (tw_Index w))" "\<not> settled (chans l out)"
    "\<sigma> = (chans l)(out := chan_withdraw (chans l out))" "l' = l\<lparr>chans := \<sigma>, ctl := ct\<rparr>"
    by (auto simp: Let_def split: control.splits bool.splits if_splits)
  then show ?thesis using op_written_inv [OF inv] by metis
next
  case OpCollect
  with st obtain w b where "ctl l = Collecting w (HResult b)" "l' = l\<lparr>ctl := NoOp\<rparr>"
    by (auto split: control.splits helper.splits)
  then show ?thesis using inv_ctl [OF inv, of NoOp] by (simp add: ctl_ok_def)
next
  case (OpFinish ds)
  with st show ?thesis using finish_remove_inv [OF inv] by (auto split: control.splits bool.splits)
qed

lemma link_AddToxic_inv:
  assumes inv: "link_inv l" and ct: "ctl l = NoOp" and r: "link_AddToxic w l = Fine l'"
  shows "link_inv l'"
proof -
  let ?new = "next_chan l" let ?p = "stubs l ! (length (stubs l) - 1)" let ?out = "link_output l"
  define n where "n = NewToxicStub ?new (Output ?p)"
  define \<sigma> where "\<sigma> = (chans l)(?new := make_chan (tw_BufferSize w))"
  have l': "l' = l\<lparr>chans := \<sigma>, next_chan := Suc ?new, stubs := stubs l @ [n], ctl := Adding w Asking\<rparr>"
    using r by (auto simp: link_AddToxic_def Let_def n_def \<sigma>_def split: if_splits)
  have n: "Input n = ?new" "stopped n" "Output n = Output ?p"
    by (simp_all add: n_def NewToxicStub_def stopped_def)
  have old: "c \<in> insert ?out (Input ` set (stubs l)) \<Longrightarrow> c < ?new" for c
    using link_invD(2) [OF inv, of c] by auto
  then have fresh: "c \<in> insert ?out (Input ` set (stubs l)) \<Longrightarrow> \<sigma> c = chans l c" for c
    by (auto simp: \<sigma>_def)
  have pl: "plumbed {} (chans l) ?out (stubs l)" using link_invD(5) [OF inv] ct by simp
  then have "plumbed {} \<sigma> ?out (stubs l)"
    by (rule plumbed_eased) (use fresh targets_Cons_subset [of ?out "stubs l"] in auto)
  moreover obtain as where st: "stubs l = as @ [?p]"
    using link_invD(3) [OF inv] by (metis append_butlast_last_id last_conv_nth)
  then have "stub_ok {} (chans l) ?out ?p" using pl by (metis head_chan_simps(1) plumbed_split)
  then have "\<not> is_closed ?p \<longrightarrow> Output n = ?out" using n by (auto simp: stub_ok_def)
  then have "ctl_ok (Adding w Asking) (stubs l @ [n]) ?out \<sigma>"
    using n link_invD(3) [OF inv]
    by (auto simp: ctl_ok_def fresh_ok_def \<sigma>_def make_chan_def nth_append Suc_le_eq)
  moreover have "link_input l \<in> Input ` set (stubs l)"
    using link_invD(3,4) [OF inv] by simp
  then have "\<sigma> (link_input l) = chans l (link_input l)" using fresh by blast
  moreover have "?new \<noteq> ?out" "?new \<notin> Input ` set (stubs l)" using old by blast+
  ultimately show ?thesis
    using link_invD(1,3,4,6) [OF inv] old n l' by (auto simp: link_inv_def less_SucI)
qed

lemma link_event_inv:
  assumes inv: "link_inv l" and st: "link_event_step chain e l = Some (Fine l')"
  shows "link_inv l'"
proof (cases e)
  case (Step a)
  with st link_step_inv [OF inv] show ?thesis by (simp add: link_event_step_def)
next
  case (BeginAdd w)
  with st link_AddToxic_inv [OF inv] show ?thesis by (simp add: link_event_step_def split: if_splits)
next
  case (BeginUpdate w)
  with st have "ctl l = NoOp" "l' = l\<lparr>ctl := Updating w Asking\<rparr>" "nat (tw_Index w) < length (stubs l)"
    by (auto simp: link_event_step_def link_UpdateToxic_def split: if_splits)
  then show ?thesis using inv_ctl [OF inv, of "Updating w Asking"] by (simp add: ctl_ok_def)
next
  case (BeginRemove w)
  with st have "ctl l = NoOp" "l' = l\<lparr>ctl := Removing w Asking\<rparr>" "nat (tw_Index w) < length (stubs l)"
    "1 \<le> tw_Index w"
    by (auto simp: link_event_step_def link_RemoveToxic_def split: if_splits)
  then show ?thesis using inv_ctl [OF inv, of "Removing w Asking"] by (simp add: ctl_ok_def)
qed

lemma link_run_inv: "link_inv l \<Longrightarrow> link_run es l = Some (Fine l') \<Longrightarrow> link_inv l'"
proof (induction es arbitrary: l)
  case (Cons ce es)
  obtain chain e where ce: "ce = (chain, e)" by (cases ce)
  with Cons.prems obtain l1 where "link_event_step chain e l = Some (Fine l1)" "link_run es l1 = Some (Fine l')"
    by (auto split: option.splits outcome.splits)
  with Cons link_event_inv show ?case by blast
qed simp

subsection \<open>A new link\<close>

lemma make_stubs_laws:
  assumes "make_stubs ws \<sigma> n = (ss, \<sigma>', out)"
  shows "out = n + length ws" "length ss = length ws" "map Input ss = [n..<n + length ws]"
    and "\<And>s. s \<in> set ss \<Longrightarrow> thread s = Exited \<and> \<not> is_closed s"
    and "\<And>c. c \<le> n \<Longrightarrow> \<sigma>' c = \<sigma> c" "\<And>c. queue (\<sigma> c) = [] \<Longrightarrow> queue (\<sigma>' c) = []"
    and "\<And>c. \<not> shut (\<sigma> c) \<Longrightarrow> \<not> shut (\<sigma>' c)"
    and "\<And>i. i < length ss \<Longrightarrow> Output (ss ! i) = Suc (n + i)"
proof -
  have "out = n + length ws \<and> length ss = length ws \<and> map Input ss = [n..<n + length ws]
    \<and> (\<forall>s \<in> set ss. thread s = Exited \<and> \<not> is_closed s) \<and> (\<forall>c \<le> n. \<sigma>' c = \<sigma> c)
    \<and> (\<forall>c. queue (\<sigma> c) = [] \<longrightarrow> queue (\<sigma>' c) = []) \<and> (\<forall>c. \<not> shut (\<sigma> c) \<longrightarrow> \<not> shut (\<sigma>' c))
    \<and> (\<forall>i < length ss. Output (ss ! i) = Suc (n + i))"
    using assms
  proof (induction ws arbitrary: \<sigma> n ss \<sigma>' out)
    case Nil
    then show ?case by simp
  next
    case (Cons w ws)
    define cap where "cap = (case ws of [] \<Rightarrow> 0 | w' # _ \<Rightarrow> tw_BufferSize w')"
    obtain ss1 \<sigma>1 out1 where m: "make_stubs ws (\<sigma>(Suc n := make_chan cap)) (Suc n) = (ss1, \<sigma>1, out1)"
      by (metis prod_cases3)
    with Cons.prems have e: "ss = NewToxicStub n (Suc n) # ss1" "\<sigma>' = \<sigma>1" "out = out1"
      by (auto simp: Let_def cap_def)
    from Cons.IH [OF m] show ?case
      unfolding e by (auto simp: NewToxicStub_def make_chan_def upt_rec nth_Cons split: nat.splits)
  qed
  then show "out = n + length ws" "length ss = length ws" "map Input ss = [n..<n + length ws]"
    "\<And>s. s \<in> set ss \<Longrightarrow> thread s = Exited \<and> \<not> is_closed s"
    "\<And>c. c \<le> n \<Longrightarrow> \<sigma>' c = \<sigma> c" "\<And>c. queue (\<sigma> c) = [] \<Longrightarrow> queue (\<sigma>' c) = []"
    "\<And>c. \<not> shut (\<sigma> c) \<Longrightarrow> \<not> shut (\<sigma>' c)"
    "\<And>i. i < length ss \<Longrightarrow> Output (ss ! i) = Suc (n + i)"
    by auto
qed

lemma plumbed_nth:
  "(\<And>i. i < length ss \<Longrightarrow> stub_ok W \<sigma> (if Suc i < length ss then Input (ss ! Suc i) else out) (ss ! i)) \<Longrightarrow>
     plumbed W \<sigma> out ss"
proof (induction ss)
  case (Cons s ss)
  have "stub_ok W \<sigma> (head_chan out ss) s" using Cons.prems [of 0] by (cases ss) auto
  moreover have "plumbed W \<sigma> out ss"
  proof (rule Cons.IH)
    fix i assume "i < length ss"
    with Cons.prems [of "Suc i"]
    show "stub_ok W \<sigma> (if Suc i < length ss then Input (ss ! Suc i) else out) (ss ! i)"
      by (cases "Suc i < length ss") simp_all
  qed
  ultimately show ?case by simp
qed simp

definition new_link :: "(nat \<Rightarrow> rat) \<Rightarrow> ToxicWrapper list \<Rightarrow> direction \<Rightarrow> ToxicLink" where
  "new_link ds chain dir = link_Start ds chain (NewToxicLink chain dir)"

lemma new_link_fields:
  assumes "make_stubs chain (\<lambda>_. make_chan 0) 0 = (ss, \<sigma>, out)"
  shows "stubs (new_link ds chain dir) = map (\<lambda>i. Run (ds i) (chain ! i) (ss ! i)) [0..<length chain]"
    and "chans (new_link ds chain dir) = \<sigma>" "next_chan (new_link ds chain dir) = Suc (length chain)"
    and "link_input (new_link ds chain dir) = 0" "link_output (new_link ds chain dir) = length chain"
    and "read_state (new_link ds chain dir) = RReady" "ctl (new_link ds chain dir) = NoOp"
    and "taken (new_link ds chain dir) = []" "delivered (new_link ds chain dir) = []"
  using make_stubs_laws(1,2) [OF assms] assms
  by (simp_all add: new_link_def link_Start_def NewToxicLink_def)

lemma new_link_inv:
  assumes "chain \<noteq> []"
  shows "link_inv (new_link ds chain dir)"
proof -
  let ?l = "new_link ds chain dir"
  obtain ss \<sigma> out where m: "make_stubs chain (\<lambda>_. make_chan 0) 0 = (ss, \<sigma>, out)"
    by (metis prod_cases3)
  note k = make_stubs_laws [OF m] note f = new_link_fields [OF m, of ds dir]
  have i: "Input (ss ! i) = i" if "i < length chain" for i
    using k(2,3) that by (metis add_0 length_map nth_map nth_upt)
  have ins: "map Input (stubs ?l) = [0..<length chain]"
    unfolding f(1) using i by (auto simp: o_def intro: nth_equalityI)
  have q: "queue (\<sigma> c) = []" "\<not> shut (\<sigma> c)" for c
    using k(6,7) [of c] by (simp_all add: make_chan_def)
  have "plumbed {} \<sigma> (length chain) (stubs ?l)"
  proof (rule plumbed_nth)
    fix j assume j: "j < length (stubs ?l)"
    then have j': "j < length chain" by (simp add: f(1))
    have "ss ! j \<in> set ss" using j' k(2) by simp
    then have c: "\<not> is_closed (ss ! j)" using k(4) by blast
    have nx: "(if Suc j < length (stubs ?l) then Input (stubs ?l ! Suc j) else length chain) = Suc j"
      using j' i by (auto simp: f(1))
    show "stub_ok {} \<sigma> (if Suc j < length (stubs ?l) then Input (stubs ?l ! Suc j) else length chain)
        (stubs ?l ! j)"
      unfolding nx using j' k(2,8) q c by (auto simp: f(1) settled_def intro!: Run_ok)
  qed
  moreover have "stubs ?l \<noteq> []" using assms by (simp add: f(1))
  moreover have "Input (hd (stubs ?l)) = 0"
    using ins assms by (metis hd_map hd_upt length_greater_0_conv list.map_disc_iff calculation(2))
  moreover have "set (link_output ?l # map Input (stubs ?l)) = {0..length chain}"
    unfolding ins f(5) by auto
  moreover have "distinct (link_output ?l # map Input (stubs ?l))" unfolding ins f(5) by simp
  ultimately show ?thesis
    unfolding link_inv_def using f(2-7) q by (simp add: ctl_ok_def less_Suc_eq_le)
qed

end
