(* ===== verification/LinkSafe.thy ===== *)
theory LinkSafe
  imports LinkInv
begin

text \<open>
  What can make the process crash in \<open>link.go\<close>: never a channel (no send on a closed
  channel, none closed twice), only an index expression or a toxic that panics itself.
\<close>

text \<open>The stub that an event lets run, with its step.\<close>

definition acting :: "ToxicLink \<Rightarrow> link_event \<Rightarrow> (nat \<times> stub_act \<times> environment) option" where
  "acting l e = (case e of
       Step (StubAct k a v) \<Rightarrow> Some (k, a, v)
     | Step (OpInterrupt v) \<Rightarrow> map_option (\<lambda>(k, ph). (k, AInterrupt, v)) (ctl_target l)
     | Step (HelpInterrupt v) \<Rightarrow> map_option (\<lambda>(k, h). (k, AInterrupt, v)) (helper_of l)
     | _ \<Rightarrow> None)"

text \<open>The step of the toxic's own code panics.\<close>

definition toxic_panics :: "ToxicLink \<Rightarrow> link_event \<Rightarrow> bool" where
  "toxic_panics l e \<longleftrightarrow> (\<exists>k a v p ev. acting l e = Some (k, a, v) \<and> k < length (stubs l)
     \<and> thread (stubs l ! k) \<in> {Running p, Sending p, Writing p}
     \<and> accepts (Pipe_offer p) ev \<and> Pipe_step p v ev = Panicked)"

text \<open>The index expressions of \<open>link.go\<close> that are out of range.\<close>

definition index_panics :: "ToxicWrapper list \<Rightarrow> ToxicLink \<Rightarrow> link_event \<Rightarrow> bool" where
  "index_panics chain l e = (case e of
       BeginUpdate w \<Rightarrow> tw_Index w < 0 \<or> length (stubs l) \<le> nat (tw_Index w)
     | BeginRemove w \<Rightarrow> tw_Index w < 1 \<or> length (stubs l) \<le> nat (tw_Index w)
     | Step (OpExited ds) \<Rightarrow>
         (case ctl l of Adding w ph \<Rightarrow> length chain \<le> length (stubs l) - 2 | _ \<Rightarrow> False)
     | Step (OpFinish ds) \<Rightarrow>
         (case ctl l of Flushing w b \<Rightarrow> length chain \<le> nat (tw_Index w) - 1 | _ \<Rightarrow> False)
     | _ \<Rightarrow> False)"

lemma stub_step_Crash:
  assumes ok: "stub_ok W \<sigma> nx s" and io: "Input s \<noteq> nx" and st: "stub_step a v \<sigma> s = Some Crash"
  shows "\<exists>p ev. thread s \<in> {Running p, Sending p, Writing p} \<and> accepts (Pipe_offer p) ev
    \<and> Pipe_step p v ev = Panicked"
proof -
  from st have t: "thread s \<noteq> Exited" by (rule stub_step_thread)
  with ok have o: "Output s = nx" "\<not> shut (\<sigma> nx)" "\<not> is_closed s" "thread_good (thread s)"
    by (auto simp: stub_ok_def)
  show ?thesis
  proof (cases a)
    case ARecv
    with st o io show ?thesis
      by (auto simp: resume_Crash chan_recv_Value simp del: accepts.simps
          split: goroutine.splits if_splits received.splits)
        (metis accepts_event_simps(1,2))+
  next
    case APost
    with st o show ?thesis
      by (auto simp: chan_send_def split: goroutine.splits option.splits if_splits)
  next
    case ASent
    with st obtain p where "thread s = Sending p \<or> thread s = Writing p"
      "resume (Pipe_step p v Sent) \<sigma> s = Crash"
      by (auto split: goroutine.splits if_splits)
    with o have "Pipe_step p v Sent = Panicked" "accepts (Pipe_offer p) Sent"
      by (auto simp: resume_Crash)
    with \<open>thread s = Sending p \<or> thread s = Writing p\<close> show ?thesis by blast
  next
    case ATimeout
    with st obtain p where "thread s = Writing p"
      "resume (Pipe_step p v WriteTimedOut) (\<sigma>(Output s := chan_withdraw (\<sigma> (Output s)))) s = Crash"
      by (auto split: goroutine.splits if_splits)
    with o have "Pipe_step p v WriteTimedOut = Panicked" "accepts (Pipe_offer p) WriteTimedOut"
      by (auto simp: resume_Crash chan_withdraw_def)
    with \<open>thread s = Writing p\<close> show ?thesis by blast
  next
    case ATimer
    with st obtain p where "thread s = Running p" "accepts (Pipe_offer p) TimerFired"
      "resume (Pipe_step p v TimerFired) \<sigma> s = Crash"
      by (auto simp del: accepts_event_simps accepts.simps split: goroutine.splits if_splits)
    with o have "Pipe_step p v TimerFired = Panicked" by (simp add: resume_Crash)
    with \<open>thread s = Running p\<close> \<open>accepts (Pipe_offer p) TimerFired\<close> show ?thesis by blast
  next
    case AInterrupt
    with st obtain p where "thread s = Running p" "accepts (Pipe_offer p) Interrupted"
      "resume (Pipe_step p v Interrupted) \<sigma> s = Crash"
      by (auto simp del: accepts_event_simps accepts.simps split: goroutine.splits if_splits)
    with o have "Pipe_step p v Interrupted = Panicked" by (simp add: resume_Crash)
    with \<open>thread s = Running p\<close> \<open>accepts (Pipe_offer p) Interrupted\<close> show ?thesis by blast
  qed
qed

lemma on_stub_Crash:
  assumes inv: "link_inv l" and on: "on_stub k a v l = Some Crash"
  shows "k < length (stubs l) \<and> (\<exists>p ev. thread (stubs l ! k) \<in> {Running p, Sending p, Writing p}
    \<and> accepts (Pipe_offer p) ev \<and> Pipe_step p v ev = Panicked)"
proof -
  from on have k: "k < length (stubs l)" and st: "stub_step a v (chans l) (stubs l ! k) = Some Crash"
    by (auto simp: on_stub_def split: if_splits option.splits outcome.splits)
  have "\<not> stopped (stubs l ! k)" using stub_step_thread [OF st] by (simp add: stopped_def)
  from live_stub [OF inv k disjI1 [OF this]] obtain as bs where ab: "live l = as @ (stubs l ! k) # bs"
    by metis
  have "stub_ok (writers l) (chans l) (head_chan (link_output l) bs) (stubs l ! k)"
    using link_invD(5) [OF inv] ab by (simp add: plumbed_split)
  moreover have "Input (stubs l ! k) \<noteq> head_chan (link_output l) bs"
    using live_distinct [OF inv] ab by (cases bs) auto
  ultimately show ?thesis using k stub_step_Crash [OF _ _ st] by blast
qed

lemma after_closed_fine:
  assumes inv: "link_inv l" shows "after_closed l \<noteq> Crash"
proof (cases "\<exists>w ph. ctl l = Adding w ph")
  case True
  then obtain w ph where ad: "ctl l = Adding w ph" by blast
  then have "fresh_ok (chans l) (last (stubs l))"
    using link_invD(7) [OF inv] by (simp add: ctl_ok_def)
  then have "fresh_ok (chans l) (stubs l ! (length (stubs l) - 1))"
    using link_invD(3) [OF inv] by (simp add: last_conv_nth)
  then show ?thesis
    using ad by (auto simp: after_closed_def Let_def stub_Close_def stub_Closed_def chan_close_def
        fresh_ok_def stopped_def split: option.splits outcome.splits)
qed (auto simp: after_closed_def split: control.splits)

lemma stop_round_fine:
  assumes inv: "link_inv l" and ct: "ctl l = Stopping w h False \<or> ctl l = Flushing w False"
  shows "stop_round w h' l \<noteq> Some Crash" and "flush_round w l \<noteq> Some Crash"
proof -
  let ?i = "nat (tw_Index w)"
  have c: "0 < ?i" "?i < length (stubs l)" "stopped (stubs l ! ?i)"
    using link_invD(7) [OF inv] ct by (auto simp: ctl_ok_def)
  obtain as p s bs where st: "stubs l = as @ p # s # bs" "length as = ?i - 1" "stubs l ! (?i - 1) = p"
    "stubs l ! ?i = s" "stubs l = (as @ [p]) @ s # bs" "length (as @ [p]) = ?i"
    by (rule op_split [OF c(1,2)])
  have lv: "live l = stubs l" "writers l = {}" using ct by auto
  have "stub_ok {} (chans l) (head_chan (link_output l) bs) s"
    using link_invD(5) [OF inv] lv st(5) by (simp add: plumbed_split)
  from stopped_ok [OF this] c(3) st(4) have o: "\<not> shut (chans l (Output s))" "Output s = head_chan (link_output l) bs"
    by auto
  have "distinct (link_output l # map Input (as @ p # s # bs))" using link_invD(1) [OF inv] st(1) by simp
  then have ne: "Output s \<noteq> Input s" using o(2) distinct_inputs(1) by metis
  have "post_on ?i x (l\<lparr>chans := (chans l)(Input s := ch)\<rparr>) \<noteq> Crash" for x ch
    using o ne st(4) by (auto simp: post_on_def Let_def chan_send_def)
  moreover have "stub_Close (chans l) s \<noteq> Crash"
    using o by (auto simp: stub_Close_def chan_close_def)
  ultimately show "stop_round w h' l \<noteq> Some Crash" "flush_round w l \<noteq> Some Crash"
    using st(4) by (auto simp: stop_round_def flush_round_def set_ctl_def Let_def
        split: received.splits outcome.splits)
qed

lemma link_event_Crash:
  assumes inv: "link_inv l" and st: "link_event_step chain e l = Some Crash"
  shows "toxic_panics l e \<or> index_panics chain l e"
proof (cases e)
  case (Step a)
  with st have st': "link_step chain a l = Some Crash" by (simp add: link_event_step_def)
  show ?thesis
  proof (cases a)
    case (ReadChunk bs tm)
    with st' link_invD(6) [OF inv] show ?thesis
      by (auto simp: ChanWriter_Write_def chan_send_def split: if_splits)
  next
    case ReadEnd
    with st' link_invD(6) [OF inv] show ?thesis
      by (auto simp: ChanWriter_Close_def chan_close_def split: if_splits)
  next
    case (StubAct k x v)
    with st' have "on_stub k x v l = Some Crash" by (auto split: if_splits)
    from on_stub_Crash [OF inv this] StubAct Step show ?thesis
      by (auto simp: toxic_panics_def acting_def)
  next
    case OpClosed
    with st' after_closed_fine [OF inv] show ?thesis
      by (auto split: option.splits phase.splits if_splits)
  next
    case (OpInterrupt v)
    with st' obtain k where t: "ctl_target l = Some (k, Asking)" "on_stub k AInterrupt v l = Some Crash"
      by (auto simp: map_fine simp del: map_option_eq_Some split: option.splits phase.splits)
    from on_stub_Crash [OF inv t(2)] t(1) OpInterrupt Step show ?thesis
      by (auto simp: toxic_panics_def acting_def)
  next
    case (OpExited ds)
    with st' obtain k where "ctl_target l = Some (k, Waiting)" "after_exited chain ds l = Crash"
      by (auto split: option.splits phase.splits if_splits)
    with OpExited Step show ?thesis
      by (auto simp: after_exited_def index_panics_def Let_def numeral_2_eq_2 split: control.splits if_splits)
  next
    case (HelpInterrupt v)
    with st' obtain k where t: "helper_of l = Some (k, HAsking)" "on_stub k AInterrupt v l = Some Crash"
      by (auto simp: map_fine simp del: map_option_eq_Some split: option.splits helper.splits)
    from on_stub_Crash [OF inv t(2)] t(1) HelpInterrupt Step show ?thesis
      by (auto simp: toxic_panics_def acting_def)
  next
    case OpRound
    with st' stop_round_fine [OF inv] show ?thesis by (auto split: control.splits bool.splits)
  next
    case (OpFinish ds)
    with st' obtain w where "ctl l = Flushing w False" "finish_remove chain ds w l = Some Crash"
      by (auto split: control.splits bool.splits)
    with OpFinish Step show ?thesis
      by (auto simp: finish_remove_def index_panics_def Let_def split: if_splits)
  qed (use st' in \<open>auto simp: Let_def split: if_splits option.splits control.splits helper.splits bool.splits received.splits\<close>)
next
  case (BeginAdd w)
  with st link_invD(3) [OF inv] show ?thesis
    by (auto simp: link_event_step_def link_AddToxic_def Let_def split: if_splits)
next
  case (BeginUpdate w)
  with st show ?thesis
    by (auto simp: link_event_step_def link_UpdateToxic_def index_panics_def split: if_splits)
next
  case (BeginRemove w)
  with st show ?thesis
    by (auto simp: link_event_step_def link_RemoveToxic_def index_panics_def split: if_splits)
qed

lemma link_run_Crash:
  "link_inv l \<Longrightarrow> link_run es l = Some Crash \<Longrightarrow>
     \<exists>done chain e rest l'. es = done @ (chain, e) # rest \<and> link_run done l = Some (Fine l')
       \<and> (toxic_panics l' e \<or> index_panics chain l' e)"
proof (induction es arbitrary: l)
  case (Cons ce es)
  obtain chain e where ce: "ce = (chain, e)" by (cases ce)
  from Cons.prems ce obtain r where r: "link_event_step chain e l = Some r"
    by (auto split: option.splits)
  show ?case
  proof (cases r)
    case Crash
    with link_event_Crash [OF Cons.prems(1)] r ce show ?thesis
      by (metis append_Nil link_run.simps(1))
  next
    case (Fine l1)
    with r Cons.prems ce have "link_inv l1" "link_run es l1 = Some Crash"
      using link_event_inv by auto
    from Cons.IH [OF this] obtain d ch e' rest l' where *: "es = d @ (ch, e') # rest"
      "link_run d l1 = Some (Fine l')" "toxic_panics l' e' \<or> index_panics ch l' e'" by blast
    from * r Fine ce have "ce # es = ((chain, e) # d) @ (ch, e') # rest"
      "link_run ((chain, e) # d) l = Some (Fine l')" by simp_all
    with *(3) show ?thesis by blast
  qed
qed simp

text \<open>Whatever the interleaving of the goroutines of a link with additions, updates and
  removals of toxics, a crash of the process has one of two causes: an index expression of
  \<open>link.go\<close> is out of range, or the code of a toxic panics by itself. In particular no
  goroutine ever sends on a closed channel and no channel is closed twice.\<close>

theorem link_crash_causes:
  assumes "chain \<noteq> []" and "link_run es (new_link ds chain dir) = Some Crash"
  shows "\<exists>done ch e rest l. es = done @ (ch, e) # rest \<and> link_run done (new_link ds chain dir) = Some (Fine l)
    \<and> (toxic_panics l e \<or> index_panics ch l e)"
  using link_run_Crash [OF new_link_inv [OF assms(1)] assms(2)] .

subsection \<open>A crash of AddToxic\<close>

definition some_toxic :: "toxic \<Rightarrow> string \<Rightarrow> int \<Rightarrow> ToxicWrapper" where
  "some_toxic t n i = \<lparr>tw_Toxic = t, tw_Name = n, tw_Type = ''noop'', tw_Stream = ''upstream'',
     tw_Toxicity = 1, tw_Direction = Upstream, tw_Index = i, tw_BufferSize = 0\<rparr>"

definition idle :: environment where
  "idle = \<lparr>now = 0, draws = \<lambda>_. 0\<rparr>"

text \<open>
  A chain of four toxics, the last one holding a chunk for a second, when the source of the
  link ends: the first three stubs close, the last is still open. Two toxics are removed
  (nothing is done to the link, as their stubs are closed) and a new one is added.
\<close>

definition four_toxics :: "ToxicWrapper list" where
  "four_toxics = [some_toxic NoopToxic [] 0, some_toxic NoopToxic ''a'' 1, some_toxic NoopToxic ''b'' 2,
     some_toxic (LatencyT \<lparr>Latency = 1000, Jitter = 0\<rparr>) ''c'' 3]"

definition source_ends :: "link_event list" where
  "source_ends = map Step
     ([ReadChunk [7] 0, StubAct 0 ARecv idle, StubAct 0 APost idle, StubAct 1 ARecv idle,
       StubAct 0 ASent idle, StubAct 1 APost idle, StubAct 2 ARecv idle, StubAct 1 ASent idle,
       StubAct 2 APost idle, StubAct 3 ARecv idle, StubAct 2 ASent idle, ReadSent, ReadEnd,
       StubAct 0 ARecv idle, StubAct 1 ARecv idle, StubAct 2 ARecv idle])"

definition half_closed_run :: "(ToxicWrapper list \<times> link_event) list" where
  "half_closed_run =
     (let n = four_toxics ! 0; a = four_toxics ! 1; b = four_toxics ! 2; c = four_toxics ! 3;
          b' = b\<lparr>tw_Index := 1\<rparr>; c' = c\<lparr>tw_Index := 1\<rparr>; d = some_toxic NoopToxic ''d'' 2
      in map (Pair four_toxics) source_ends
         @ map (Pair [n, b, c]) [BeginRemove a, Step OpClosed]
         @ map (Pair [n, c]) [BeginRemove b', Step OpClosed]
         @ map (Pair [n, c', d]) [BeginAdd d, Step (OpInterrupt idle), Step (StubAct 3 APost idle),
             Step WriteChunk, Step (StubAct 3 ASent idle), Step (OpExited (\<lambda>_. 0))])"

definition crashed :: "'a outcome option \<Rightarrow> bool" where
  "crashed r = (case r of Some Crash \<Rightarrow> True | _ \<Rightarrow> False)"

lemma crashed_iff: "crashed r \<longleftrightarrow> r = Some Crash"
  by (simp add: crashed_def split: option.splits outcome.splits)

definition alive :: "'a outcome option \<Rightarrow> bool" where
  "alive r = (case r of Some (Fine x) \<Rightarrow> True | _ \<Rightarrow> False)"

lemma alive_iff: "alive r \<longleftrightarrow> (\<exists>x. r = Some (Fine x))"
  by (simp add: alive_def split: option.splits outcome.splits)

lemma update_out_of_range:
  "crashed (link_run [(four_toxics, BeginUpdate (some_toxic NoopToxic ''x'' 9))]
     (new_link (\<lambda>_. 0) four_toxics Upstream))"
  by code_simp

theorem link_crash_causes_witness:
  "four_toxics \<noteq> [] \<and> (\<exists>done ch e rest l.
     [(four_toxics, BeginUpdate (some_toxic NoopToxic ''x'' 9))] = done @ (ch, e) # rest
     \<and> link_run done (new_link (\<lambda>_. 0) four_toxics Upstream) = Some (Fine l)
     \<and> (toxic_panics l e \<or> index_panics ch l e))"
  using link_crash_causes [of four_toxics "[(four_toxics, BeginUpdate (some_toxic NoopToxic ''x'' 9))]"
      "\<lambda>_. 0" Upstream] update_out_of_range
  by (simp add: crashed_iff four_toxics_def)


end
