(* ===== verification/LinkFlow.thy ===== *)
theory LinkFlow
  imports LinkSafe
begin

text \<open>
  What a link (\<open>link.go\<close>) does with the data: the bytes delivered, followed by those in
  its channels and goroutines, are the bytes taken from the source, in order and without
  repetition, while toxics are added, updated and removed; and with the exception of
  timeouts and of \<open>reset_peer\<close> toxics none of them is lost.
\<close>

subsection \<open>The bytes in flight\<close>

text \<open>What the stubs hold, with the channels in front of them; the last stub comes first.\<close>

fun front :: "store \<Rightarrow> ToxicStub list \<Rightarrow> byte list" where
  "front \<sigma> [] = []"
| "front \<sigma> (s # ss) = front \<sigma> ss @ thread_held (thread s) @ chunk_bytes (queue (\<sigma> (Input s)))"

definition in_flight :: "ToxicLink \<Rightarrow> byte list" where
  "in_flight l = chunk_bytes (queue (chans l (link_output l))) @ front (chans l) (stubs l)"

lemma front_append [simp]: "front \<sigma> (as @ bs) = front \<sigma> bs @ front \<sigma> as"
  by (induction as) auto

lemma front_same:
  "(\<And>s. s \<in> set ss \<Longrightarrow> queue (\<sigma>' (Input s)) = queue (\<sigma> (Input s))) \<Longrightarrow> front \<sigma>' ss = front \<sigma> ss"
  by (induction ss) auto

lemma front_other:
  "x \<notin> Input ` set ss \<Longrightarrow> front (\<sigma>(x := ch)) ss = front \<sigma> ss"
  by (induction ss) auto

text \<open>The stubs behind a stub, up to the channel it writes to.\<close>

definition behind :: "store \<Rightarrow> nat \<Rightarrow> ToxicStub list \<Rightarrow> byte list" where
  "behind \<sigma> out bs = (case bs of [] \<Rightarrow> []
     | b # bs' \<Rightarrow> chunk_bytes (queue (\<sigma> out)) @ front \<sigma> bs' @ thread_held (thread b))"

lemma behind_next:
  "chunk_bytes (queue (\<sigma> out)) @ front \<sigma> bs = behind \<sigma> out bs @ chunk_bytes (queue (\<sigma> (head_chan out bs)))"
  by (cases bs) (auto simp: behind_def)

text \<open>A change at one stub: the channel in front of it and the one it writes to.\<close>

lemma line_change:
  assumes d: "distinct (out # map Input (as @ s # bs))" and i: "Input s' = Input s"
    and q: "\<And>c. c \<noteq> Input s \<Longrightarrow> c \<noteq> head_chan out bs \<Longrightarrow> queue (\<sigma>' c) = queue (\<sigma> c)"
  shows "chunk_bytes (queue (\<sigma>' out)) @ front \<sigma>' (as @ s' # bs)
    = behind \<sigma> out bs @ (chunk_bytes (queue (\<sigma>' (head_chan out bs))) @ thread_held (thread s')
        @ chunk_bytes (queue (\<sigma>' (Input s)))) @ front \<sigma> as"
proof -
  have n: "Input s \<notin> Input ` set as" "head_chan out bs \<notin> Input ` set as"
    using d by (cases bs; auto)+
  have "front \<sigma>' as = front \<sigma> as"
    by (rule front_same) (metis n q imageI)
  moreover have "behind \<sigma>' out bs = behind \<sigma> out bs"
  proof (cases bs)
    case (Cons b bs')
    have "Input s \<notin> Input ` set bs'" "head_chan out bs \<notin> Input ` set bs'" using d Cons by auto
    then have "front \<sigma>' bs' = front \<sigma> bs'"
      by (intro front_same) (metis q imageI)
    moreover have "queue (\<sigma>' out) = queue (\<sigma> out)" by (rule q) (use d Cons in auto)
    ultimately show ?thesis using Cons by (simp add: behind_def)
  qed (simp add: behind_def)
  ultimately show ?thesis using i behind_next [of \<sigma>' out bs] by simp
qed

lemma in_flight_live:
  assumes "link_inv l"
  shows "in_flight l = chunk_bytes (queue (chans l (link_output l))) @ front (chans l) (live l)"
proof (cases "\<exists>w ph. ctl l = Adding w ph")
  case True
  then obtain w ph where ad: "ctl l = Adding w ph" by blast
  then have "fresh_ok (chans l) (last (stubs l))"
    using link_invD(7) [OF assms] by (simp add: ctl_ok_def)
  then have "front (chans l) [last (stubs l)] = []" by (simp add: fresh_ok_def stopped_def)
  then have "front (chans l) (live l @ [last (stubs l)]) = front (chans l) (live l)"
    by (simp only: front_append append_Nil)
  then show ?thesis using new_stub_apart(2) [OF assms ad] by (simp only: in_flight_def)
next
  case False
  then show ?thesis by (simp add: in_flight_def live_of_other)
qed

subsection \<open>One step\<close>

text \<open>
  What a step may do: take new bytes in at the end, hand bytes over to the destination, and,
  if \<open>d\<close> allows it, lose some.
\<close>

definition advances :: "bool \<Rightarrow> ToxicLink \<Rightarrow> ToxicLink \<Rightarrow> bool" where
  "advances d l l' \<longleftrightarrow> (\<exists>x. taken l' = taken l @ x
     \<and> subseq (delivered l' @ in_flight l') (delivered l @ in_flight l @ x)
     \<and> (\<not> d \<longrightarrow> delivered l' @ in_flight l' = delivered l @ in_flight l @ x))"

lemma advances_same:
  "taken l' = taken l \<Longrightarrow> delivered l' = delivered l \<Longrightarrow> in_flight l' = in_flight l \<Longrightarrow> advances d l l'"
  by (simp add: advances_def)

lemma advances_thinned:
  "taken l' = taken l \<Longrightarrow> delivered l' = delivered l \<Longrightarrow> subseq (in_flight l') (in_flight l) \<Longrightarrow>
     (\<not> d \<Longrightarrow> in_flight l' = in_flight l) \<Longrightarrow> advances d l l'"
  by (simp add: advances_def list_emb_append_mono)

lemma advances_weaken: "advances d l l' \<Longrightarrow> (d \<Longrightarrow> d') \<Longrightarrow> advances d' l l'"
  by (auto simp: advances_def)

lemma advances_any: "advances False l l' \<Longrightarrow> advances d l l'"
  by (simp add: advances_def) blast

lemma on_stub_advances:
  assumes inv: "link_inv l" and on: "on_stub k a v l = Some (Fine l')"
  shows "advances (drops_data a (stubs l ! k)) l l'"
  using inv on
proof (cases rule: on_stub_cases)
  case (1 as s s' bs \<sigma>')
  let ?out = "link_output l" let ?nx = "head_chan ?out bs"
  have l': "taken l' = taken l" "delivered l' = delivered l" "link_output l' = ?out" "chans l' = \<sigma>'"
    using 1(5) by simp_all
  have g: "thread_good (thread s)" using 1(11) by (simp add: stub_ok_def)
  have io: "Input s \<noteq> Output s" using 1(14,15) by simp
  note f = stub_flow [OF g io 1(4)]
  have o': "Output s' = ?nx" "Input s' = Input s" using stub_step_frame(1,2) [OF 1(4)] 1(14) by auto
  have q: "queue (\<sigma>' c) = queue (chans l c)" if "c \<noteq> Input s" "c \<noteq> ?nx" for c
    using stub_step_frame(3) [OF 1(4), of c] that 1(14) by simp
  have i1: "in_flight l = behind (chans l) ?out bs @ stub_bytes (chans l) s @ front (chans l) as"
    using in_flight_live [OF inv] line_change [OF 1(10) refl, where \<sigma> = "chans l" and \<sigma>' = "chans l"] 1(6,14)
    by (simp add: stub_bytes_def)
  have i2: "in_flight l' = behind (chans l) ?out bs @ stub_bytes \<sigma>' s' @ front (chans l) as"
    using in_flight_live [OF on_stub_inv [OF inv on]] 1(7) l'
      line_change [OF 1(10) o'(2), where \<sigma> = "chans l" and \<sigma>' = \<sigma>', OF q] o'
    by (simp add: stub_bytes_def)
  show ?thesis
    by (rule advances_thinned) (use l' i1 i2 f 1(2) in \<open>auto intro: list_emb_append_mono\<close>)
qed

lemma in_flight_simps [simp]:
  "in_flight (l\<lparr>ctl := c\<rparr>) = in_flight l"
  "in_flight (l\<lparr>read_state := r\<rparr>) = in_flight l"
  "in_flight (l\<lparr>write_state := w\<rparr>) = in_flight l"
  by (simp_all add: in_flight_def)

lemma read_advances:
  assumes inv: "link_inv l" and q: "queue ch = queue (chans l (link_input l)) @ cs"
  shows "advances False l (l\<lparr>chans := (chans l)(link_input l := ch), read_state := rs,
    taken := taken l @ chunk_bytes cs\<rparr>)"
proof -
  obtain s ss where st: "stubs l = s # ss" using link_invD(3) [OF inv] by (cases "stubs l") auto
  then have i: "link_input l = Input s" using link_invD(4) [OF inv] by simp
  have d: "distinct (link_output l # map Input (s # ss))" using link_invD(1) [OF inv] st by simp
  then have "front ((chans l)(link_input l := ch)) ss = front (chans l) ss"
    unfolding i by (intro front_other) auto
  then show ?thesis
    using d q by (auto simp: advances_def in_flight_def st i)
qed

lemma write_advances:
  assumes inv: "link_inv l" and r: "chan_recv (chans l (link_output l)) = Value c ch"
  shows "advances False l (l\<lparr>chans := (chans l)(link_output l := ch), delivered := delivered l @ Data c\<rparr>)"
proof -
  have "front ((chans l)(link_output l := ch)) (stubs l) = front (chans l) (stubs l)"
    by (rule front_other) (use link_invD(1) [OF inv] in auto)
  then show ?thesis
    using r by (auto simp: advances_def in_flight_def chan_recv_Value)
qed

lemma moved_advances:
  assumes inv: "link_inv l" and lv: "live l = stubs l" and w: "writers l = {}"
    and i: "0 < i" "i < length (stubs l)" "stopped (stubs l ! i)"
    and r: "chan_recv (chans l (Input (stubs l ! i))) = Value c ch"
    and p: "post_on i c (l\<lparr>chans := (chans l)(Input (stubs l ! i) := ch)\<rparr>) = Fine l'"
  shows "advances False l (l'\<lparr>ctl := ct\<rparr>)"
proof -
  let ?out = "link_output l"
  obtain as p' s bs where st: "stubs l = as @ p' # s # bs" "length as = i - 1" "stubs l ! (i - 1) = p'"
    "stubs l ! i = s" "stubs l = (as @ [p']) @ s # bs" "length (as @ [p']) = i"
    by (rule op_split [OF i(1,2)])
  let ?nx = "head_chan ?out bs"
  have "stub_ok {} (chans l) ?nx s"
    using link_invD(5) [OF inv] lv w st(5) by (simp add: plumbed_split)
  from stopped_ok [OF this] i(3) st(4) have o: "Output s = ?nx" by simp
  have d: "distinct (?out # map Input ((as @ [p']) @ s # bs))" using link_invD(1) [OF inv] st(5) by simp
  have ne: "?nx \<noteq> Input s" using d by (cases bs) auto
  obtain \<sigma> where l': "l' = l\<lparr>chans := \<sigma>\<rparr>"
    and \<sigma>: "queue (\<sigma> ?nx) = queue (chans l ?nx) @ [c]" "\<sigma> (Input s) = ch"
      "\<And>x. x \<noteq> Input s \<Longrightarrow> x \<noteq> ?nx \<Longrightarrow> \<sigma> x = chans l x"
    using p o ne st(4) by (auto simp: post_on_def chan_send_def Let_def split: option.splits if_splits)
  have h: "thread_held (thread s) = []" using i(3) st(4) by (simp add: stopped_def)
  have "in_flight l' = in_flight l"
    using line_change [OF d refl, where \<sigma> = "chans l" and \<sigma>' = \<sigma>] \<sigma>
      line_change [OF d refl, where \<sigma> = "chans l" and \<sigma>' = "chans l"] r h st(4,5) l'
    by (auto simp: in_flight_def chan_recv_Value)
  then show ?thesis by (intro advances_same) (simp_all add: l')
qed

lemma timeout_advances:
  "advances True l (l\<lparr>chans := (chans l)(out := chan_withdraw (chans l out)), ctl := ct\<rparr>)"
proof -
  have "subseq (chunk_bytes (queue (((chans l)(out := chan_withdraw (chans l out))) x)))
      (chunk_bytes (queue (chans l x)))" for x
    by (simp add: chan_withdraw_def chunk_bytes_butlast)
  moreover from this have "subseq (front ((chans l)(out := chan_withdraw (chans l out))) ss) (front (chans l) ss)" for ss
    by (induction ss) (simp_all add: list_emb_append_mono)
  ultimately have "subseq (in_flight (l\<lparr>chans := (chans l)(out := chan_withdraw (chans l out))\<rparr>)) (in_flight l)"
    by (simp add: in_flight_def list_emb_append_mono)
  then show ?thesis by (intro advances_thinned) simp_all
qed

lemma front_update:
  assumes "k < length ss" and "Input s' = Input (ss ! k)" and "thread_held (thread s') = thread_held (thread (ss ! k))"
  shows "front \<sigma> (ss[k := s']) = front \<sigma> ss"
  using assms by (induction ss arbitrary: k) (auto simp: nth_Cons split: nat.splits)

lemma closed_queues:
  "stub_Close \<sigma> s = Fine (\<sigma>', s') \<Longrightarrow> queue (\<sigma>' c) = queue (\<sigma> c) \<and> Input s' = Input s \<and> thread s' = thread s"
  by (auto simp: stub_Close_def chan_close_def split: if_splits option.splits)

lemma in_flight_cong:
  "link_output l' = link_output l \<Longrightarrow> (\<And>c. queue (chans l' c) = queue (chans l c)) \<Longrightarrow>
     front (chans l) (stubs l') = front (chans l) (stubs l) \<Longrightarrow> in_flight l' = in_flight l"
  using front_same [of "stubs l'" "chans l'" "chans l"] by (simp add: in_flight_def)

lemma after_closed_advances:
  assumes inv: "link_inv l" and r: "after_closed l = Fine l'"
  shows "advances False l l'"
proof (cases "\<exists>w ph. ctl l = Adding w ph")
  case True
  let ?i = "length (stubs l) - 1" let ?s = "stubs l ! ?i"
  from r True obtain \<sigma> s' where c: "stub_Close (chans l) (?s\<lparr>Output := Input ?s\<rparr>) = Fine (\<sigma>, s')"
    and l': "l' = l\<lparr>chans := \<sigma>, stubs := (stubs l)[?i := s'], ctl := NoOp\<rparr>"
    by (auto simp: after_closed_def Let_def split: outcome.splits)
  have "front (chans l) ((stubs l)[?i := s']) = front (chans l) (stubs l)"
    using closed_queues [OF c] link_invD(3) [OF inv] by (intro front_update) simp_all
  then show ?thesis
    using closed_queues [OF c] by (intro advances_same in_flight_cong) (simp_all add: l')
next
  case False
  with r have "l' = l\<lparr>ctl := NoOp\<rparr>" by (auto simp: after_closed_def split: control.splits)
  then show ?thesis by (simp add: advances_same)
qed

lemma after_exited_advances:
  assumes inv: "link_inv l" and t: "ctl_target l = Some (k, Waiting)"
    and ex: "thread (stubs l ! k) = Exited" and r: "after_exited chain ds l = Fine l'"
  shows "advances False l l'"
proof (cases "ctl l")
  case (Adding w ph)
  let ?i = "length (stubs l) - 1"
  have c: "2 \<le> length (stubs l)" "stopped (last (stubs l))" and k: "k = ?i - 1"
    using link_invD(7) [OF inv] Adding t by (auto simp: ctl_ok_def fresh_ok_def ctl_target_def numeral_2_eq_2)
  have n: "thread (stubs l ! ?i) = Exited"
    using c link_invD(3) [OF inv] by (simp add: last_conv_nth stopped_def)
  from r Adding obtain s' p' where l': "l' = l\<lparr>stubs := (stubs l)[?i := s', ?i - 1 := p'], ctl := NoOp\<rparr>"
    and s': "Input s' = Input (stubs l ! ?i)" "thread_held (thread s') = []"
    and p': "Input p' = Input (stubs l ! (?i - 1))" "thread_held (thread p') = []"
    by (auto simp: after_exited_def Let_def split: if_splits)
  have "front (chans l) ((stubs l)[?i := s']) = front (chans l) (stubs l)"
    using c(1) n s' by (intro front_update) simp_all
  moreover have "front (chans l) ((stubs l)[?i := s', ?i - 1 := p']) = front (chans l) ((stubs l)[?i := s'])"
    using c(1) ex k p' by (intro front_update) simp_all
  ultimately show ?thesis by (intro advances_same in_flight_cong) (simp_all add: l')
next
  case (Updating w ph)
  with t have k: "k = nat (tw_Index w)" by (auto simp: ctl_target_def)
  have "k < length (stubs l)" using link_invD(7) [OF inv] Updating k by (simp add: ctl_ok_def)
  then have "front (chans l) ((stubs l)[k := Run (ds 0) w (stubs l ! k)]) = front (chans l) (stubs l)"
    using ex by (intro front_update) simp_all
  then show ?thesis
    using r Updating k by (intro advances_same in_flight_cong) (auto simp: after_exited_def Let_def)
next
  case (Removing w ph)
  with r have "l' = l\<lparr>ctl := Stopping w HAsking False\<rparr>" by (simp add: after_exited_def)
  then show ?thesis by (simp add: advances_same)
qed (use t in \<open>auto simp: ctl_target_def\<close>)

lemma stop_round_advances:
  assumes inv: "link_inv l" and ct: "ctl l = Stopping w h False" and r: "stop_round w h l = Some (Fine l')"
  shows "advances False l l'"
proof -
  let ?i = "nat (tw_Index w)"
  have c: "0 < ?i" "?i < length (stubs l)" "stopped (stubs l ! ?i)"
    using link_invD(7) [OF inv] ct by (auto simp: ctl_ok_def)
  have lv: "live l = stubs l" "writers l = {}" using ct by simp_all
  show ?thesis
  proof (cases "chan_recv (chans l (Input (stubs l ! ?i)))")
    case (Value x ch)
    with r obtain l1 where p: "post_on ?i x (l\<lparr>chans := (chans l)(Input (stubs l ! ?i) := ch)\<rparr>) = Fine l1"
      and l': "l' = l1\<lparr>ctl := Stopping w h True\<rparr>"
      by (auto simp: stop_round_def set_ctl_def Let_def split: outcome.splits)
    show ?thesis unfolding l' by (rule moved_advances [OF inv lv c(1-3) Value p])
  next
    case Drained
    from r [unfolded stop_round_def Let_def Drained received.case] obtain \<sigma> s' ct'
      where cl: "stub_Close (chans l) (stubs l ! ?i) = Fine (\<sigma>, s')"
      and l': "l' = l\<lparr>chans := \<sigma>, stubs := (stubs l)[?i := s'], ctl := ct'\<rparr>"
      by (auto split: outcome.splits)
    have "front (chans l) ((stubs l)[?i := s']) = front (chans l) (stubs l)"
      using closed_queues [OF cl] c by (intro front_update) simp_all
    then show ?thesis
      using closed_queues [OF cl] by (intro advances_same in_flight_cong) (simp_all add: l')
  next
    case Empty
    with r show ?thesis by (simp add: stop_round_def Let_def)
  qed
qed

lemma flush_round_advances:
  assumes inv: "link_inv l" and ct: "ctl l = Flushing w False" and r: "flush_round w l = Some (Fine l')"
  shows "advances False l l'"
proof -
  let ?i = "nat (tw_Index w)"
  have c: "0 < ?i" "?i < length (stubs l)" "stopped (stubs l ! ?i)"
    using link_invD(7) [OF inv] ct by (auto simp: ctl_ok_def)
  have lv: "live l = stubs l" "writers l = {}" using ct by simp_all
  from r obtain x ch l1 where v: "chan_recv (chans l (Input (stubs l ! ?i))) = Value x ch"
    and p: "post_on ?i x (l\<lparr>chans := (chans l)(Input (stubs l ! ?i) := ch)\<rparr>) = Fine l1"
    and l': "l' = l1\<lparr>ctl := Flushing w True\<rparr>"
    by (auto simp: flush_round_def set_ctl_def Let_def split: outcome.splits if_splits received.splits)
  show ?thesis unfolding l' by (rule moved_advances [OF inv lv c(1-3) v p])
qed

lemma finish_remove_advances:
  assumes inv: "link_inv l" and ct: "ctl l = Flushing w False"
    and r: "finish_remove chain ds w l = Some (Fine l')"
  shows "advances False l l'"
proof -
  let ?i = "nat (tw_Index w)"
  have c: "0 < ?i" "?i < length (stubs l)" "stopped (stubs l ! ?i)" "stopped (stubs l ! (?i - 1))"
    using link_invD(7) [OF inv] ct by (auto simp: ctl_ok_def)
  obtain as p s bs where st: "stubs l = as @ p # s # bs" "length as = ?i - 1" "stubs l ! (?i - 1) = p"
    "stubs l ! ?i = s" "stubs l = (as @ [p]) @ s # bs" "length (as @ [p]) = ?i"
    by (rule op_split [OF c(1,2)])
  have "plumbed {} (chans l) (link_output l) (as @ p # s # bs)" using link_invD(5) [OF inv] ct st(1) by simp
  then have "stub_ok {} (chans l) (Input s) p" by (simp add: plumbed_split)
  from stopped_ok [OF this] c(4) st(3) have "settled (chans l (Input s))" by simp
  moreover have "chan_len (chans l (Input s)) = 0" using r st(4) by (simp add: finish_remove_def Let_def split: if_splits)
  ultimately have q: "queue (chans l (Input s)) = []" by (auto simp: settled_def chan_len_def min_def split: if_splits)
  have "take (?i - 1) (stubs l) = as" "drop (Suc ?i) (stubs l) = bs"
    using st(1,2) c(1) by (simp_all add: Suc_diff_le)
  with r st obtain p' where l': "l' = l\<lparr>stubs := as @ p' # bs, ctl := NoOp\<rparr>"
    and p': "Input p' = Input p" "thread_held (thread p') = []"
    by (auto simp: finish_remove_def Let_def split: if_splits)
  have "front (chans l) (as @ p' # bs) = front (chans l) (stubs l)"
    using q p' c(3,4) st(3,4) by (subst st(1)) (simp add: stopped_def)
  then show ?thesis by (intro advances_same in_flight_cong) (simp_all add: l')
qed

subsection \<open>Runs\<close>

text \<open>An event that may lose bytes: a timeout of a write, or a step of a toxic that drops data.\<close>

definition loses :: "link_event \<Rightarrow> ToxicLink \<Rightarrow> bool" where
  "loses e l \<longleftrightarrow> e = Step OpTimeout
     \<or> (\<exists>k a v. acting l e = Some (k, a, v) \<and> drops_data a (stubs l ! k))"

lemma link_step_advances:
  assumes inv: "link_inv l" and st: "link_step chain x l = Some (Fine l')"
  shows "advances (loses (Step x) l) l l'"
proof (cases x)
  case (ReadChunk bs tm)
  with st have l': "l' = l\<lparr>chans := (chans l)(link_input l := (chans l (link_input l))\<lparr>queue :=
      queue (chans l (link_input l)) @ [\<lparr>Data = bs, Timestamp = tm\<rparr>]\<rparr>), read_state := RBlocked,
      taken := taken l @ chunk_bytes [\<lparr>Data = bs, Timestamp = tm\<rparr>]\<rparr>"
    by (auto simp: ChanWriter_Write_def chan_send_def split: if_splits)
  show ?thesis unfolding l' by (rule advances_weaken, rule read_advances [OF inv]) simp_all
next
  case ReadEnd
  with st have "l' = l\<lparr>chans := (chans l)(link_input l := (chans l (link_input l))\<lparr>shut := True\<rparr>), read_state := RDone\<rparr>"
    by (auto simp: ChanWriter_Close_def chan_close_def split: if_splits)
  then show ?thesis by (intro advances_same in_flight_cong) simp_all
next
  case (StubAct k a v)
  with st on_stub_advances [OF inv] show ?thesis
    by (fastforce simp: loses_def acting_def split: if_splits elim: advances_weaken)
next
  case WriteChunk
  with st obtain c ch where "chan_recv (chans l (link_output l)) = Value c ch"
    and "l' = l\<lparr>chans := (chans l)(link_output l := ch), delivered := delivered l @ Data c\<rparr>"
    by (auto split: if_splits received.splits)
  then show ?thesis using write_advances [OF inv] by (auto intro: advances_any)
next
  case OpClosed
  with st after_closed_advances [OF inv] show ?thesis
    by (auto split: option.splits phase.splits if_splits intro: advances_any)
next
  case (OpInterrupt v)
  with st obtain k l1 where t: "ctl_target l = Some (k, Asking)" and on: "on_stub k AInterrupt v l = Some (Fine l1)"
    and l': "l' = l1\<lparr>ctl := set_phase Waiting (ctl l1)\<rparr>"
    by (auto simp: map_fine simp del: map_option_eq_Some split: option.splits phase.splits)
  have "advances d l l1 \<Longrightarrow> advances d l l'" for d by (simp add: advances_def l')
  with on_stub_advances [OF inv on] t OpInterrupt show ?thesis
    by (auto simp: loses_def acting_def elim: advances_weaken)
next
  case (OpExited ds)
  with st after_exited_advances [OF inv] show ?thesis
    by (auto split: option.splits phase.splits if_splits intro: advances_any)
next
  case (HelpInterrupt v)
  with st obtain k l1 where t: "helper_of l = Some (k, HAsking)" and on: "on_stub k AInterrupt v l = Some (Fine l1)"
    and l': "l' = l1\<lparr>ctl := set_helper HWaiting (ctl l1)\<rparr>"
    by (auto simp: map_fine simp del: map_option_eq_Some split: option.splits helper.splits)
  have "advances d l l1 \<Longrightarrow> advances d l l'" for d by (simp add: advances_def l')
  with on_stub_advances [OF inv on] t HelpInterrupt show ?thesis
    by (auto simp: loses_def acting_def elim: advances_weaken)
next
  case OpRound
  with st stop_round_advances [OF inv] flush_round_advances [OF inv] show ?thesis
    by (auto split: control.splits bool.splits intro: advances_any)
next
  case OpTimeout
  with st obtain out ct where
    "l' = l\<lparr>chans := (chans l)(out := chan_withdraw (chans l out)), ctl := ct\<rparr>"
    by (auto simp: Let_def split: control.splits bool.splits if_splits)
  with timeout_advances [where l = l and out = out and ct = ct] OpTimeout show ?thesis by (simp add: loses_def)
next
  case (OpFinish ds)
  with st finish_remove_advances [OF inv] show ?thesis
    by (auto split: control.splits bool.splits intro: advances_any)
qed (use st in \<open>auto intro!: advances_same split: option.splits control.splits helper.splits bool.splits if_splits\<close>)

lemma link_AddToxic_advances:
  assumes inv: "link_inv l" and r: "link_AddToxic w l = Fine l'"
  shows "advances False l l'"
proof -
  let ?\<sigma> = "(chans l)(next_chan l := make_chan (tw_BufferSize w))"
  have old: "c \<in> set (link_output l # map Input (stubs l)) \<Longrightarrow> c \<noteq> next_chan l" for c
    using link_invD(2) [OF inv] by blast
  have "front ?\<sigma> (stubs l) = front (chans l) (stubs l)"
    by (rule front_other) (use old in auto)
  then show ?thesis
    using r old by (auto simp: link_AddToxic_def Let_def in_flight_def NewToxicStub_def make_chan_def
        intro!: advances_same split: if_splits)
qed

lemma link_event_advances:
  assumes inv: "link_inv l" and st: "link_event_step chain e l = Some (Fine l')"
  shows "advances (loses e l) l l'"
proof (cases e)
  case (Step a)
  with st link_step_advances [OF inv] show ?thesis by (simp add: link_event_step_def)
next
  case (BeginAdd w)
  with st link_AddToxic_advances [OF inv] show ?thesis
    by (auto simp: link_event_step_def split: if_splits intro: advances_any)
qed (use st in \<open>auto simp: link_event_step_def link_UpdateToxic_def link_RemoveToxic_def
      intro!: advances_same split: if_splits\<close>)

text \<open>No step of a run loses bytes.\<close>

fun run_keeps :: "(ToxicWrapper list \<times> link_event) list \<Rightarrow> ToxicLink \<Rightarrow> bool" where
  "run_keeps [] l = True"
| "run_keeps ((chain, e) # es) l = (\<not> loses e l \<and> (case link_event_step chain e l of
       Some (Fine l') \<Rightarrow> run_keeps es l'
     | _ \<Rightarrow> True))"

lemma advances_trans:
  assumes "advances d l l1" and "advances d' l1 l2"
  shows "advances (d \<or> d') l l2"
proof -
  from assms(1) obtain x where
    1: "taken l1 = taken l @ x" "subseq (delivered l1 @ in_flight l1) (delivered l @ in_flight l @ x)"
      "\<not> d \<longrightarrow> delivered l1 @ in_flight l1 = delivered l @ in_flight l @ x"
    unfolding advances_def by (elim exE conjE)
  from assms(2) obtain y where
    2: "taken l2 = taken l1 @ y" "subseq (delivered l2 @ in_flight l2) (delivered l1 @ in_flight l1 @ y)"
      "\<not> d' \<longrightarrow> delivered l2 @ in_flight l2 = delivered l1 @ in_flight l1 @ y"
    unfolding advances_def by (elim exE conjE)
  have "subseq (delivered l2 @ in_flight l2) ((delivered l @ in_flight l @ x) @ y)"
    using 2(2) subseq_append_same [OF 1(2), of y] by (metis append.assoc subseq_order.trans)
  moreover have "delivered l2 @ in_flight l2 = (delivered l @ in_flight l @ x) @ y" if "\<not> d" "\<not> d'"
    using that 1(3) 2(3) by (metis append.assoc)
  ultimately show ?thesis using 1(1) 2(1) by (auto simp: advances_def)
qed

lemma link_run_advances:
  "link_inv l \<Longrightarrow> link_run es l = Some (Fine l') \<Longrightarrow> advances (\<not> run_keeps es l) l l'"
proof (induction es arbitrary: l)
  case Nil
  then show ?case by (simp add: advances_same)
next
  case (Cons ce es)
  obtain chain e where ce: "ce = (chain, e)" by (cases ce)
  with Cons.prems obtain l1 where s: "link_event_step chain e l = Some (Fine l1)" "link_run es l1 = Some (Fine l')"
    by (auto split: option.splits outcome.splits)
  have "advances (loses e l \<or> \<not> run_keeps es l1) l l'"
    using advances_trans [OF link_event_advances [OF Cons.prems(1) s(1)]
        Cons.IH [OF link_event_inv [OF Cons.prems(1) s(1)] s(2)]] .
  then show ?case using s(1) ce by (auto elim: advances_weaken)
qed

lemma front_empty:
  "\<forall>s \<in> set ss. thread_held (thread s) = [] \<and> queue (\<sigma> (Input s)) = [] \<Longrightarrow> front \<sigma> ss = []"
  by (induction ss) auto

lemma new_link_in_flight: "in_flight (new_link ds chain dir) = []"
proof -
  obtain ss \<sigma> out where m: "make_stubs chain (\<lambda>_. make_chan 0) 0 = (ss, \<sigma>, out)"
    by (metis prod_cases3)
  have q: "queue (\<sigma> c) = []" for c
    using make_stubs_laws(6) [OF m, of c] by (simp add: make_chan_def)
  have "\<forall>s \<in> set (stubs (new_link ds chain dir)). thread_held (thread s) = []"
    using new_link_fields(1) [OF m] by auto
  then have "front \<sigma> (stubs (new_link ds chain dir)) = []"
    using q by (intro front_empty) auto
  then show ?thesis using q new_link_fields(2) [OF m] by (simp add: in_flight_def)
qed

subsection \<open>Runs that keep all data\<close>

fun keeping :: "toxic \<Rightarrow> bool" where
  "keeping (ResetT t) = False"
| "keeping _ = True"

text \<open>No timeout of a write, and no toxic that drops data.\<close>

fun event_keeps :: "link_event \<Rightarrow> bool" where
  "event_keeps (Step OpTimeout) = False"
| "event_keeps (Step (StubAct k a v)) = (a \<noteq> ATimeout)"
| "event_keeps (Step x) = True"
| "event_keeps (BeginAdd w) = keeping (tw_Toxic w)"
| "event_keeps (BeginUpdate w) = keeping (tw_Toxic w)"
| "event_keeps (BeginRemove w) = True"

definition chain_keeps :: "ToxicWrapper list \<Rightarrow> bool" where
  "chain_keeps chain \<longleftrightarrow> (\<forall>w \<in> set chain. keeping (tw_Toxic w))"

definition all_keep :: "ToxicLink \<Rightarrow> bool" where
  "all_keep l \<longleftrightarrow> (\<forall>s \<in> set (stubs l). thread_keeps (thread s))
     \<and> (case ctl l of Adding w ph \<Rightarrow> keeping (tw_Toxic w) | Updating w ph \<Rightarrow> keeping (tw_Toxic w) | _ \<Rightarrow> True)"

lemma Run_keeps: "keeping (tw_Toxic w) \<Longrightarrow> thread_keeps (thread (Run d w s))"
  by (cases "tw_Toxic w") (auto simp: Run_def)

lemma on_stub_keeps:
  assumes inv: "link_inv l" and on: "on_stub k a v l = Some (Fine l')" and kp: "all_keep l"
  shows "all_keep l' \<and> (a \<noteq> ATimeout \<longrightarrow> \<not> drops_data a (stubs l ! k))"
  using inv on
proof (cases rule: on_stub_cases)
  case (1 as s s' bs \<sigma>')
  have g: "thread_good (thread s)" using 1(11) by (simp add: stub_ok_def)
  have "thread_keeps (thread s)" using kp 1(1,2) by (simp add: all_keep_def)
  then have d: "a \<noteq> ATimeout \<longrightarrow> \<not> drops_data a (stubs l ! k)" using 1(2) by (simp add: drops_data_def)
  have "thread_keeps (thread s')" using stub_step_good(2) [OF g 1(4)] \<open>thread_keeps (thread s)\<close> .
  then have "all_keep l'"
    using kp 1(5) by (auto simp: all_keep_def dest!: set_update_subset_insert [THEN subsetD])
  with d show ?thesis by blast
qed

lemma all_keep_simps [simp]:
  "all_keep (l\<lparr>chans := c\<rparr>) = all_keep l" "all_keep (l\<lparr>read_state := r\<rparr>) = all_keep l"
  "all_keep (l\<lparr>write_state := w\<rparr>) = all_keep l" "all_keep (l\<lparr>taken := t\<rparr>) = all_keep l"
  "all_keep (l\<lparr>delivered := d\<rparr>) = all_keep l"
  by (simp_all add: all_keep_def)

lemma all_keep_parts:
  "(\<And>s. s \<in> set ss \<Longrightarrow> thread_keeps (thread s)) \<Longrightarrow> (\<And>w ph. c = Adding w ph \<or> c = Updating w ph \<Longrightarrow> keeping (tw_Toxic w)) \<Longrightarrow>
     all_keep (l\<lparr>stubs := ss, ctl := c\<rparr>)"
  by (auto simp: all_keep_def split: control.splits)

lemma all_keep_ctl:
  "all_keep l \<Longrightarrow> (\<And>w ph. c = Adding w ph \<or> c = Updating w ph \<Longrightarrow> keeping (tw_Toxic w)) \<Longrightarrow> all_keep (l\<lparr>ctl := c\<rparr>)"
  by (auto simp: all_keep_def split: control.splits)

lemma all_keep_update:
  "all_keep l \<Longrightarrow> thread_keeps (thread s) \<Longrightarrow> s' \<in> set ((stubs l)[i := s]) \<Longrightarrow> thread_keeps (thread s')"
  by (auto simp: all_keep_def dest!: set_update_subset_insert [THEN subsetD])

lemma after_exited_keeps:
  assumes kp: "all_keep l" "chain_keeps chain" and r: "after_exited chain ds l = Fine l'"
  shows "all_keep l'"
proof (cases "ctl l")
  case (Adding w ph)
  let ?i = "length (stubs l) - 1" let ?s = "Run (ds 0) w (stubs l ! ?i)"
  let ?c = "chain ! (?i - 1)"
  from r Adding have c: "?c \<in> set chain" and
    l': "l' = l\<lparr>stubs := (stubs l)[?i := ?s,
      ?i - 1 := Run (ds 1) ?c ((stubs l ! (?i - 1))\<lparr>Output := Input (stubs l ! ?i)\<rparr>)], ctl := NoOp\<rparr>"
    by (auto simp: after_exited_def Let_def split: if_splits)
  have "keeping (tw_Toxic w)" "keeping (tw_Toxic ?c)"
    using kp Adding c by (auto simp: all_keep_def chain_keeps_def)
  then have k: "thread_keeps (thread ?s)" "\<And>d s. thread_keeps (thread (Run d ?c s))"
    by (simp_all add: Run_keeps)
  have "all_keep (l\<lparr>stubs := (stubs l)[?i := ?s], ctl := NoOp\<rparr>)"
    by (rule all_keep_parts) (use all_keep_update [OF kp(1) k(1)] in auto)
  from all_keep_update [OF this k(2), simplified] show ?thesis
    unfolding l' by (intro all_keep_parts) auto
next
  case (Updating w ph)
  let ?i = "nat (tw_Index w)"
  have l': "l' = l\<lparr>stubs := (stubs l)[?i := Run (ds 0) w (stubs l ! ?i)], ctl := NoOp\<rparr>"
    using r Updating by (simp add: after_exited_def Let_def)
  have "thread_keeps (thread (Run (ds 0) w (stubs l ! ?i)))"
    using kp Updating by (simp add: all_keep_def Run_keeps)
  from all_keep_update [OF kp(1) this] show ?thesis unfolding l' by (intro all_keep_parts) auto
qed (use r kp in \<open>auto simp: after_exited_def intro: all_keep_ctl\<close>)

lemma finish_remove_keeps:
  assumes kp: "all_keep l" "chain_keeps chain" and r: "finish_remove chain ds w l = Some (Fine l')"
  shows "all_keep l'"
proof -
  let ?i = "nat (tw_Index w)"
  let ?c = "chain ! (?i - 1)" let ?s = "(stubs l ! (?i - 1))\<lparr>Output := Output (stubs l ! ?i)\<rparr>"
  from r have c: "?c \<in> set chain" and
    l': "l' = l\<lparr>stubs := take (?i - 1) (stubs l) @ [Run (ds 0) ?c ?s] @ drop (Suc ?i) (stubs l), ctl := NoOp\<rparr>"
    by (auto simp: finish_remove_def Let_def split: if_splits)
  have "thread_keeps (thread (Run (ds 0) ?c ?s))" using kp c by (simp add: chain_keeps_def Run_keeps)
  then show ?thesis
    unfolding l' using kp(1)
    by (intro all_keep_parts) (auto simp: all_keep_def dest: in_set_takeD in_set_dropD)
qed

lemma closed_keeps:
  "all_keep l \<Longrightarrow> i < length (stubs l) \<Longrightarrow> stub_Close \<sigma>0 s = Fine (\<sigma>, s') \<Longrightarrow> thread s = thread (stubs l ! i) \<Longrightarrow>
     all_keep (l\<lparr>chans := \<sigma>, stubs := (stubs l)[i := s'], ctl := NoOp\<rparr>)"
  using closed_queues [of \<sigma>0 s \<sigma> s'] all_keep_update [of l s' _ i] all_keep_parts [of "(stubs l)[i := s']" NoOp "l\<lparr>chans := \<sigma>\<rparr>"]
  by (auto simp: all_keep_def)

lemma link_event_keeps:
  assumes inv: "link_inv l" and st: "link_event_step chain e l = Some (Fine l')"
    and kp: "all_keep l" "chain_keeps chain" "event_keeps e"
  shows "all_keep l' \<and> \<not> loses e l"
proof (cases e)
  case (Step x)
  with st have s: "link_step chain x l = Some (Fine l')" by (simp add: link_event_step_def)
  show ?thesis
  proof (cases x)
    case (StubAct k a v)
    with s on_stub_keeps [OF inv _ kp(1)] kp(3) Step show ?thesis
      by (auto simp: loses_def acting_def split: if_splits)
  next
    case (OpInterrupt v)
    with s obtain k l1 where t: "ctl_target l = Some (k, Asking)" and on: "on_stub k AInterrupt v l = Some (Fine l1)"
      and l': "l' = l1\<lparr>ctl := set_phase Waiting (ctl l1)\<rparr>"
      by (auto simp: map_fine simp del: map_option_eq_Some split: option.splits phase.splits)
    have "all_keep l1 \<Longrightarrow> all_keep l'" unfolding l'
      by (cases "ctl l1") (auto intro!: all_keep_ctl, auto simp: all_keep_def)
    with on_stub_keeps [OF inv on kp(1)] t OpInterrupt Step show ?thesis
      by (auto simp: loses_def acting_def)
  next
    case (HelpInterrupt v)
    with s obtain k l1 where t: "helper_of l = Some (k, HAsking)" and on: "on_stub k AInterrupt v l = Some (Fine l1)"
      and l': "l' = l1\<lparr>ctl := set_helper HWaiting (ctl l1)\<rparr>"
      by (auto simp: map_fine simp del: map_option_eq_Some split: option.splits helper.splits)
    have "all_keep l1 \<Longrightarrow> all_keep l'" unfolding l'
      by (cases "ctl l1") (auto intro!: all_keep_ctl, auto simp: all_keep_def)
    with on_stub_keeps [OF inv on kp(1)] t HelpInterrupt Step show ?thesis
      by (auto simp: loses_def acting_def)
  next
    case OpClosed
    with s have r: "after_closed l = Fine l'" by (auto split: option.splits phase.splits if_splits)
    have "all_keep l'"
    proof (cases "\<exists>w ph. ctl l = Adding w ph")
      case True
      let ?i = "length (stubs l) - 1"
      from r True obtain \<sigma> s' where c: "stub_Close (chans l) ((stubs l ! ?i)\<lparr>Output := Input (stubs l ! ?i)\<rparr>) = Fine (\<sigma>, s')"
        and l': "l' = l\<lparr>chans := \<sigma>, stubs := (stubs l)[?i := s'], ctl := NoOp\<rparr>"
        by (auto simp: after_closed_def Let_def split: outcome.splits)
      show ?thesis unfolding l' by (rule closed_keeps [OF kp(1) _ c]) (use link_invD(3) [OF inv] in simp_all)
    next
      case False
      with r kp(1) show ?thesis by (auto simp: after_closed_def intro!: all_keep_ctl split: control.splits)
    qed
    with OpClosed Step show ?thesis by (simp add: loses_def acting_def)
  next
    case (OpExited ds)
    with s after_exited_keeps [OF kp(1,2)] Step show ?thesis
      by (auto simp: loses_def acting_def split: option.splits phase.splits if_splits)
  next
    case OpRound
    consider w h where "ctl l = Stopping w h False" "stop_round w h l = Some (Fine l')"
      | w where "ctl l = Flushing w False" "flush_round w l = Some (Fine l')"
      using s OpRound by (auto split: control.splits bool.splits)
    then have "all_keep l'"
    proof cases
      case (1 w h)
      let ?i = "nat (tw_Index w)"
      have i: "?i < length (stubs l)" using link_invD(7) [OF inv] 1(1) by (simp add: ctl_ok_def)
      show ?thesis
      proof (cases "chan_recv (chans l (Input (stubs l ! ?i)))")
        case (Value c ch)
        with 1(2) obtain \<sigma> where "l' = l\<lparr>chans := \<sigma>, ctl := Stopping w h True\<rparr>"
          by (auto simp: stop_round_def set_ctl_def post_on_def Let_def split: outcome.splits option.splits)
        then show ?thesis using kp(1) by (auto intro: all_keep_ctl)
      next
        case Drained
        from 1(2) [unfolded stop_round_def Let_def Drained received.case] obtain \<sigma> s' c
          where cl: "stub_Close (chans l) (stubs l ! ?i) = Fine (\<sigma>, s')"
          and l': "l' = (l\<lparr>chans := \<sigma>, stubs := (stubs l)[?i := s'], ctl := NoOp\<rparr>)\<lparr>ctl := c\<rparr>"
          and c: "c = NoOp \<or> c = Collecting w h"
          by (auto split: outcome.splits if_splits)
        from closed_keeps [OF kp(1) i cl refl] c show ?thesis
          unfolding l' by (auto simp: all_keep_def)
      next
        case Empty
        with 1(2) show ?thesis by (simp add: stop_round_def Let_def)
      qed
    next
      case (2 w)
      then obtain \<sigma> where "l' = l\<lparr>chans := \<sigma>, ctl := Flushing w True\<rparr>"
        by (auto simp: flush_round_def set_ctl_def post_on_def Let_def
            split: outcome.splits option.splits received.splits if_splits)
      then show ?thesis using kp(1) by (auto intro: all_keep_ctl)
    qed
    with OpRound Step show ?thesis by (simp add: loses_def acting_def)
  next
    case (OpFinish ds)
    with s finish_remove_keeps [OF kp(1,2)] Step show ?thesis
      by (auto simp: loses_def acting_def split: control.splits bool.splits)
  qed (use s kp Step in \<open>auto simp: loses_def acting_def helper_of_def intro!: all_keep_ctl
        split: if_splits option.splits control.splits helper.splits bool.splits received.splits\<close>)
next
  case (BeginAdd w)
  then show ?thesis
    using st kp by (auto simp: link_event_step_def link_AddToxic_def Let_def all_keep_def loses_def acting_def
        NewToxicStub_def split: if_splits)
next
  case (BeginUpdate w)
  then show ?thesis
    using st kp by (auto simp: link_event_step_def link_UpdateToxic_def all_keep_def loses_def acting_def
        split: if_splits)
next
  case (BeginRemove w)
  then show ?thesis
    using st kp by (auto simp: link_event_step_def link_RemoveToxic_def all_keep_def loses_def acting_def
        split: if_splits)
qed

definition run_is_clean :: "(ToxicWrapper list \<times> link_event) list \<Rightarrow> bool" where
  "run_is_clean es \<longleftrightarrow> list_all (\<lambda>(chain, e). chain_keeps chain \<and> event_keeps e) es"

lemma link_run_keeps:
  "link_inv l \<Longrightarrow> all_keep l \<Longrightarrow> run_is_clean es \<Longrightarrow> link_run es l = Some (Fine l') \<Longrightarrow>
     run_keeps es l \<and> all_keep l'"
proof (induction es arbitrary: l)
  case (Cons ce es)
  obtain chain e where ce: "ce = (chain, e)" by (cases ce)
  with Cons.prems obtain l1 where s: "link_event_step chain e l = Some (Fine l1)" "link_run es l1 = Some (Fine l')"
    by (auto split: option.splits outcome.splits)
  have "all_keep l1 \<and> \<not> loses e l"
    using link_event_keeps [OF Cons.prems(1) s(1) Cons.prems(2)] Cons.prems(3) ce by (simp add: run_is_clean_def)
  with Cons.IH [OF link_event_inv [OF Cons.prems(1) s(1)] _ _ s(2)] Cons.prems(3) ce s(1)
  show ?case by (simp add: run_is_clean_def)
qed (simp add: run_is_clean_def)

lemma new_link_keeps: "chain_keeps chain \<Longrightarrow> all_keep (new_link ds chain dir)"
proof -
  assume c: "chain_keeps chain"
  obtain ss \<sigma> out where m: "make_stubs chain (\<lambda>_. make_chan 0) 0 = (ss, \<sigma>, out)"
    by (metis prod_cases3)
  show ?thesis
    using c by (auto simp: all_keep_def new_link_fields [OF m] chain_keeps_def intro!: Run_keeps)
qed

subsection \<open>The end of the stream\<close>

definition ended :: "store \<Rightarrow> nat \<Rightarrow> bool" where
  "ended \<sigma> c \<longleftrightarrow> shut (\<sigma> c) \<and> queue (\<sigma> c) = []"

text \<open>A stub is closed only after all of its input has passed.\<close>

definition sealed :: "ToxicLink \<Rightarrow> bool" where
  "sealed l \<longleftrightarrow> (\<forall>s \<in> set (stubs l). is_closed s \<longrightarrow> ended (chans l) (Input s))"

lemma keeps_closed:
  "keeps_data p \<Longrightarrow> accepts (Pipe_offer p) e \<Longrightarrow> Pipe_step p v e = ClosedReturned \<Longrightarrow> e = InputClosed"
proof (cases p)
  case (NoopAt q)
  then show "Pipe_step p v e = ClosedReturned \<Longrightarrow> e = InputClosed" by (cases q; cases e) auto
next
  case (LatencyAt t q)
  then show "Pipe_step p v e = ClosedReturned \<Longrightarrow> e = InputClosed"
    by (cases q; cases e) (auto split: option.splits)
next
  case (BandwidthAt t q)
  then show "Pipe_step p v e = ClosedReturned \<Longrightarrow> e = InputClosed"
    by (cases q; cases e) (auto simp: split_loop_def split: option.splits if_splits)
next
  case (SlicerAt t q)
  then show "Pipe_step p v e = ClosedReturned \<Longrightarrow> e = InputClosed"
    by (cases q; cases e) (auto simp: slice_loop_def split: option.splits list.splits)
qed simp

lemma resume_ended: "resume r \<sigma> s = Fine (\<sigma>', s') \<Longrightarrow> ended \<sigma> c \<Longrightarrow> ended \<sigma>' c"
  using resume_laws(5,7) [of r \<sigma> s \<sigma>' s'] by (simp add: ended_def)

lemma stub_step_ended:
  assumes st: "stub_step a v \<sigma> s = Some (Fine (\<sigma>', s'))"
  shows "ended \<sigma> c \<Longrightarrow> ended \<sigma>' c"
    and "thread_good (thread s) \<Longrightarrow> thread_keeps (thread s) \<Longrightarrow> is_closed s' \<Longrightarrow> \<not> is_closed s \<Longrightarrow>
      ended \<sigma>' (Input s')"
proof -
  have "(ended \<sigma> c \<longrightarrow> ended \<sigma>' c) \<and> (thread_good (thread s) \<and> thread_keeps (thread s) \<and> is_closed s' \<and> \<not> is_closed s \<longrightarrow>
      ended \<sigma>' (Input s'))"
    using st
  proof (cases rule: stub_step_cases)
    case (recv p x cs)
    then have "ended \<sigma> c \<Longrightarrow> ended (\<sigma>(Input s := (\<sigma> (Input s))\<lparr>queue := cs\<rparr>)) c"
      by (auto simp: ended_def)
    moreover have "Pipe_step p v (Received x) \<noteq> ClosedReturned" if "keeps_data p"
      using keeps_closed [OF that, of "Received x" v] recv(3) by auto
    ultimately show ?thesis
      using resume_ended [OF recv(5), of c] resume_laws(8) [OF recv(5)] recv(2) by auto
  next
    case (eof p)
    then have "ended \<sigma> (Input s)" by (simp add: ended_def)
    then show ?thesis using resume_ended [OF eof(6)] resume_laws(1) [OF eof(6)] by metis
  next
    case (post p x)
    then show ?thesis by (auto simp: ended_def)
  next
    case (sent p)
    then have "accepts (Pipe_offer p) Sent" if "thread_good (thread s)" using that by auto
    then show ?thesis
      using sent(2) resume_ended [OF sent(4), of c] resume_laws(8) [OF sent(4)] keeps_closed [of p Sent v] by auto
  next
    case (timeout p)
    then have "accepts (Pipe_offer p) WriteTimedOut" if "thread_good (thread s)" using that by auto
    moreover have "ended \<sigma> c \<Longrightarrow> c \<noteq> Output s" using timeout(3) by (auto simp: ended_def settled_def)
    ultimately show ?thesis
      using timeout(2) resume_ended [OF timeout(4), of c] resume_laws(8) [OF timeout(4)]
        keeps_closed [of p WriteTimedOut v] by (auto simp: ended_def)
  next
    case (timer p)
    then show ?thesis
      using resume_ended [OF timer(4), of c] resume_laws(8) [OF timer(4)] keeps_closed [of p TimerFired v] by auto
  next
    case (intr p)
    then show ?thesis
      using resume_ended [OF intr(4), of c] resume_laws(8) [OF intr(4)] keeps_closed [of p Interrupted v] by auto
  qed
  then show "ended \<sigma> c \<Longrightarrow> ended \<sigma>' c"
    and "thread_good (thread s) \<Longrightarrow> thread_keeps (thread s) \<Longrightarrow> is_closed s' \<Longrightarrow> \<not> is_closed s \<Longrightarrow>
      ended \<sigma>' (Input s')"
    by blast+
qed

lemma sealed_mono:
  assumes "sealed l" and "\<And>c. c \<in> set (map Input (stubs l)) \<Longrightarrow> ended (chans l) c \<Longrightarrow> ended (chans l') c"
    and "\<And>s. s \<in> set (stubs l') \<Longrightarrow> is_closed s \<Longrightarrow>
      (\<exists>s0 \<in> set (stubs l). is_closed s0 \<and> Input s0 = Input s) \<or> ended (chans l') (Input s)"
  shows "sealed l'"
  using assms by (fastforce simp: sealed_def)

lemma on_stub_sealed:
  assumes inv: "link_inv l" and on: "on_stub k a v l = Some (Fine l')" and kp: "all_keep l" and se: "sealed l"
  shows "sealed l'"
  using inv on
proof (cases rule: on_stub_cases)
  case (1 as s s' bs \<sigma>')
  note e = stub_step_ended [OF 1(4)]
  have "thread_good (thread s)" "thread_keeps (thread s)"
    using 1(1,2,11) kp by (auto simp: stub_ok_def all_keep_def)
  with e(2) 1(12) have "is_closed s' \<Longrightarrow> ended \<sigma>' (Input s')" by blast
  with e(1) se 1(5) show ?thesis
    by (intro sealed_mono [OF se]) (auto dest!: set_update_subset_insert [THEN subsetD])
qed

lemma post_ended:
  "post_on i c l = Fine l' \<Longrightarrow> ended (chans l) x \<Longrightarrow> ended (chans l') x \<and> stubs l' = stubs l"
  by (auto simp: post_on_def Let_def chan_send_def ended_def split: option.splits if_splits)

lemma closed_ended: "stub_Close \<sigma> s = Fine (\<sigma>', s') \<Longrightarrow> ended \<sigma> c \<Longrightarrow> ended \<sigma>' c"
  by (auto simp: stub_Close_def chan_close_def ended_def split: if_splits option.splits)

lemma sealed_simps [simp]:
  "sealed (l\<lparr>ctl := c\<rparr>) = sealed l" "sealed (l\<lparr>read_state := r\<rparr>) = sealed l"
  "sealed (l\<lparr>write_state := w\<rparr>) = sealed l" "sealed (l\<lparr>taken := t\<rparr>) = sealed l"
  "sealed (l\<lparr>delivered := d\<rparr>) = sealed l"
  by (simp_all add: sealed_def)

lemma sealed_chans:
  "sealed l \<Longrightarrow> (\<And>c. c \<in> set (map Input (stubs l)) \<Longrightarrow> ended (chans l) c \<Longrightarrow> ended \<sigma> c) \<Longrightarrow> sealed (l\<lparr>chans := \<sigma>\<rparr>)"
  by (auto simp: sealed_def)

lemma sealed_update:
  assumes "sealed l" and "i < length (stubs l)" and "Input s' = Input (stubs l ! i)"
    and "\<And>c. ended (chans l) c \<Longrightarrow> ended \<sigma> c" and "is_closed s' \<Longrightarrow> ended \<sigma> (Input s') \<or> is_closed (stubs l ! i)"
  shows "sealed (l\<lparr>chans := \<sigma>, stubs := (stubs l)[i := s'], ctl := c\<rparr>)"
proof -
  have "ended \<sigma> (Input s)" if "s \<in> set ((stubs l)[i := s'])" "is_closed s" for s
  proof -
    from that(1) have "s = s' \<or> s \<in> set (stubs l)" by (auto dest!: set_update_subset_insert [THEN subsetD])
    then show ?thesis
      using assms that(2) by (metis nth_mem sealed_def)
  qed
  then show ?thesis by (simp add: sealed_def)
qed

lemma after_closed_sealed:
  assumes inv: "link_inv l" and se: "sealed l" and r: "after_closed l = Fine l'"
  shows "sealed l'"
proof (cases "\<exists>w ph. ctl l = Adding w ph")
  case True
  then obtain w ph where ad: "ctl l = Adding w ph" by blast
  let ?i = "length (stubs l) - 1" let ?s = "stubs l ! ?i"
  from r ad obtain \<sigma> s' where c: "stub_Close (chans l) (?s\<lparr>Output := Input ?s\<rparr>) = Fine (\<sigma>, s')"
    and l': "l' = l\<lparr>chans := \<sigma>, stubs := (stubs l)[?i := s'], ctl := NoOp\<rparr>"
    by (auto simp: after_closed_def Let_def split: outcome.splits)
  have "fresh_ok (chans l) ?s" "stubs l \<noteq> []"
    using link_invD(3,7) [OF inv] ad by (simp_all add: ctl_ok_def last_conv_nth)
  then have "ended \<sigma> (Input ?s)" "Input s' = Input ?s"
    using c by (auto simp: stub_Close_def stub_Closed_def chan_close_def fresh_ok_def stopped_def ended_def
        split: option.splits if_splits)
  then show ?thesis
    unfolding l' using se \<open>stubs l \<noteq> []\<close> closed_ended [OF c] by (intro sealed_update) auto
next
  case False
  with r se show ?thesis by (auto simp: after_closed_def split: control.splits)
qed

lemma after_exited_sealed:
  assumes inv: "link_inv l" and t: "ctl_target l = Some (k, Waiting)" and se: "sealed l"
    and r: "after_exited chain ds l = Fine l'"
  shows "sealed l'"
proof (cases "ctl l")
  case (Adding w ph)
  let ?i = "length (stubs l) - 1"
  have n: "2 \<le> length (stubs l)" using link_invD(7) [OF inv] Adding by (simp add: ctl_ok_def)
  from r Adding obtain s' p' where l': "l' = l\<lparr>stubs := (stubs l)[?i := s', ?i - 1 := p'], ctl := NoOp\<rparr>"
    and s': "Input s' = Input (stubs l ! ?i)" "is_closed s' = is_closed (stubs l ! ?i)"
    and p': "Input p' = Input (stubs l ! (?i - 1))" "is_closed p' = is_closed (stubs l ! (?i - 1))"
    by (auto simp: after_exited_def Let_def split: if_splits)
  have "sealed (l\<lparr>chans := chans l, stubs := (stubs l)[?i := s'], ctl := NoOp\<rparr>)"
    using s' n se by (intro sealed_update) auto
  from sealed_update [OF this, of "?i - 1" p' "chans l" NoOp] show ?thesis
    unfolding l' using p' n by simp
next
  case (Updating w ph)
  have i: "nat (tw_Index w) < length (stubs l)" using link_invD(7) [OF inv] Updating by (simp add: ctl_ok_def)
  have l': "l' = l\<lparr>chans := chans l, stubs := (stubs l)[nat (tw_Index w) := Run (ds 0) w (stubs l ! nat (tw_Index w))], ctl := NoOp\<rparr>"
    using r Updating by (simp add: after_exited_def Let_def)
  show ?thesis unfolding l' using i se by (intro sealed_update) auto
qed (use r se t in \<open>auto simp: after_exited_def ctl_target_def\<close>)

lemma stop_round_sealed:
  assumes inv: "link_inv l" and ct: "ctl l = Stopping w h False" and se: "sealed l"
    and r: "stop_round w h l = Some (Fine l')"
  shows "sealed l'"
proof -
  let ?i = "nat (tw_Index w)" let ?in = "Input (stubs l ! ?i)"
  have i: "?i < length (stubs l)" using link_invD(7) [OF inv] ct by (simp add: ctl_ok_def)
  show ?thesis
  proof (cases "chan_recv (chans l ?in)")
    case (Value x ch)
    let ?l = "l\<lparr>chans := (chans l)(?in := ch)\<rparr>"
    from r Value obtain l1 where p: "post_on ?i x ?l = Fine l1" and l': "l' = l1\<lparr>ctl := Stopping w h True\<rparr>"
      by (auto simp: stop_round_def set_ctl_def Let_def split: outcome.splits)
    have "ended (chans l) c \<Longrightarrow> ended (chans ?l) c" for c
      using Value by (auto simp: chan_recv_Value ended_def)
    then have "ended (chans l) c \<Longrightarrow> ended (chans l1) c" for c using post_ended [OF p] by blast
    moreover have "stubs l1 = stubs l" using p by (auto simp: post_on_def Let_def split: option.splits)
    ultimately show ?thesis unfolding l' using se by (simp add: sealed_def)
  next
    case Drained
    from r [unfolded stop_round_def Let_def Drained received.case] obtain \<sigma> s' c
      where cl: "stub_Close (chans l) (stubs l ! ?i) = Fine (\<sigma>, s')"
      and l': "l' = l\<lparr>chans := \<sigma>, stubs := (stubs l)[?i := s'], ctl := c\<rparr>"
      by (auto split: outcome.splits)
    have "ended (chans l) ?in" using Drained by (simp add: ended_def)
    then have "ended \<sigma> (Input s')" using closed_ended [OF cl] closed_queues [OF cl] by simp
    then show ?thesis
      unfolding l' using se i closed_ended [OF cl] closed_queues [OF cl] by (intro sealed_update) auto
  next
    case Empty
    with r show ?thesis by (simp add: stop_round_def Let_def)
  qed
qed

lemma flush_round_sealed:
  assumes ct: "ctl l = Flushing w False" and se: "sealed l" and r: "flush_round w l = Some (Fine l')"
  shows "sealed l'"
proof -
  let ?i = "nat (tw_Index w)" let ?in = "Input (stubs l ! ?i)"
  from r obtain x ch l1 where v: "chan_recv (chans l ?in) = Value x ch"
    and p: "post_on ?i x (l\<lparr>chans := (chans l)(?in := ch)\<rparr>) = Fine l1" and l': "l' = l1\<lparr>ctl := Flushing w True\<rparr>"
    by (auto simp: flush_round_def set_ctl_def Let_def split: outcome.splits if_splits received.splits)
  have "ended (chans l) c \<Longrightarrow> ended ((chans l)(?in := ch)) c" for c
    using v by (auto simp: chan_recv_Value ended_def)
  then have "ended (chans l) c \<Longrightarrow> ended (chans l1) c" for c using post_ended [OF p] by fastforce
  moreover have "stubs l1 = stubs l" using p by (auto simp: post_on_def Let_def split: option.splits)
  ultimately show ?thesis unfolding l' using se by (simp add: sealed_def)
qed

lemma finish_remove_sealed:
  assumes inv: "link_inv l" and ct: "ctl l = Flushing w False" and se: "sealed l"
    and r: "finish_remove chain ds w l = Some (Fine l')"
  shows "sealed l'"
proof -
  have "\<not> is_closed (stubs l ! (nat (tw_Index w) - 1))"
    using link_invD(7) [OF inv] ct by (simp add: ctl_ok_def stopped_def)
  then show ?thesis
    using r se by (auto simp: finish_remove_def Let_def sealed_def split: if_splits)
      (blast dest: in_set_takeD in_set_dropD)+
qed

lemma link_event_sealed:
  assumes inv: "link_inv l" and st: "link_event_step chain e l = Some (Fine l')"
    and kp: "all_keep l" and se: "sealed l"
  shows "sealed l'"
proof (cases e)
  case (Step x)
  with st have s: "link_step chain x l = Some (Fine l')" by (simp add: link_event_step_def)
  show ?thesis
  proof (cases x)
    case (ReadChunk bs tm)
    with s se show ?thesis
      by (auto simp: ChanWriter_Write_def chan_send_def sealed_def ended_def split: if_splits) metis+
  next
    case ReadEnd
    with s se show ?thesis
      by (auto simp: ChanWriter_Close_def chan_close_def sealed_def ended_def split: if_splits) metis+
  next
    case (StubAct k a v)
    with s on_stub_sealed [OF inv _ kp se] show ?thesis by (auto split: if_splits)
  next
    case WriteChunk
    with s se show ?thesis
      by (auto simp: chan_recv_Value sealed_def ended_def split: if_splits received.splits)
        (metis list.discI)+
  next
    case OpClosed
    with s after_closed_sealed [OF inv se] show ?thesis by (auto split: option.splits phase.splits if_splits)
  next
    case (OpInterrupt v)
    with s on_stub_sealed [OF inv _ kp se] show ?thesis
      by (auto simp: map_fine simp del: map_option_eq_Some split: option.splits phase.splits)
  next
    case (HelpInterrupt v)
    with s on_stub_sealed [OF inv _ kp se] show ?thesis
      by (auto simp: map_fine simp del: map_option_eq_Some split: option.splits helper.splits)
  next
    case (OpExited ds)
    with s after_exited_sealed [OF inv _ se] show ?thesis by (auto split: option.splits phase.splits if_splits)
  next
    case OpRound
    with s stop_round_sealed [OF inv _ se] flush_round_sealed [OF _ se] show ?thesis
      by (auto split: control.splits bool.splits)
  next
    case OpTimeout
    with s se show ?thesis
      by (auto simp: Let_def sealed_def ended_def chan_withdraw_def split: control.splits bool.splits if_splits)
        (metis butlast.simps(1))+
  next
    case (OpFinish ds)
    with s finish_remove_sealed [OF inv _ se] show ?thesis by (auto split: control.splits bool.splits)
  qed (use s se in \<open>auto split: if_splits option.splits control.splits helper.splits bool.splits\<close>)
next
  case (BeginAdd w)
  have "c \<in> Input ` set (stubs l) \<Longrightarrow> c \<noteq> next_chan l" for c using link_invD(2) [OF inv, of c] by auto
  with BeginAdd st se show ?thesis
    by (auto simp: link_event_step_def link_AddToxic_def Let_def sealed_def ended_def NewToxicStub_def split: if_splits)
qed (use st se in \<open>auto simp: link_event_step_def link_UpdateToxic_def link_RemoveToxic_def split: if_splits\<close>)

lemma link_run_sealed:
  "link_inv l \<Longrightarrow> all_keep l \<Longrightarrow> sealed l \<Longrightarrow> run_is_clean es \<Longrightarrow> link_run es l = Some (Fine l') \<Longrightarrow> sealed l'"
proof (induction es arbitrary: l)
  case (Cons ce es)
  obtain chain e where ce: "ce = (chain, e)" by (cases ce)
  with Cons.prems obtain l1 where s: "link_event_step chain e l = Some (Fine l1)" "link_run es l1 = Some (Fine l')"
    by (auto split: option.splits outcome.splits)
  have "all_keep l1"
    using link_event_keeps [OF Cons.prems(1) s(1) Cons.prems(2)] Cons.prems(4) ce by (simp add: run_is_clean_def)
  with Cons.IH [OF link_event_inv [OF Cons.prems(1) s(1)] _ link_event_sealed [OF Cons.prems(1) s(1) Cons.prems(2,3)] _ s(2)]
    Cons.prems(4) ce show ?case by (simp add: run_is_clean_def)
qed simp

lemma all_closed:
  "plumbed W \<sigma> out ss \<Longrightarrow> \<forall>s \<in> set ss. is_closed s \<longrightarrow> ended \<sigma> (Input s) \<Longrightarrow> shut (\<sigma> out) \<Longrightarrow>
     \<forall>s \<in> set ss. is_closed s \<and> thread s = Exited"
proof (induction ss arbitrary: out rule: rev_induct)
  case (snoc s ss)
  then have "plumbed W \<sigma> (Input s) ss" "stub_ok W \<sigma> out s" by (simp_all add: plumbed_split)
  with snoc.prems(3) have c: "is_closed s" "thread s = Exited" by (auto simp: stub_ok_def)
  then have "shut (\<sigma> (Input s))" using snoc.prems(2) by (simp add: ended_def)
  with snoc.IH [of "Input s"] snoc.prems(2) \<open>plumbed W \<sigma> (Input s) ss\<close> c show ?case by simp
qed simp

lemma output_shut:
  assumes inv: "link_inv l" and se: "sealed l" and sh: "shut (chans l (link_output l))"
  shows "in_flight l = chunk_bytes (queue (chans l (link_output l)))" and "read_state l = RDone"
proof -
  have se': "\<forall>s \<in> set (live l). is_closed s \<longrightarrow> ended (chans l) (Input s)"
    using se live_subset [of l] by (auto simp: sealed_def)
  note c = all_closed [OF link_invD(5) [OF inv] se' sh]
  have "front (chans l) (live l) = []"
    by (rule front_empty) (use c se' in \<open>auto simp: ended_def\<close>)
  then show "in_flight l = chunk_bytes (queue (chans l (link_output l)))"
    using in_flight_live [OF inv] by simp
  have "hd (live l) \<in> set (live l)" using live_hd(1) [OF inv] by simp
  then have "shut (chans l (link_input l))" using c se' live_hd(2) [OF inv] by (auto simp: ended_def)
  then show "read_state l = RDone" using link_invD(6) [OF inv] by blast
qed

lemma new_link_sealed: "sealed (new_link ds chain dir)"
proof -
  obtain ss \<sigma> out where m: "make_stubs chain (\<lambda>_. make_chan 0) 0 = (ss, \<sigma>, out)"
    by (metis prod_cases3)
  have "\<not> is_closed (ss ! i)" if "i < length chain" for i
    using make_stubs_laws(2,4) [OF m] that by (metis nth_mem)
  then show ?thesis by (auto simp: sealed_def new_link_fields [OF m])
qed

subsection \<open>The properties\<close>

text \<open>C2: At every moment of every run the bytes delivered to the destination, followed by the
  bytes in flight, are a subsequence of the bytes taken from the source: whatever toxics are
  added, updated and removed, and however the goroutines interleave, data is never
  reordered, repeated or made up.\<close>

theorem link_never_reorders:
  assumes "chain \<noteq> []" and "link_run es (new_link ds chain dir) = Some (Fine l)"
  shows "subseq (delivered l @ in_flight l) (taken l)"
proof -
  obtain ss \<sigma> out where m: "make_stubs chain (\<lambda>_. make_chan 0) 0 = (ss, \<sigma>, out)"
    by (metis prod_cases3)
  show ?thesis
    using link_run_advances [OF new_link_inv [OF assms(1)] assms(2)] new_link_in_flight [of ds chain dir]
      new_link_fields(8,9) [OF m, of ds dir] by (auto simp: advances_def)
qed

lemma keeps_all_data:
  assumes "chain \<noteq> []" and "chain_keeps chain" and "run_is_clean es"
    and "link_run es (new_link ds chain dir) = Some (Fine l)"
  shows "taken l = delivered l @ in_flight l"
proof -
  obtain ss \<sigma> out where m: "make_stubs chain (\<lambda>_. make_chan 0) 0 = (ss, \<sigma>, out)"
    by (metis prod_cases3)
  have "run_keeps es (new_link ds chain dir)"
    using link_run_keeps [OF new_link_inv new_link_keeps] assms by blast
  then show ?thesis
    using link_run_advances [OF new_link_inv [OF assms(1)] assms(4)] new_link_in_flight [of ds chain dir]
      new_link_fields(8,9) [OF m, of ds dir] by (auto simp: advances_def)
qed



text \<open>A run for the witnesses: a slicer is added while a chunk is on its way; then the stream ends.\<close>

definition plain_chain :: "ToxicWrapper list" where
  "plain_chain = [some_toxic NoopToxic [] 0]"

definition cutter :: ToxicWrapper where
  "cutter = some_toxic (SlicerT \<lparr>AverageSize = 1, SizeVariation = 0, SlicerDelay = 0\<rparr>) ''cut'' 1"

definition cut_run :: "(ToxicWrapper list \<times> link_event) list" where
  "cut_run =
     map (Pair plain_chain) [Step (ReadChunk [1, 2] 0)]
     @ map (Pair [some_toxic NoopToxic [] 0, cutter])
         [BeginAdd cutter, Step (OpInterrupt idle), Step (OpExited (\<lambda>_. 0)),
          Step (StubAct 0 ARecv idle), Step (StubAct 0 APost idle), Step (StubAct 1 ARecv idle),
          Step (StubAct 0 ASent idle), Step ReadSent, Step ReadEnd, Step (StubAct 0 ARecv idle),
          Step (StubAct 1 APost idle), Step WriteChunk, Step (StubAct 1 ASent idle)]"

definition cut_end :: "(ToxicWrapper list \<times> link_event) list" where
  "cut_end = map (Pair [some_toxic NoopToxic [] 0, cutter])
     [Step (StubAct 1 ATimer idle), Step (StubAct 1 APost idle), Step WriteChunk, Step (StubAct 1 ASent idle),
      Step (StubAct 1 ATimer idle), Step (StubAct 1 ARecv idle)]"

definition link_view :: "ToxicLink outcome option \<Rightarrow> (byte list \<times> byte list \<times> byte list \<times> bool) option" where
  "link_view r = (case r of Some (Fine l) \<Rightarrow>
     Some (taken l, delivered l, in_flight l, shut (chans l (link_output l))) | _ \<Rightarrow> None)"

lemma link_view_Some:
  "link_view r = Some (a, b, c, d) \<Longrightarrow> \<exists>l. r = Some (Fine l) \<and> taken l = a \<and> delivered l = b \<and> in_flight l = c
     \<and> shut (chans l (link_output l)) = d"
  by (auto simp: link_view_def split: option.splits outcome.splits)

lemma cut_views:
  "link_view (link_run cut_run (new_link (\<lambda>_. 0) plain_chain Upstream)) = Some ([1, 2], [1], [2], False)"
  "link_view (link_run (cut_run @ cut_end) (new_link (\<lambda>_. 0) plain_chain Upstream)) = Some ([1, 2], [1, 2], [], True)"
  by code_simp+

lemma cut_clean: "plain_chain \<noteq> [] \<and> chain_keeps plain_chain \<and> run_is_clean cut_run \<and> run_is_clean cut_end"
  by code_simp

theorem link_never_reorders_witness:
  "\<exists>l. link_run cut_run (new_link (\<lambda>_. 0) plain_chain Upstream) = Some (Fine l)
     \<and> delivered l = [1] \<and> subseq (delivered l @ in_flight l) (taken l)"
  using link_view_Some [OF cut_views(1)] link_never_reorders [OF conjunct1 [OF cut_clean]] by metis



end
