(* ===== verification/Json.thy ===== *)
theory Json
  imports Toxic
begin

text \<open>
  The part of Go's \<open>encoding/json\<close> that the program uses, on parsed values: decoding an
  object into a struct, field by field in the order of the text, and the settings of the
  toxics as the struct tags of \<open>toxics/*.go\<close> name them. A number is kept with the
  distinction that matters to the decoder: an integer literal, or one with a fraction
  or an exponent. Texts that are not JSON are \<open>None\<close> where a body is expected.
\<close>

datatype json =
    JNull
  | JBool bool
  | JInt int
  | JFrac rat
  | JStr string
  | JArr "json list"
  | JObj "(string \<times> json) list"

subsection \<open>Decoding\<close>

text \<open>
  Each function returns the new value and whether the JSON value has the wrong type, in
  which case the old value stays; \<open>null\<close> leaves a value of these types as it is.
\<close>

fun set_int :: "json \<Rightarrow> int \<Rightarrow> int \<times> bool" where
  "set_int (JInt n) old = (if is_i64 n then (n, False) else (old, True))"
| "set_int JNull old = (old, False)"
| "set_int _ old = (old, True)"

fun set_string :: "json \<Rightarrow> string \<Rightarrow> string \<times> bool" where
  "set_string (JStr s) old = (s, False)"
| "set_string JNull old = (old, False)"
| "set_string _ old = (old, True)"

fun set_bool :: "json \<Rightarrow> bool \<Rightarrow> bool \<times> bool" where
  "set_bool (JBool b) old = (b, False)"
| "set_bool JNull old = (old, False)"
| "set_bool _ old = (old, True)"

text \<open>\<open>float32\<close>: the value is not rounded here, only its range is checked.\<close>

definition is_f32 :: "rat \<Rightarrow> bool" where
  "is_f32 x \<longleftrightarrow> \<bar>x\<bar> < 2 ^ 128 - 2 ^ 103"

fun set_f32 :: "json \<Rightarrow> rat \<Rightarrow> rat \<times> bool" where
  "set_f32 (JInt n) old = (if is_f32 (of_int n) then (of_int n, False) else (old, True))"
| "set_f32 (JFrac x) old = (if is_f32 x then (x, False) else (old, True))"
| "set_f32 JNull old = (old, False)"
| "set_f32 _ old = (old, True)"

text \<open>
  The fields of an object are decoded one after the other, also after an error, and the
  error is reported at the end (\<open>UnmarshalTypeError\<close>).
\<close>

fun decode_fields :: "(string \<Rightarrow> json \<Rightarrow> 'a \<Rightarrow> 'a \<times> bool) \<Rightarrow> (string \<times> json) list \<Rightarrow> 'a \<Rightarrow> 'a \<times> bool" where
  "decode_fields f [] a = (a, False)"
| "decode_fields f ((k, j) # kvs) a =
     (let (a1, e1) = f k j a; (a2, e2) = decode_fields f kvs a1 in (a2, e1 \<or> e2))"

definition decode_struct :: "(string \<Rightarrow> json \<Rightarrow> 'a \<Rightarrow> 'a \<times> bool) \<Rightarrow> json \<Rightarrow> 'a \<Rightarrow> 'a \<times> bool" where
  "decode_struct f j a = (case j of
       JObj kvs \<Rightarrow> decode_fields f kvs a
     | JNull \<Rightarrow> (a, False)
     | _ \<Rightarrow> (a, True))"

text \<open>Keys are compared without regard to case.\<close>

definition key_is :: "string \<Rightarrow> string \<Rightarrow> bool" where
  "key_is k field \<longleftrightarrow> ToLower k = field"

lemma decode_fields_append:
  "decode_fields f (xs @ ys) a =
     (let (a1, e1) = decode_fields f xs a; (a2, e2) = decode_fields f ys a1 in (a2, e1 \<or> e2))"
  by (induction xs arbitrary: a) (auto simp: Let_def split: prod.splits)

subsection \<open>The settings of the toxics\<close>

definition latency_field :: "string \<Rightarrow> json \<Rightarrow> LatencyToxic \<Rightarrow> LatencyToxic \<times> bool" where
  "latency_field k j t =
     (if key_is k ''latency'' then map_prod (\<lambda>n. t\<lparr>Latency := n\<rparr>) id (set_int j (Latency t))
      else if key_is k ''jitter'' then map_prod (\<lambda>n. t\<lparr>Jitter := n\<rparr>) id (set_int j (Jitter t))
      else (t, False))"

definition bandwidth_field :: "string \<Rightarrow> json \<Rightarrow> BandwidthToxic \<Rightarrow> BandwidthToxic \<times> bool" where
  "bandwidth_field k j t =
     (if key_is k ''rate'' then map_prod (\<lambda>n. t\<lparr>Rate := n\<rparr>) id (set_int j (Rate t))
      else (t, False))"

definition slicer_field :: "string \<Rightarrow> json \<Rightarrow> SlicerToxic \<Rightarrow> SlicerToxic \<times> bool" where
  "slicer_field k j t =
     (if key_is k ''average_size'' then map_prod (\<lambda>n. t\<lparr>AverageSize := n\<rparr>) id (set_int j (AverageSize t))
      else if key_is k ''size_variation'' then
        map_prod (\<lambda>n. t\<lparr>SizeVariation := n\<rparr>) id (set_int j (SizeVariation t))
      else if key_is k ''delay'' then map_prod (\<lambda>n. t\<lparr>SlicerDelay := n\<rparr>) id (set_int j (SlicerDelay t))
      else (t, False))"

definition reset_field :: "string \<Rightarrow> json \<Rightarrow> ResetToxic \<Rightarrow> ResetToxic \<times> bool" where
  "reset_field k j t =
     (if key_is k ''timeout'' then map_prod (\<lambda>n. t\<lparr>Timeout := n\<rparr>) id (set_int j (Timeout t))
      else (t, False))"

text \<open>Decoding the attributes into an existing toxic.\<close>

fun decode_toxic :: "json \<Rightarrow> toxic \<Rightarrow> toxic \<times> bool" where
  "decode_toxic j NoopToxic = (NoopToxic, case j of JObj kvs \<Rightarrow> False | JNull \<Rightarrow> False | _ \<Rightarrow> True)"
| "decode_toxic j (LatencyT t) = map_prod LatencyT id (decode_struct latency_field j t)"
| "decode_toxic j (BandwidthT t) = map_prod BandwidthT id (decode_struct bandwidth_field j t)"
| "decode_toxic j (SlicerT t) = map_prod SlicerT id (decode_struct slicer_field j t)"
| "decode_toxic j (ResetT t) = map_prod ResetT id (decode_struct reset_field j t)"

text \<open>\<open>json.Marshal\<close> of a toxic: its fields in the order of the struct.\<close>

fun encode_toxic :: "toxic \<Rightarrow> json" where
  "encode_toxic NoopToxic = JObj []"
| "encode_toxic (LatencyT t) = JObj [(''latency'', JInt (Latency t)), (''jitter'', JInt (Jitter t))]"
| "encode_toxic (BandwidthT t) = JObj [(''rate'', JInt (Rate t))]"
| "encode_toxic (SlicerT t) =
     JObj [(''average_size'', JInt (AverageSize t)), (''size_variation'', JInt (SizeVariation t)),
           (''delay'', JInt (SlicerDelay t))]"
| "encode_toxic (ResetT t) = JObj [(''timeout'', JInt (Timeout t))]"

text \<open>The settings are 64-bit values.\<close>

fun settings_in_range :: "toxic \<Rightarrow> bool" where
  "settings_in_range NoopToxic = True"
| "settings_in_range (LatencyT t) = (is_i64 (Latency t) \<and> is_i64 (Jitter t))"
| "settings_in_range (BandwidthT t) = is_i64 (Rate t)"
| "settings_in_range (SlicerT t) = (is_i64 (AverageSize t) \<and> is_i64 (SizeVariation t) \<and> is_i64 (SlicerDelay t))"
| "settings_in_range (ResetT t) = is_i64 (Timeout t)"

lemmas field_defs = latency_field_def bandwidth_field_def slicer_field_def reset_field_def

lemma key_is_literals [simp]:
  "key_is ''latency'' ''latency''" "key_is ''jitter'' ''jitter''" "\<not> key_is ''jitter'' ''latency''"
  "key_is ''rate'' ''rate''" "key_is ''timeout'' ''timeout''"
  "key_is ''average_size'' ''average_size''" "key_is ''size_variation'' ''size_variation''"
  "key_is ''delay'' ''delay''" "\<not> key_is ''size_variation'' ''average_size''"
  "\<not> key_is ''delay'' ''average_size''" "\<not> key_is ''delay'' ''size_variation''"
  by (simp_all add: key_is_def ToLower_def lower_char_def)

lemma decode_toxic_type: "zero_of (fst (decode_toxic j t)) = zero_of t"
  by (cases t) simp_all

lemma set_int_range [simp]: "is_i64 n \<Longrightarrow> is_i64 (fst (set_int j n))"
  by (cases j) auto

lemma decode_fields_inv:
  "(\<And>k j a. P a \<Longrightarrow> P (fst (f k j a))) \<Longrightarrow> P a \<Longrightarrow> P (fst (decode_fields f kvs a))"
proof (induction kvs arbitrary: a)
  case (Cons kv kvs)
  obtain k j where "kv = (k, j)" by (cases kv)
  with Cons.prems Cons.IH [of "fst (f k j a)"] show ?case by (simp add: Let_def split_beta)
qed simp

lemma decode_struct_inv:
  "(\<And>k j a. P a \<Longrightarrow> P (fst (f k j a))) \<Longrightarrow> P a \<Longrightarrow> P (fst (decode_struct f j a))"
  using decode_fields_inv [of P f] by (auto simp: decode_struct_def split: json.splits)

lemma decode_toxic_range: "settings_in_range t \<Longrightarrow> settings_in_range (fst (decode_toxic j t))"
proof (cases t)
  case (LatencyT x)
  assume "settings_in_range t"
  moreover have "is_i64 (Latency (fst (latency_field k j y))) \<and> is_i64 (Jitter (fst (latency_field k j y)))"
    if "is_i64 (Latency y) \<and> is_i64 (Jitter y)" for k j y
    using that by (simp add: latency_field_def)
  ultimately show ?thesis
    using LatencyT decode_struct_inv [of "\<lambda>t. is_i64 (Latency t) \<and> is_i64 (Jitter t)" latency_field x j] by simp
next
  case (BandwidthT x)
  assume "settings_in_range t"
  moreover have "is_i64 (Rate (fst (bandwidth_field k j y)))" if "is_i64 (Rate y)" for k j y
    using that by (simp add: bandwidth_field_def)
  ultimately show ?thesis
    using BandwidthT decode_struct_inv [of "\<lambda>t. is_i64 (Rate t)" bandwidth_field x j] by simp
next
  case (SlicerT x)
  assume "settings_in_range t"
  moreover have "settings_in_range (SlicerT (fst (slicer_field k j y)))" if "settings_in_range (SlicerT y)" for k j y
    using that by (simp add: slicer_field_def)
  ultimately show ?thesis
    using SlicerT decode_struct_inv [of "\<lambda>t. settings_in_range (SlicerT t)" slicer_field x j] by simp
next
  case (ResetT x)
  assume "settings_in_range t"
  moreover have "is_i64 (Timeout (fst (reset_field k j y)))" if "is_i64 (Timeout y)" for k j y
    using that by (simp add: reset_field_def)
  ultimately show ?thesis
    using ResetT decode_struct_inv [of "\<lambda>t. is_i64 (Timeout t)" reset_field x j] by simp
qed simp

text \<open>C22: The attributes a toxic is shown with can be sent back: decoding them into a fresh toxic of
  the type gives the toxic again, without an error.\<close>

theorem toxic_attributes_roundtrip:
  assumes "settings_in_range t" and "zero_of u = zero_of t"
  shows "decode_toxic (encode_toxic t) u = (t, False)"
  using assms by (cases t; cases u) (auto simp: decode_struct_def field_defs)

theorem toxic_attributes_roundtrip_witness:
  "decode_toxic (encode_toxic (LatencyT \<lparr>Latency = 100, Jitter = 5\<rparr>)) (LatencyT \<lparr>Latency = 0, Jitter = 0\<rparr>)
     = (LatencyT \<lparr>Latency = 100, Jitter = 5\<rparr>, False)"
  by (rule toxic_attributes_roundtrip) (simp_all add: is_i64_def)

end
