(* ===== verification/ApiErrors.thy ===== *)
theory ApiErrors
  imports Json
begin

text \<open>
  The errors of \<open>api.go\<close> with their HTTP status codes, and the contract of a store of named
  things that the collections of toxics and of proxies both promise.
\<close>

record ApiError =
  Message :: string
  StatusCode :: nat

definition newError :: "string \<Rightarrow> nat \<Rightarrow> ApiError" where
  "newError msg status = \<lparr>Message = msg, StatusCode = status\<rparr>"

definition ErrBadRequestBody :: ApiError where
  "ErrBadRequestBody = newError ''bad request body'' 400"

definition ErrMissingField :: ApiError where
  "ErrMissingField = newError ''missing required field'' 400"

definition ErrProxyNotFound :: ApiError where
  "ErrProxyNotFound = newError ''proxy not found'' 404"

definition ErrProxyAlreadyExists :: ApiError where
  "ErrProxyAlreadyExists = newError ''proxy already exists'' 409"

definition ErrInvalidStream :: ApiError where
  "ErrInvalidStream = newError ''stream was invalid, can be either upstream or downstream'' 400"

definition ErrInvalidToxicType :: ApiError where
  "ErrInvalidToxicType = newError ''invalid toxic type'' 400"

definition ErrToxicAlreadyExists :: ApiError where
  "ErrToxicAlreadyExists = newError ''toxic already exists'' 409"

definition ErrToxicNotFound :: ApiError where
  "ErrToxicNotFound = newError ''toxic not found'' 404"

lemmas api_error_defs [go_defs] =
  newError_def ErrBadRequestBody_def ErrMissingField_def ErrProxyNotFound_def ErrProxyAlreadyExists_def
  ErrInvalidStream_def ErrInvalidToxicType_def ErrToxicAlreadyExists_def ErrToxicNotFound_def

text \<open>
  A Go \<open>error\<close> is one of these, an error variable of the program (compared by identity), or
  another error, known by its text.
\<close>

datatype go_error = Api ApiError | Sentinel string | Other string

fun error_text :: "go_error \<Rightarrow> string" where
  "error_text (Api e) = Message e"
| "error_text (Sentinel s) = s"
| "error_text (Other s) = s"

definition joinError :: "go_error option \<Rightarrow> ApiError \<Rightarrow> ApiError option" where
  "joinError err wrapper = map_option
     (\<lambda>e. \<lparr>Message = Message wrapper @ '': '' @ error_text e, StatusCode = StatusCode wrapper\<rparr>) err"

text \<open>The status code \<open>apiError\<close> answers with; errors of other kinds count as internal.\<close>

fun error_status :: "go_error \<Rightarrow> nat" where
  "error_status (Api e) = StatusCode e"
| "error_status (Sentinel s) = 500"
| "error_status (Other s) = 500"

lemma joinError_status:
  "joinError err w = Some e \<Longrightarrow> StatusCode e = StatusCode w \<and> err \<noteq> None"
  by (auto simp: joinError_def)

subsection \<open>Stores of named things\<close>

locale named_store =
  fixes good :: "'s \<Rightarrow> bool"
    and lookup :: "string \<Rightarrow> 's \<Rightarrow> 'v option"
    and key :: "'v \<Rightarrow> string"
    and insert_new :: "'v \<Rightarrow> 's \<Rightarrow> 's"
    and delete :: "string \<Rightarrow> 's \<Rightarrow> 's"
  assumes good_insert: "good s \<Longrightarrow> lookup (key v) s = None \<Longrightarrow> good (insert_new v s)"
    and good_delete: "good s \<Longrightarrow> good (delete n s)"
    and lookup_insert: "good s \<Longrightarrow> lookup (key v) s = None \<Longrightarrow>
      lookup n (insert_new v s) = (if n = key v then Some v else lookup n s)"
    and lookup_delete: "good s \<Longrightarrow> lookup n (delete m s) = (if n = m then None else lookup n s)"
begin

lemma delete_insert:
  assumes "good s" and "lookup (key v) s = None"
  shows "lookup n (delete (key v) (insert_new v s)) = lookup n s"
  using assms good_insert lookup_insert lookup_delete by simp

lemma insert_swap:
  assumes "good s" "lookup (key v) s = None" "lookup (key w) s = None" "key v \<noteq> key w"
  shows "lookup n (insert_new v (insert_new w s)) = lookup n (insert_new w (insert_new v s))"
  using assms by (auto simp: good_insert lookup_insert)

text \<open>A sequence of requests, each answered with whether it was carried out.\<close>

fun requests :: "('v + string) list \<Rightarrow> 's \<Rightarrow> bool list \<times> 's" where
  "requests [] s = ([], s)"
| "requests (Inl v # rs) s =
     (if lookup (key v) s = None then (let (bs, s') = requests rs (insert_new v s) in (True # bs, s'))
      else (let (bs, s') = requests rs s in (False # bs, s')))"
| "requests (Inr n # rs) s =
     (if lookup n s = None then (let (bs, s') = requests rs s in (False # bs, s'))
      else (let (bs, s') = requests rs (delete n s) in (True # bs, s')))"

text \<open>The same requests on a plain map.\<close>

fun spec_requests :: "('v + string) list \<Rightarrow> (string \<rightharpoonup> 'v) \<Rightarrow> bool list \<times> (string \<rightharpoonup> 'v)" where
  "spec_requests [] m = ([], m)"
| "spec_requests (Inl v # rs) m =
     (if m (key v) = None then (let (bs, m') = spec_requests rs (m(key v \<mapsto> v)) in (True # bs, m'))
      else (let (bs, m') = spec_requests rs m in (False # bs, m')))"
| "spec_requests (Inr n # rs) m =
     (if m n = None then (let (bs, m') = spec_requests rs m in (False # bs, m'))
      else (let (bs, m') = spec_requests rs (m(n := None)) in (True # bs, m')))"

lemma requests_refine:
  assumes "good s"
  shows "fst (requests rs s) = fst (spec_requests rs (\<lambda>n. lookup n s))
    \<and> (\<lambda>n. lookup n (snd (requests rs s))) = snd (spec_requests rs (\<lambda>n. lookup n s))
    \<and> good (snd (requests rs s))"
  using assms
proof (induction rs arbitrary: s)
  case Nil
  then show ?case by simp
next
  case (Cons r rs)
  show ?case
  proof (cases r)
    case (Inl v)
    show ?thesis
    proof (cases "lookup (key v) s")
      case None
      have "(\<lambda>n. lookup n (insert_new v s)) = (\<lambda>n. lookup n s)(key v \<mapsto> v)"
        using lookup_insert [OF Cons.prems None] by auto
      with Cons.IH [OF good_insert [OF Cons.prems None]] Inl None show ?thesis
        by (simp add: split_beta)
    next
      case (Some w)
      with Cons.IH [OF Cons.prems] Inl show ?thesis by (simp add: split_beta)
    qed
  next
    case (Inr n)
    show ?thesis
    proof (cases "lookup n s")
      case None
      with Cons.IH [OF Cons.prems] Inr show ?thesis by (simp add: split_beta)
    next
      case (Some w)
      have "(\<lambda>m. lookup m (delete n s)) = (\<lambda>m. lookup m s)(n := None)"
        using lookup_delete [OF Cons.prems] by auto
      with Cons.IH [OF good_delete [OF Cons.prems]] Inr Some show ?thesis
        by (simp add: split_beta)
    qed
  qed
qed

end

end
