(* ===== verification/Collection.thy ===== *)
theory Collection
  imports LinkFlow ApiErrors
begin

text \<open>
  \<open>toxic_collection.go\<close>: the chains of toxics of a proxy, one per direction, each starting
  with a hidden noop toxic. This theory models the chains and the functions that change
  them; the theory \<open>CollectionRun\<close> adds the links and the lock.
\<close>

type_synonym chains = "ToxicWrapper list list"

definition noop_wrapper :: ToxicWrapper where
  "noop_wrapper = \<lparr>tw_Toxic = NoopToxic, tw_Name = [], tw_Type = ''noop'', tw_Stream = [],
     tw_Toxicity = 0, tw_Direction = 0, tw_Index = 0, tw_BufferSize = 0\<rparr>"

definition new_chains :: chains where
  "new_chains = replicate (unat NumDirections) [noop_wrapper]"

text \<open>The search skips the first toxic of every chain.\<close>

definition findToxicByName :: "string \<Rightarrow> chains \<Rightarrow> ToxicWrapper option" where
  "findToxicByName name chain = find (\<lambda>w. tw_Name w = name) (concat (map tl chain))"

definition GetToxicArray :: "chains \<Rightarrow> ToxicWrapper list" where
  "GetToxicArray chain = concat (map tl chain)"

text \<open>The chain part of \<open>chainAddToxic\<close>, with the wrapper as it is afterwards.\<close>

definition chain_add :: "ToxicWrapper \<Rightarrow> chains \<Rightarrow> ToxicWrapper \<times> chains" where
  "chain_add w chain =
     (let dir = unat (tw_Direction w); w' = w\<lparr>tw_Index := int (length (chain ! dir))\<rparr>
      in (w', chain[dir := chain ! dir @ [w']]))"

text \<open>The chain part of \<open>chainUpdateToxic\<close>.\<close>

definition chain_update :: "ToxicWrapper \<Rightarrow> chains \<Rightarrow> chains" where
  "chain_update w chain =
     (let dir = unat (tw_Direction w) in chain[dir := (chain ! dir)[nat (tw_Index w) := w]])"

text \<open>The chain part of \<open>chainRemoveToxic\<close>: the toxics behind move up and are renumbered.\<close>

fun renumber :: "nat \<Rightarrow> ToxicWrapper list \<Rightarrow> ToxicWrapper list" where
  "renumber i [] = []"
| "renumber i (w # ws) = w\<lparr>tw_Index := int i\<rparr> # renumber (Suc i) ws"

definition remove_at :: "nat \<Rightarrow> ToxicWrapper list \<Rightarrow> ToxicWrapper list" where
  "remove_at i ws = take i ws @ renumber i (drop (Suc i) ws)"

definition chain_remove :: "ToxicWrapper \<Rightarrow> chains \<Rightarrow> chains" where
  "chain_remove w chain =
     (let dir = unat (tw_Direction w) in chain[dir := remove_at (nat (tw_Index w)) (chain ! dir)])"

subsection \<open>The invariant of the chains\<close>

definition line_ok :: "nat \<Rightarrow> ToxicWrapper list \<Rightarrow> bool" where
  "line_ok dir ws \<longleftrightarrow> ws \<noteq> [] \<and> hd ws = noop_wrapper
     \<and> (\<forall>i < length ws. tw_Index (ws ! i) = int i \<and> (0 < i \<longrightarrow> unat (tw_Direction (ws ! i)) = dir))"

definition chains_ok :: "chains \<Rightarrow> bool" where
  "chains_ok chain \<longleftrightarrow> length chain = 2 \<and> (\<forall>d < 2. line_ok d (chain ! d))
     \<and> distinct (map tw_Name (GetToxicArray chain))"

lemma two_chains:
  assumes "chains_ok chain"
  obtains u d where "chain = [u, d]" "line_ok 0 u" "line_ok 1 d" "distinct (map tw_Name (tl u @ tl d))"
proof -
  from assms have "length chain = 2" by (simp add: chains_ok_def)
  then obtain u d where c: "chain = [u, d]" by (auto simp: length_Suc_conv numeral_2_eq_2)
  with assms that [of u d] show thesis
    by (auto simp: chains_ok_def GetToxicArray_def less_Suc_eq numeral_2_eq_2)
qed

lemma chains_ok_pair:
  "chains_ok [u, d] \<longleftrightarrow> line_ok 0 u \<and> line_ok 1 d \<and> distinct (map tw_Name (tl u @ tl d))"
  by (auto simp: chains_ok_def GetToxicArray_def less_Suc_eq numeral_2_eq_2)

lemma new_chains_ok: "chains_ok new_chains"
proof -
  have "unat NumDirections = Suc (Suc 0)" by (simp add: NumDirections_def)
  then have n: "new_chains = [[noop_wrapper], [noop_wrapper]]" by (simp add: new_chains_def)
  have "line_ok k [noop_wrapper]" for k by (simp add: line_ok_def noop_wrapper_def)
  then show ?thesis unfolding n chains_ok_pair by simp
qed

lemma renumber_nth [simp]:
  "length (renumber i ws) = length ws"
  "k < length ws \<Longrightarrow> renumber i ws ! k = (ws ! k)\<lparr>tw_Index := int (i + k)\<rparr>"
  by (induction ws arbitrary: i k) (auto simp: nth_Cons split: nat.splits)

lemma length_remove_at [simp]: "i < length ws \<Longrightarrow> length (remove_at i ws) = length ws - 1"
  by (simp add: remove_at_def)

lemma remove_at_nth:
  assumes "i < length ws" and "k < length ws - 1"
  shows "remove_at i ws ! k = (if k < i then ws ! k else (ws ! Suc k)\<lparr>tw_Index := int k\<rparr>)"
  using assms by (auto simp: remove_at_def nth_append min_def)

lemma line_ok_remove:
  assumes "line_ok dir ws" and "0 < i" "i < length ws"
  shows "line_ok dir (remove_at i ws)"
proof -
  have "hd (remove_at i ws) = hd ws" using assms(2,3) by (cases ws) (auto simp: remove_at_def take_Cons')
  moreover have "remove_at i ws \<noteq> []" using assms(2,3) by (auto simp: remove_at_def)
  ultimately show ?thesis
    using assms remove_at_nth [OF assms(3)] by (auto simp: line_ok_def)
qed

lemma line_ok_append:
  assumes "line_ok dir ws" and "unat (tw_Direction w) = dir"
  shows "line_ok dir (ws @ [w\<lparr>tw_Index := int (length ws)\<rparr>])"
  using assms by (auto simp: line_ok_def nth_append less_Suc_eq)

lemma line_ok_update:
  assumes "line_ok dir ws" and "unat (tw_Direction w) = dir" and "0 < nat (tw_Index w)"
  shows "line_ok dir (ws[nat (tw_Index w) := w])"
proof -
  have "hd (ws[nat (tw_Index w) := w]) = hd ws"
    using assms(1,3) by (cases ws) (auto simp: line_ok_def list_update_def split: nat.splits)
  moreover have "tw_Index (ws[nat (tw_Index w) := w] ! i) = int i
      \<and> (0 < i \<longrightarrow> unat (tw_Direction (ws[nat (tw_Index w) := w] ! i)) = dir)" if "i < length ws" for i
    using assms that by (cases "i = nat (tw_Index w)") (auto simp: line_ok_def)
  ultimately show ?thesis using assms by (auto simp: line_ok_def)
qed

lemma map_renumber [simp]: "map tw_Name (renumber i ws) = map tw_Name ws"
  by (induction ws arbitrary: i) auto

lemma names_remove:
  "0 < i \<Longrightarrow> map tw_Name (tl (remove_at i ws))
     = take (i - 1) (map tw_Name (tl ws)) @ drop i (map tw_Name (tl ws))"
  by (cases ws; cases i) (auto simp: remove_at_def take_map drop_map)

lemma names_remove_sub:
  assumes "0 < i"
  shows "set (map tw_Name (tl (remove_at i ws))) \<subseteq> set (map tw_Name (tl ws))"
    and "distinct (map tw_Name (tl ws)) \<Longrightarrow> distinct (map tw_Name (tl (remove_at i ws)))"
proof -
  let ?xs = "map tw_Name (tl ws)"
  show "set (map tw_Name (tl (remove_at i ws))) \<subseteq> set ?xs"
    unfolding names_remove [OF assms] by (auto dest!: in_set_takeD in_set_dropD)
  show "distinct ?xs \<Longrightarrow> distinct (map tw_Name (tl (remove_at i ws)))"
    unfolding names_remove [OF assms]
    using set_take_disj_set_drop_if_distinct [of ?xs "i - 1" i] by simp
qed

lemma find_SomeD: "find P xs = Some x \<Longrightarrow> P x \<and> x \<in> set xs"
  by (auto simp: find_Some_iff)

text \<open>A toxic found by its name stands where its index and direction say.\<close>

lemma found_at:
  assumes ok: "chains_ok chain" and f: "findToxicByName name chain = Some w"
  shows "tw_Name w = name" and "0 < tw_Index w"
    and "unat (tw_Direction w) < 2" and "nat (tw_Index w) < length (chain ! unat (tw_Direction w))"
    and "chain ! unat (tw_Direction w) ! nat (tw_Index w) = w"
    and "w \<in> set (tl (chain ! unat (tw_Direction w)))"
proof -
  obtain u d where c: "chain = [u, d]" "line_ok 0 u" "line_ok 1 d" using two_chains [OF ok] .
  from f have n: "tw_Name w = name" "w \<in> set (tl u) \<or> w \<in> set (tl d)"
    using c(1) find_SomeD [of "\<lambda>w. tw_Name w = name" "tl u @ tl d" w] by (auto simp: findToxicByName_def)
  show "tw_Name w = name" by (rule n(1))
  have p: "\<exists>i. 0 < i \<and> i < length ws \<and> ws ! i = w \<and> tw_Index w = int i \<and> unat (tw_Direction w) = k"
    if "w \<in> set (tl ws)" "line_ok k ws" for ws k
  proof -
    from that(1) obtain j where "j < length (tl ws)" "tl ws ! j = w" by (auto simp: in_set_conv_nth)
    then have "Suc j < length ws" "ws ! Suc j = w" by (auto simp: nth_tl)
    with that(2) show ?thesis by (intro exI [of _ "Suc j"]) (auto simp: line_ok_def)
  qed
  from n(2) consider "w \<in> set (tl u)" | "w \<in> set (tl d)" by blast
  then have "0 < tw_Index w \<and> unat (tw_Direction w) < 2 \<and> nat (tw_Index w) < length (chain ! unat (tw_Direction w))
    \<and> chain ! unat (tw_Direction w) ! nat (tw_Index w) = w \<and> w \<in> set (tl (chain ! unat (tw_Direction w)))"
  proof cases
    case 1
    from p [OF this c(2)] 1 c(1) show ?thesis by auto
  next
    case 2
    from p [OF this c(3)] 2 c(1) show ?thesis by auto
  qed
  then show "0 < tw_Index w" "unat (tw_Direction w) < 2"
    "nat (tw_Index w) < length (chain ! unat (tw_Direction w))"
    "chain ! unat (tw_Direction w) ! nat (tw_Index w) = w"
    "w \<in> set (tl (chain ! unat (tw_Direction w)))"
    by blast+
qed

lemma less_two: "(k :: nat) < 2 \<Longrightarrow> k = 0 \<or> k = 1"
  by auto

lemma chain_remove_ok:
  assumes ok: "chains_ok chain" and f: "findToxicByName name chain = Some w"
  shows "chains_ok (chain_remove w chain)"
proof -
  obtain u d where c: "chain = [u, d]" "line_ok 0 u" "line_ok 1 d" "distinct (map tw_Name (tl u @ tl d))"
    using two_chains [OF ok] .
  note w = found_at [OF ok f]
  let ?i = "nat (tw_Index w)"
  have i: "0 < ?i" using w(2) by simp
  from less_two [OF w(3)] show ?thesis
  proof
    assume "unat (tw_Direction w) = 0"
    moreover have "distinct (map tw_Name (tl (remove_at ?i u) @ tl d))"
      using c(4) names_remove_sub [OF i, of u] unfolding map_append distinct_append by blast
    ultimately show ?thesis
      using c w(4) line_ok_remove [OF c(2) i] by (simp add: chain_remove_def chains_ok_pair)
  next
    assume "unat (tw_Direction w) = 1"
    moreover have "distinct (map tw_Name (tl u @ tl (remove_at ?i d)))"
      using c(4) names_remove_sub [OF i, of d] unfolding map_append distinct_append by blast
    ultimately show ?thesis
      using c w(4) line_ok_remove [OF c(3) i] by (simp add: chain_remove_def chains_ok_pair)
  qed
qed

lemma chain_add_ok:
  assumes ok: "chains_ok chain" and new: "findToxicByName (tw_Name w) chain = None"
    and dir: "unat (tw_Direction w) < 2"
  shows "chains_ok (snd (chain_add w chain))"
proof -
  obtain u d where c: "chain = [u, d]" "line_ok 0 u" "line_ok 1 d" "distinct (map tw_Name (tl u @ tl d))"
    using two_chains [OF ok] .
  have n: "tw_Name w \<notin> tw_Name ` set (tl u)" "tw_Name w \<notin> tw_Name ` set (tl d)"
    using new c(1) by (auto simp: findToxicByName_def find_None_iff)
  have ne: "u \<noteq> []" "d \<noteq> []" using c(2,3) by (auto simp: line_ok_def)
  from less_two [OF dir] show ?thesis
  proof
    assume "unat (tw_Direction w) = 0"
    then show ?thesis
      using c n ne line_ok_append [OF c(2), of w] by (auto simp: chain_add_def Let_def chains_ok_pair)
  next
    assume "unat (tw_Direction w) = 1"
    then show ?thesis
      using c n ne line_ok_append [OF c(3), of w] by (auto simp: chain_add_def Let_def chains_ok_pair)
  qed
qed

lemma chain_update_ok:
  assumes ok: "chains_ok chain" and f: "findToxicByName name chain = Some w"
    and same: "tw_Name w' = tw_Name w" "tw_Direction w' = tw_Direction w" "tw_Index w' = tw_Index w"
  shows "chains_ok (chain_update w' chain)"
proof -
  obtain u d where c: "chain = [u, d]" "line_ok 0 u" "line_ok 1 d" "distinct (map tw_Name (tl u @ tl d))"
    using two_chains [OF ok] .
  note w = found_at [OF ok f]
  let ?i = "nat (tw_Index w)"
  obtain j where i: "?i = Suc j" using w(2) by (cases ?i) auto
  have m: "map tw_Name (tl (ws[?i := w'])) = map tw_Name (tl ws)" if "ws ! ?i = w" "?i < length ws" for ws
    using that i same(1) by (cases ws) (auto simp: map_update list_update_same_conv)
  from less_two [OF w(3)] show ?thesis
  proof
    assume "unat (tw_Direction w) = 0"
    then show ?thesis
      using c w(2,4,5) same m [of u] line_ok_update [OF c(2), of w'] by (simp add: chain_update_def chains_ok_pair)
  next
    assume "unat (tw_Direction w) = 1"
    then show ?thesis
      using c w(2,4,5) same m [of d] line_ok_update [OF c(3), of w'] by (simp add: chain_update_def chains_ok_pair)
  qed
qed

subsection \<open>The chains as a store of named toxics\<close>

text \<open>What a client sees of a toxic: everything but its position.\<close>

record named_toxic =
  nt_Toxic :: toxic
  nt_Name :: string
  nt_Type :: string
  nt_Stream :: string
  nt_Toxicity :: rat
  nt_Upstream :: bool
  nt_BufferSize :: nat

definition view_toxic :: "ToxicWrapper \<Rightarrow> named_toxic" where
  "view_toxic w = \<lparr>nt_Toxic = tw_Toxic w, nt_Name = tw_Name w, nt_Type = tw_Type w, nt_Stream = tw_Stream w,
     nt_Toxicity = tw_Toxicity w, nt_Upstream = (tw_Direction w = Upstream), nt_BufferSize = tw_BufferSize w\<rparr>"

definition make_wrapper :: "named_toxic \<Rightarrow> ToxicWrapper" where
  "make_wrapper v = \<lparr>tw_Toxic = nt_Toxic v, tw_Name = nt_Name v, tw_Type = nt_Type v, tw_Stream = nt_Stream v,
     tw_Toxicity = nt_Toxicity v, tw_Direction = (if nt_Upstream v then Upstream else Downstream),
     tw_Index = 0, tw_BufferSize = nt_BufferSize v\<rparr>"

definition show_toxic :: "string \<Rightarrow> chains \<Rightarrow> named_toxic option" where
  "show_toxic name chain = map_option view_toxic (findToxicByName name chain)"

definition insert_toxic :: "named_toxic \<Rightarrow> chains \<Rightarrow> chains" where
  "insert_toxic v chain = snd (chain_add (make_wrapper v) chain)"

definition delete_toxic :: "string \<Rightarrow> chains \<Rightarrow> chains" where
  "delete_toxic name chain =
     (case findToxicByName name chain of None \<Rightarrow> chain | Some w \<Rightarrow> chain_remove w chain)"

definition table :: "ToxicWrapper list \<Rightarrow> (string \<times> named_toxic) list" where
  "table ws = map (\<lambda>w. (tw_Name w, view_toxic w)) ws"

lemma table_simps [simp]:
  "table [] = []" "table (w # ws) = (tw_Name w, view_toxic w) # table ws"
  "table (xs @ ys) = table xs @ table ys" "map fst (table ws) = map tw_Name ws" "length (table ws) = length ws"
  by (simp_all add: table_def)

lemma find_table: "map_option view_toxic (find (\<lambda>w. tw_Name w = n) ws) = map_of (table ws) n"
  by (induction ws) auto

lemma show_toxic_table: "show_toxic n chain = map_of (table (GetToxicArray chain)) n"
  by (simp add: show_toxic_def findToxicByName_def GetToxicArray_def find_table)

lemma view_index [simp]: "view_toxic (w\<lparr>tw_Index := i\<rparr>) = view_toxic w"
  by (simp add: view_toxic_def)

lemma table_renumber [simp]: "table (renumber i ws) = table ws"
  by (induction ws arbitrary: i) auto

lemma table_take [simp]: "table (take n ws) = take n (table ws)" "table (drop n ws) = drop n (table ws)"
  by (simp_all add: table_def take_map drop_map)

lemma table_remove:
  "0 < i \<Longrightarrow> table (tl (remove_at i ws)) = take (i - 1) (table (tl ws)) @ drop i (table (tl ws))"
  by (cases ws; cases i) (simp_all add: remove_at_def)

lemma map_of_drop_one:
  assumes "distinct (map fst xs)" and "k < length xs" and "fst (xs ! k) = n"
  shows "map_of (take k xs @ drop (Suc k) xs) = (map_of xs)(n := None)"
proof -
  obtain as bs where xs: "xs = as @ (xs ! k) # bs" "length as = k" using split_at_index [OF assms(2)] .
  then have t: "take k xs @ drop (Suc k) xs = as @ bs" by (metis append_eq_conv_conj append_take_drop_id
        drop_Suc list.sel(3) tl_drop)
  have d: "distinct (map fst (as @ (xs ! k) # bs))" using assms(1) xs(1) by simp
  have na: "map_of as n = None" "map_of bs n = None"
    using d assms(3) by (auto simp: map_of_eq_None_iff)
  have "map_of (as @ bs) = (map_of (as @ (xs ! k) # bs))(n := None)"
    using na assms(3) by (cases "xs ! k") (auto simp: map_add_def fun_eq_iff split: option.splits)
  then show ?thesis unfolding t using xs(1) by simp
qed

lemma show_insert:
  assumes ok: "chains_ok chain" and new: "show_toxic (nt_Name v) chain = None"
  shows "show_toxic n (insert_toxic v chain) = (if n = nt_Name v then Some v else show_toxic n chain)"
proof -
  obtain u d where c: "chain = [u, d]" "line_ok 0 u" "line_ok 1 d" using two_chains [OF ok] .
  have ne: "u \<noteq> []" "d \<noteq> []" using c(2,3) by (auto simp: line_ok_def)
  have v: "view_toxic (make_wrapper v) = v" "tw_Name (make_wrapper v) = nt_Name v"
    by (simp_all add: view_toxic_def make_wrapper_def Upstream_def Downstream_def)
  have dir: "unat (tw_Direction (make_wrapper v)) = (if nt_Upstream v then 0 else 1)"
    by (simp add: make_wrapper_def Upstream_def Downstream_def)
  have "map_of (table (tl u)) (nt_Name v) = None" "map_of (table (tl d)) (nt_Name v) = None"
    using new c(1) by (auto simp: show_toxic_table GetToxicArray_def map_add_def split: option.splits)
  then show ?thesis
    using c(1) ne v dir by (cases "nt_Upstream v")
      (auto simp: show_toxic_table insert_toxic_def chain_add_def Let_def GetToxicArray_def map_add_def
        split: option.splits)
qed

lemma delete_toxic_ok: "chains_ok chain \<Longrightarrow> chains_ok (delete_toxic n chain)"
  using chain_remove_ok by (auto simp: delete_toxic_def split: option.splits)

lemma show_delete:
  assumes ok: "chains_ok chain"
  shows "show_toxic m (delete_toxic n chain) = (if m = n then None else show_toxic m chain)"
proof (cases "findToxicByName n chain")
  case None
  then show ?thesis by (simp add: delete_toxic_def show_toxic_def)
next
  case (Some w)
  obtain u d where c: "chain = [u, d]" "line_ok 0 u" "line_ok 1 d" "distinct (map tw_Name (tl u @ tl d))"
    using two_chains [OF ok] .
  note w = found_at [OF ok Some]
  let ?i = "nat (tw_Index w)"
  have i: "0 < ?i" using w(2) by simp
  have one: "map_of (table (tl (remove_at ?i ws))) = (map_of (table (tl ws)))(n := None)"
    if "distinct (map tw_Name (tl ws))" "?i < length ws" "ws ! ?i = w" for ws
  proof -
    have k: "?i - 1 < length (tl ws)" "tl ws ! (?i - 1) = w" using that(2,3) i by (auto simp: nth_tl)
    then have "fst (table (tl ws) ! (?i - 1)) = n" using w(1) by (simp add: table_def)
    with map_of_drop_one [of "table (tl ws)" "?i - 1" n] k(1) that(1) i
    show ?thesis by (simp add: table_remove)
  qed
  have other: "n \<notin> tw_Name ` set (tl ws)" if "n \<in> tw_Name ` set (tl vs)" "distinct (map tw_Name (tl ws @ tl vs)) \<or>
      distinct (map tw_Name (tl vs @ tl ws))" for ws vs using that by auto
  from less_two [OF w(3)] show ?thesis
  proof
    assume z: "unat (tw_Direction w) = 0"
    then have "n \<in> tw_Name ` set (tl u)" using w(1,6) c(1) by auto
    then have "n \<notin> tw_Name ` set (tl d)" using other c(4) by blast
    then have d: "map_of (table (tl d)) n = None" by (simp add: map_of_eq_None_iff table_def image_image)
    have "map_of (table (tl (remove_at ?i u))) = (map_of (table (tl u)))(n := None)"
      using z w(4,5) c(1,4) by (intro one) auto
    moreover have "delete_toxic n chain = [remove_at ?i u, d]"
      using z c(1) by (simp add: delete_toxic_def Some [unfolded c(1)] chain_remove_def)
    ultimately show ?thesis
      using d c(1) by (auto simp: show_toxic_table GetToxicArray_def map_add_def split: option.splits)
  next
    assume z: "unat (tw_Direction w) = 1"
    then have "n \<in> tw_Name ` set (tl d)" using w(1,6) c(1) by auto
    then have "n \<notin> tw_Name ` set (tl u)" using other c(4) by blast
    then have d: "map_of (table (tl u)) n = None" by (simp add: map_of_eq_None_iff table_def image_image)
    have "map_of (table (tl (remove_at ?i d))) = (map_of (table (tl d)))(n := None)"
      using z w(4,5) c(1,4) by (intro one) auto
    moreover have "delete_toxic n chain = [u, remove_at ?i d]"
      using z c(1) by (simp add: delete_toxic_def Some [unfolded c(1)] chain_remove_def)
    ultimately show ?thesis
      using d c(1) by (auto simp: show_toxic_table GetToxicArray_def map_add_def split: option.splits)
  qed
qed

interpretation toxics: named_store chains_ok show_toxic nt_Name insert_toxic delete_toxic
proof unfold_locales
  fix chain and v :: named_toxic
  assume "chains_ok chain" and "show_toxic (nt_Name v) chain = None"
  then show "chains_ok (insert_toxic v chain)"
    unfolding insert_toxic_def
    by (intro chain_add_ok) (auto simp: make_wrapper_def show_toxic_def Upstream_def Downstream_def)
next
  fix chain n and v :: named_toxic
  assume "chains_ok chain" and "show_toxic (nt_Name v) chain = None"
  then show "show_toxic n (insert_toxic v chain) = (if n = nt_Name v then Some v else show_toxic n chain)"
    by (rule show_insert)
qed (simp_all add: delete_toxic_ok show_delete)

subsection \<open>The operations of the collection on its chains\<close>

text \<open>
  \<open>AddToxic\<close>; a direction without a chain makes the index expression panic. The wrapper
  returned is the caller's, as it is after the call.
\<close>

definition AddToxic :: "ToxicWrapper \<Rightarrow> chains \<Rightarrow> ((ApiError + ToxicWrapper) \<times> chains) outcome" where
  "AddToxic w chain =
     (let w1 = w\<lparr>tw_Toxicity := 1\<rparr>;
          w2 = (if tw_Name w1 = [] then w1\<lparr>tw_Name := tw_Type w1 @ ''_'' @ tw_Stream w1\<rparr> else w1)
      in if findToxicByName (tw_Name w2) chain \<noteq> None then Fine (Inl ErrToxicAlreadyExists, chain)
         else if length chain \<le> unat (tw_Direction w2) then Crash
         else (let (w3, chain') = chain_add w2 chain in Fine (Inr w3, chain')))"

text \<open>
  The body of a request decoded into a wrapper. The flag says whether the field
  \<open>attributes\<close> still holds the toxic: after a \<open>null\<close> it does not, and an interface with
  methods cannot be decoded into anew.
\<close>

definition wrapper_field :: "string \<Rightarrow> json \<Rightarrow> ToxicWrapper \<times> bool \<Rightarrow> (ToxicWrapper \<times> bool) \<times> bool" where
  "wrapper_field k j wl = (case wl of (w, held) \<Rightarrow>
     if key_is k ''attributes'' then
       (case j of JNull \<Rightarrow> ((w, False), False)
        | JObj kvs \<Rightarrow> ((w, held), \<not> held)
        | _ \<Rightarrow> ((w, held), True))
     else if key_is k ''name'' then map_prod (\<lambda>s. (w\<lparr>tw_Name := s\<rparr>, held)) id (set_string j (tw_Name w))
     else if key_is k ''type'' then map_prod (\<lambda>s. (w\<lparr>tw_Type := s\<rparr>, held)) id (set_string j (tw_Type w))
     else if key_is k ''stream'' then map_prod (\<lambda>s. (w\<lparr>tw_Stream := s\<rparr>, held)) id (set_string j (tw_Stream w))
     else if key_is k ''toxicity'' then map_prod (\<lambda>x. (w\<lparr>tw_Toxicity := x\<rparr>, held)) id (set_f32 j (tw_Toxicity w))
     else ((w, held), False))"

text \<open>The second pass, for the attributes alone; here the interface has no methods.\<close>

definition attributes_field :: "string \<Rightarrow> json \<Rightarrow> toxic \<times> bool \<Rightarrow> (toxic \<times> bool) \<times> bool" where
  "attributes_field k j th = (case th of (t, held) \<Rightarrow>
     if key_is k ''attributes'' then
       (if j = JNull then ((t, False), False)
        else if held then map_prod (\<lambda>t'. (t', True)) id (decode_toxic j t)
        else ((t, False), False))
     else ((t, held), False))"

text \<open>\<open>txt\<close> stands for the text of the decoder's error.\<close>

definition AddToxicJson ::
    "registry \<Rightarrow> string \<Rightarrow> json option \<Rightarrow> chains \<Rightarrow> ((ApiError + ToxicWrapper) \<times> chains) outcome" where
  "AddToxicJson reg txt body chain =
     (let bad = Fine (Inl (the (joinError (Some (Other txt)) ErrBadRequestBody)), chain);
          w0 = \<lparr>tw_Toxic = NoopToxic, tw_Name = [], tw_Type = [], tw_Stream = ''downstream'',
                tw_Toxicity = 1, tw_Direction = 0, tw_Index = 0, tw_BufferSize = 0\<rparr>
      in case body of None \<Rightarrow> bad
       | Some j \<Rightarrow>
           (let ((w, held), e) = decode_struct wrapper_field j (w0, True)
            in if e then bad
               else (let (dir, err) = ParseDirection (tw_Stream w); w1 = w\<lparr>tw_Direction := dir\<rparr>
                     in if err \<noteq> None then Fine (Inl ErrInvalidStream, chain)
                        else (case New reg w1 of
                            (None, w2) \<Rightarrow> Fine (Inl ErrInvalidToxicType, chain)
                          | (Some t, w2) \<Rightarrow>
                              (let ((t', held'), e') = decode_struct attributes_field j (t, True)
                               in if e' then bad else AddToxic (w2\<lparr>tw_Toxic := t'\<rparr>) chain)))))"

text \<open>
  \<open>UpdateToxicJson\<close> decodes into the settings of the toxic in the chain, so what has been
  decoded before an error stays.
\<close>

definition update_field :: "string \<Rightarrow> json \<Rightarrow> (toxic \<times> bool) \<times> rat \<Rightarrow> ((toxic \<times> bool) \<times> rat) \<times> bool" where
  "update_field k j s = (case s of (th, x) \<Rightarrow>
     if key_is k ''toxicity'' then map_prod (\<lambda>x'. (th, x')) id (set_f32 j x)
     else map_prod (\<lambda>th'. (th', x)) id (attributes_field k j th))"

definition UpdateToxicJson ::
    "string \<Rightarrow> string \<Rightarrow> json option \<Rightarrow> chains \<Rightarrow> (ApiError + ToxicWrapper) \<times> chains" where
  "UpdateToxicJson txt name body chain =
     (let bad = Inl (the (joinError (Some (Other txt)) ErrBadRequestBody))
      in case findToxicByName name chain of
        None \<Rightarrow> (Inl ErrToxicNotFound, chain)
      | Some w \<Rightarrow>
          (case body of
             None \<Rightarrow> (bad, chain)
           | Some j \<Rightarrow>
               (let (((t, held), x), e) = decode_struct update_field j ((tw_Toxic w, True), tw_Toxicity w);
                    w' = w\<lparr>tw_Toxic := t\<rparr>
                in if e then (bad, chain_update w' chain)
                   else (let w'' = w'\<lparr>tw_Toxicity := x\<rparr> in (Inr w'', chain_update w'' chain)))))"

definition RemoveToxic :: "string \<Rightarrow> chains \<Rightarrow> ApiError option \<times> chains" where
  "RemoveToxic name chain = (case findToxicByName name chain of
       None \<Rightarrow> (Some ErrToxicNotFound, chain)
     | Some w \<Rightarrow> (None, chain_remove w chain))"

text \<open>The inner loop of \<open>ResetToxics\<close>; \<open>None\<close> would be a loop without end.\<close>

partial_function (option) reset_direction :: "nat \<Rightarrow> chains \<Rightarrow> chains option" where
  "reset_direction dir chain =
     (if length (chain ! dir) \<le> 1 then Some chain
      else reset_direction dir (chain_remove (chain ! dir ! 1) chain))"

declare reset_direction.simps [code]

definition ResetToxics :: "chains \<Rightarrow> chains option" where
  "ResetToxics chain =
     fold (\<lambda>dir c. Option.bind c (reset_direction dir)) [0..<length chain] (Some chain)"

subsection \<open>What the operations do\<close>

lemma reset_direction_ends:
  assumes "length chain = 2" and "dir < 2" and "line_ok dir (chain ! dir)"
  shows "reset_direction dir chain = Some (chain[dir := [noop_wrapper]])"
  using assms
proof (induction "length (chain ! dir)" arbitrary: chain rule: less_induct)
  case less
  let ?ws = "chain ! dir"
  have hd: "?ws \<noteq> []" "hd ?ws = noop_wrapper" using less.prems(3) by (auto simp: line_ok_def)
  show ?case
  proof (cases "length ?ws \<le> 1")
    case True
    with hd have "?ws = [noop_wrapper]" by (cases ?ws) auto
    with True less.prems show ?thesis
      by (subst reset_direction.simps) (metis list_update_id)
  next
    case False
    let ?w = "?ws ! 1"
    have w: "tw_Index ?w = 1" "unat (tw_Direction ?w) = dir"
      using less.prems(3) False by (auto simp: line_ok_def)
    define chain' where "chain' = chain_remove ?w chain"
    have c': "chain' = chain[dir := remove_at 1 ?ws]" using w by (simp add: chain'_def chain_remove_def)
    have "line_ok dir (remove_at 1 ?ws)" using line_ok_remove [OF less.prems(3), of 1] False by simp
    moreover have "length (remove_at 1 ?ws) < length ?ws" using False by simp
    ultimately have "reset_direction dir chain' = Some (chain'[dir := [noop_wrapper]])"
      using less.prems(1,2) less.hyps [of chain'] c' by simp
    then have "reset_direction dir (chain_remove ?w chain) = Some (chain[dir := [noop_wrapper]])"
      unfolding chain'_def [symmetric] using c' by simp
    with False show ?thesis by (subst reset_direction.simps) simp
  qed
qed

lemma ResetToxics_ends:
  assumes "chains_ok chain"
  shows "ResetToxics chain = Some new_chains"
proof -
  obtain u d where c: "chain = [u, d]" "line_ok 0 u" "line_ok 1 d" using two_chains [OF assms] .
  have "reset_direction 0 [u, d] = Some [[noop_wrapper], d]"
    using reset_direction_ends [of "[u, d]" 0] c by simp
  moreover have "reset_direction (Suc 0) [[noop_wrapper], d] = Some [[noop_wrapper], [noop_wrapper]]"
    using reset_direction_ends [of "[[noop_wrapper], d]" 1] c by simp
  moreover have "unat NumDirections = Suc (Suc 0)" by (simp add: NumDirections_def)
  ultimately show ?thesis using c(1) by (simp add: ResetToxics_def new_chains_def)
qed

text \<open>C20: \<open>ResetToxics\<close> ends, and leaves only the hidden noop toxic in each chain.\<close>

theorem ResetToxics_empties:
  assumes "chains_ok chain"
  shows "ResetToxics chain = Some new_chains"
  by (rule ResetToxics_ends [OF assms])

lemma make_view:
  "unat (tw_Direction w) < 2 \<Longrightarrow> make_wrapper (view_toxic w) = w\<lparr>tw_Index := 0\<rparr>"
proof -
  assume "unat (tw_Direction w) < 2"
  then have "unat (tw_Direction w) = 0 \<or> unat (tw_Direction w) = 1" by auto
  then have "tw_Direction w = Upstream \<or> tw_Direction w = Downstream"
    by (auto simp: Upstream_def Downstream_def word_unat_eq_iff)
  then show ?thesis
    by (cases w) (auto simp: make_wrapper_def view_toxic_def Upstream_def Downstream_def)
qed

lemma chain_add_insert:
  "unat (tw_Direction w) < 2 \<Longrightarrow> snd (chain_add w chain) = insert_toxic (view_toxic w) chain"
  by (simp add: insert_toxic_def make_view chain_add_def Let_def)

text \<open>The name a toxic gets.\<close>

definition given_name :: "ToxicWrapper \<Rightarrow> string" where
  "given_name w = (if tw_Name w = [] then tw_Type w @ ''_'' @ tw_Stream w else tw_Name w)"

lemma AddToxic_effect:
  assumes "chains_ok chain" and "unat (tw_Direction w) < 2"
  shows "(show_toxic (given_name w) chain \<noteq> None \<and> AddToxic w chain = Fine (Inl ErrToxicAlreadyExists, chain))
    \<or> (show_toxic (given_name w) chain = None \<and> (\<exists>w' chain'. AddToxic w chain = Fine (Inr w', chain')
        \<and> chains_ok chain'
        \<and> view_toxic w' = (view_toxic w)\<lparr>nt_Name := given_name w, nt_Toxicity := 1\<rparr>
        \<and> last (chain' ! unat (tw_Direction w)) = w'
        \<and> (\<forall>n. show_toxic n chain' = (if n = given_name w then Some (view_toxic w') else show_toxic n chain))))"
proof -
  define w2 where "w2 = w\<lparr>tw_Toxicity := 1, tw_Name := given_name w\<rparr>"
  have l: "length chain = 2" using assms(1) by (simp add: chains_ok_def)
  have w2: "(let w1 = w\<lparr>tw_Toxicity := 1\<rparr> in
      if tw_Name w1 = [] then w1\<lparr>tw_Name := tw_Type w1 @ ''_'' @ tw_Stream w1\<rparr> else w1) = w2"
    by (cases w) (simp add: w2_def given_name_def)
  show ?thesis
  proof (cases "findToxicByName (given_name w) chain")
    case (Some x)
    then have "AddToxic w chain = Fine (Inl ErrToxicAlreadyExists, chain)"
      using w2 by (auto simp: AddToxic_def Let_def w2_def given_name_def split: if_splits)
    then show ?thesis using Some by (simp add: show_toxic_def)
  next
    case None
    obtain w3 chain' where a: "chain_add w2 chain = (w3, chain')" by (cases "chain_add w2 chain")
    then have w3: "w3 = w2\<lparr>tw_Index := int (length (chain ! unat (tw_Direction w)))\<rparr>"
      and c': "chain' = chain[unat (tw_Direction w) := chain ! unat (tw_Direction w) @ [w3]]"
      by (auto simp: chain_add_def Let_def w2_def)
    have v: "view_toxic w3 = (view_toxic w)\<lparr>nt_Name := given_name w, nt_Toxicity := 1\<rparr>"
      by (simp add: w3 w2_def view_toxic_def)
    have "AddToxic w chain = Fine (Inr w3, chain')"
      using None a l assms(2) w2 by (auto simp: AddToxic_def Let_def w2_def given_name_def split: if_splits)
    moreover have ins: "chain' = insert_toxic (view_toxic w2) chain"
      using chain_add_insert [of w2 chain] a assms(2) by (simp add: w2_def)
    moreover have new: "show_toxic (given_name w) chain = None" using None by (simp add: show_toxic_def)
    moreover have vw: "view_toxic w3 = view_toxic w2" "nt_Name (view_toxic w2) = given_name w"
      by (simp_all add: w3) (simp add: w2_def view_toxic_def)
    moreover have "chains_ok chain'"
      using toxics.good_insert [OF assms(1), of "view_toxic w2"] new vw(2) ins by simp
    moreover have "\<forall>n. show_toxic n chain' = (if n = given_name w then Some (view_toxic w3) else show_toxic n chain)"
      using toxics.lookup_insert [OF assms(1), of "view_toxic w2"] new vw ins by simp
    moreover have "last (chain' ! unat (tw_Direction w)) = w3" using c' l assms(2) by simp
    ultimately show ?thesis using v by blast
  qed
qed

text \<open>\<open>AddToxic\<close> refuses a name that is taken, in either direction, and then changes nothing;
  otherwise the toxic is found under its name (type and stream when none was given),
  at the end of its chain and with toxicity 1, and no other name is affected.\<close>

theorem AddToxic_result:
  assumes "chains_ok chain" and "unat (tw_Direction w) < 2"
  shows "(show_toxic (given_name w) chain \<noteq> None \<and> AddToxic w chain = Fine (Inl ErrToxicAlreadyExists, chain))
    \<or> (show_toxic (given_name w) chain = None \<and> (\<exists>w' chain'. AddToxic w chain = Fine (Inr w', chain')
        \<and> chains_ok chain'
        \<and> view_toxic w' = (view_toxic w)\<lparr>nt_Name := given_name w, nt_Toxicity := 1\<rparr>
        \<and> last (chain' ! unat (tw_Direction w)) = w'
        \<and> (\<forall>n. show_toxic n chain' = (if n = given_name w then Some (view_toxic w') else show_toxic n chain))))"
  by (rule AddToxic_effect [OF assms])

lemma RemoveToxic_effect:
  assumes "chains_ok chain"
  shows "fst (RemoveToxic name chain) = (if show_toxic name chain = None then Some ErrToxicNotFound else None)
    \<and> chains_ok (snd (RemoveToxic name chain))
    \<and> (\<forall>n. show_toxic n (snd (RemoveToxic name chain)) = (if n = name then None else show_toxic n chain))"
proof -
  have "snd (RemoveToxic name chain) = delete_toxic name chain"
    by (simp add: RemoveToxic_def delete_toxic_def split: option.splits)
  then show ?thesis
    using toxics.good_delete [OF assms] toxics.lookup_delete [OF assms]
    by (simp add: RemoveToxic_def show_toxic_def split: option.splits)
qed

text \<open>\<open>RemoveToxic\<close> of a name that is not there is an error and changes nothing; otherwise
  the toxic is gone, every other one is still there, and the indexes fit the positions.\<close>

theorem RemoveToxic_result:
  assumes "chains_ok chain"
  shows "fst (RemoveToxic name chain) = (if show_toxic name chain = None then Some ErrToxicNotFound else None)
    \<and> chains_ok (snd (RemoveToxic name chain))
    \<and> (\<forall>n. show_toxic n (snd (RemoveToxic name chain)) = (if n = name then None else show_toxic n chain))"
  by (rule RemoveToxic_effect [OF assms])

subsection \<open>Requests with a body\<close>

lemma AddToxic_toxicity:
  "AddToxic w chain = Fine (Inr w', chain') \<Longrightarrow> tw_Toxicity w' = 1 \<and> tw_Type w' = tw_Type w \<and> tw_Direction w' = tw_Direction w"
  by (auto simp: AddToxic_def Let_def chain_add_def split: if_splits)

lemma AddToxicJson_cases:
  assumes "AddToxicJson reg txt body chain = r"
  obtains (bad) "r = Fine (Inl (the (joinError (Some (Other txt)) ErrBadRequestBody)), chain)"
  | (stream) "r = Fine (Inl ErrInvalidStream, chain)"
  | (type_) "r = Fine (Inl ErrInvalidToxicType, chain)"
  | (add) w t w2 t' where "snd (ParseDirection (tw_Stream w)) = None"
      "New reg (w\<lparr>tw_Direction := fst (ParseDirection (tw_Stream w))\<rparr>) = (Some t, w2)"
      "r = AddToxic (w2\<lparr>tw_Toxic := t'\<rparr>) chain"
  using assms
  by (auto simp: AddToxicJson_def Let_def split_beta split: option.splits prod.splits if_splits)

text \<open>Whatever toxicity the body of a request asks for, the toxic that is created has
  toxicity 1: the value is decoded and then overwritten.\<close>

theorem created_toxicity_is_one:
  assumes "AddToxicJson reg txt body chain = Fine (Inr w, chain')"
  shows "tw_Toxicity w = 1"
  using assms by (cases rule: AddToxicJson_cases) (auto dest: AddToxic_toxicity [OF sym])

lemma ParseDirection_ok: "snd (ParseDirection s) = None \<Longrightarrow> unat (fst (ParseDirection s)) < 2"
  by (auto simp: ParseDirection_def Upstream_def Downstream_def split: if_splits)

lemma AddToxicJson_effect:
  assumes "chains_ok chain" and "AddToxicJson reg txt body chain = r"
  shows "(\<exists>e. r = Fine (Inl e, chain) \<and> StatusCode e \<in> {400, 409})
    \<or> (\<exists>w chain'. r = Fine (Inr w, chain') \<and> chains_ok chain' \<and> map_of reg (tw_Type w) \<noteq> None
        \<and> show_toxic (tw_Name w) chain = None \<and> show_toxic (tw_Name w) chain' = Some (view_toxic w)
        \<and> tw_Direction w \<in> {Upstream, Downstream})"
  using assms(2)
proof (cases rule: AddToxicJson_cases)
  case bad
  then show ?thesis by (simp add: joinError_def api_error_defs)
next
  case stream
  then show ?thesis by (simp add: api_error_defs)
next
  case type_
  then show ?thesis by (simp add: api_error_defs)
next
  case (add w t w2 t')
  let ?w = "w2\<lparr>tw_Toxic := t'\<rparr>"
  have d: "tw_Direction ?w = fst (ParseDirection (tw_Stream w))" and ty: "map_of reg (tw_Type ?w) \<noteq> None"
    using add(2) by (auto simp: New_def Let_def split: option.splits)
  have dir: "unat (tw_Direction ?w) < 2" using d ParseDirection_ok [OF add(1)] by simp
  have dd: "tw_Direction ?w \<in> {Upstream, Downstream}"
    using d add(1) by (auto simp: ParseDirection_def split: if_splits)
  from AddToxic_effect [OF assms(1) dir] show ?thesis
  proof (elim disjE conjE exE)
    assume "AddToxic ?w chain = Fine (Inl ErrToxicAlreadyExists, chain)"
    with add(3) show ?thesis by (simp add: api_error_defs)
  next
    fix w' chain'
    assume n: "show_toxic (given_name ?w) chain = None" and a: "AddToxic ?w chain = Fine (Inr w', chain')"
      and ok: "chains_ok chain'" and v: "view_toxic w' = (view_toxic ?w)\<lparr>nt_Name := given_name ?w, nt_Toxicity := 1\<rparr>"
      and s: "\<forall>n. show_toxic n chain' = (if n = given_name ?w then Some (view_toxic w') else show_toxic n chain)"
    have "tw_Name w' = given_name ?w" using arg_cong [OF v, of nt_Name] by (simp add: view_toxic_def)
    then show ?thesis using add(3) a ok n s ty dd AddToxic_toxicity [OF a] by auto
  qed
qed


lemma UpdateToxicJson_cases:
  assumes "UpdateToxicJson txt name body chain = (r, chain')"
  obtains (unknown) "findToxicByName name chain = None" "r = Inl ErrToxicNotFound" "chain' = chain"
  | (bad_text) w where "findToxicByName name chain = Some w" "body = None"
      "r = Inl (the (joinError (Some (Other txt)) ErrBadRequestBody))" "chain' = chain"
  | (bad) w t where "findToxicByName name chain = Some w"
      "r = Inl (the (joinError (Some (Other txt)) ErrBadRequestBody))" "chain' = chain_update (w\<lparr>tw_Toxic := t\<rparr>) chain"
  | (done_) w t x where "findToxicByName name chain = Some w"
      "r = Inr (w\<lparr>tw_Toxic := t, tw_Toxicity := x\<rparr>)" "chain' = chain_update (w\<lparr>tw_Toxic := t, tw_Toxicity := x\<rparr>) chain"
  using assms
  by (auto simp: UpdateToxicJson_def Let_def split_beta split: option.splits prod.splits if_splits)

text \<open>A toxic replaced in its place by one of the same name.\<close>

lemma find_update:
  assumes ok: "chains_ok chain" and f: "findToxicByName name chain = Some w"
    and same: "tw_Name w' = tw_Name w" "tw_Direction w' = tw_Direction w" "tw_Index w' = tw_Index w"
  shows "findToxicByName n (chain_update w' chain) = (if n = name then Some w' else findToxicByName n chain)"
proof -
  obtain u d where c: "chain = [u, d]" "line_ok 0 u" "line_ok 1 d" "distinct (map tw_Name (tl u @ tl d))"
    using two_chains [OF ok] .
  note w = found_at [OF ok f]
  let ?i = "nat (tw_Index w)"
  obtain j where i: "?i = Suc j" using w(2) by (cases ?i) auto
  have tl_up: "tl (ws[?i := w']) = (tl ws)[j := w']" for ws :: "ToxicWrapper list"
    using i by (cases ws) auto
  have gen: "find (\<lambda>w. tw_Name w = n) (ws[k := w']) = (if n = name then Some w' else find (\<lambda>w. tw_Name w = n) ws)"
    if "distinct (map tw_Name ws)" "k < length ws" "ws ! k = w" for ws k
    using that
  proof (induction ws arbitrary: k)
    case (Cons x xs)
    show ?case
    proof (cases k)
      case 0
      with Cons.prems w(1) same(1) show ?thesis by auto
    next
      case (Suc k')
      with Cons.prems have "w \<in> set xs" by auto
      then have "tw_Name x \<noteq> name" using Cons.prems(1) w(1) by auto
      with Suc Cons show ?thesis by auto
    qed
  qed simp
  have app: "find P (xs @ ys) = (case find P xs of None \<Rightarrow> find P ys | Some x \<Rightarrow> Some x)"
    for P and xs ys :: "ToxicWrapper list" by (induction xs) auto
  from less_two [OF w(3)] show ?thesis
  proof
    assume z: "unat (tw_Direction w) = 0"
    then have k: "j < length (tl u)" "tl u ! j = w" using w(4,5) c(1) i by (auto simp: nth_tl)
    have "find (\<lambda>w. tw_Name w = n) ((tl u)[j := w'] @ tl d)
        = (if n = name then Some w' else find (\<lambda>w. tw_Name w = n) (tl u @ tl d))"
      using gen [OF _ k] c(4) by (simp add: app split: option.splits)
    then show ?thesis
      using z c(1) same tl_up by (simp add: chain_update_def findToxicByName_def)
  next
    assume z: "unat (tw_Direction w) = 1"
    then have k: "j < length (tl d)" "tl d ! j = w" using w(4,5) c(1) i by (auto simp: nth_tl)
    then have "w \<in> set (tl d)" by auto
    then have "find (\<lambda>w. tw_Name w = name) (tl u) = None"
      using c(4) w(1) by (auto simp: find_None_iff)
    then have "find (\<lambda>w. tw_Name w = n) (tl u @ (tl d)[j := w'])
        = (if n = name then Some w' else find (\<lambda>w. tw_Name w = n) (tl u @ tl d))"
      using gen [OF _ k] c(4) by (cases "n = name") (auto simp: app split: option.splits)
    then show ?thesis
      using z c(1) same tl_up by (simp add: chain_update_def findToxicByName_def)
  qed
qed

lemma same_wrapper:
  "\<exists>t x. w = w\<lparr>tw_Toxic := t, tw_Toxicity := x\<rparr>"
  "\<exists>t' x. w\<lparr>tw_Toxic := t\<rparr> = w\<lparr>tw_Toxic := t', tw_Toxicity := x\<rparr>"
  by (rule exI [of _ "tw_Toxic w"], rule exI [of _ "tw_Toxicity w"], simp)
    (rule exI [of _ t], rule exI [of _ "tw_Toxicity w"], simp)

lemma UpdateToxicJson_effect:
  assumes "chains_ok chain" and "UpdateToxicJson txt name body chain = (r, chain')"
  shows "chains_ok chain'
    \<and> (\<forall>n. n \<noteq> name \<longrightarrow> findToxicByName n chain' = findToxicByName n chain)
    \<and> (findToxicByName name chain = None \<longleftrightarrow> r = Inl ErrToxicNotFound)
    \<and> (\<forall>w. findToxicByName name chain = Some w \<longrightarrow> (\<exists>t x. findToxicByName name chain' = Some (w\<lparr>tw_Toxic := t, tw_Toxicity := x\<rparr>)))
    \<and> (\<forall>w'. r = Inr w' \<longrightarrow> findToxicByName name chain' = Some w')"
proof -
  have e: "the (joinError (Some (Other txt)) ErrBadRequestBody) \<noteq> ErrToxicNotFound"
    by (simp add: joinError_def api_error_defs)
  show ?thesis
    using assms(2)
  proof (cases rule: UpdateToxicJson_cases)
    case unknown
    then show ?thesis using assms(1) by simp
  next
    case (bad_text w)
    then show ?thesis using assms(1) e same_wrapper by simp
  next
    case (bad w t)
    have "findToxicByName n chain' = (if n = name then Some (w\<lparr>tw_Toxic := t, tw_Toxicity := tw_Toxicity w\<rparr>) else findToxicByName n chain)" for n
      using find_update [OF assms(1) bad(1), of "w\<lparr>tw_Toxic := t\<rparr>" n] bad by simp
    moreover have "chains_ok chain'"
      using chain_update_ok [OF assms(1) bad(1), of "w\<lparr>tw_Toxic := t\<rparr>"] bad by simp
    ultimately show ?thesis using bad e same_wrapper(2) [where w = w and t = t] by auto
  next
    case (done_ w t x)
    have "findToxicByName n chain' = (if n = name then Some (w\<lparr>tw_Toxic := t, tw_Toxicity := x\<rparr>) else findToxicByName n chain)" for n
      using find_update [OF assms(1) done_(1), of "w\<lparr>tw_Toxic := t, tw_Toxicity := x\<rparr>" n] done_ by simp
    moreover have "chains_ok chain'"
      using chain_update_ok [OF assms(1) done_(1), of "w\<lparr>tw_Toxic := t, tw_Toxicity := x\<rparr>"] done_ by simp
    ultimately show ?thesis using done_ by auto
  qed
qed



subsection \<open>Witnesses\<close>

definition lag :: ToxicWrapper where
  "lag = some_toxic (LatencyT \<lparr>Latency = 100, Jitter = 0\<rparr>) ''lag'' 0"

definition lag_chains :: chains where
  "lag_chains = snd (chain_add lag new_chains)"

lemma lag_chains_ok: "chains_ok lag_chains"
  unfolding lag_chains_def
  by (rule chain_add_ok [OF new_chains_ok])
    (simp_all add: lag_def some_toxic_def Upstream_def findToxicByName_def new_chains_def)

text \<open>The body \<open>{"type": "latency", "toxicity": 0.2, "attributes": {"latency": 50}}\<close>.\<close>

definition small_toxicity :: json where
  "small_toxicity = JObj [(''type'', JStr ''latency''), (''toxicity'', JFrac (1 / 5)),
     (''attributes'', JObj [(''latency'', JInt 50)])]"

definition created :: "((ApiError + ToxicWrapper) \<times> chains) outcome \<Rightarrow> (string \<times> rat \<times> toxic) option" where
  "created r = (case r of Fine (Inr w, c) \<Rightarrow> Some (tw_Name w, tw_Toxicity w, tw_Toxic w) | _ \<Rightarrow> None)"

lemma created_Some: "created r = Some (n, x, t) \<Longrightarrow> \<exists>w c. r = Fine (Inr w, c) \<and> tw_Name w = n \<and> tw_Toxicity w = x"
  by (auto simp: created_def split: outcome.splits prod.splits sum.splits)

lemma small_toxicity_created:
  "created (AddToxicJson ToxicRegistry [] (Some small_toxicity) new_chains)
     = Some (''latency_downstream'', 1, LatencyT \<lparr>Latency = 50, Jitter = 0\<rparr>)"
  by code_simp

theorem created_toxicity_is_one_witness:
  "\<exists>w chain'. AddToxicJson ToxicRegistry [] (Some small_toxicity) new_chains = Fine (Inr w, chain')
     \<and> tw_Name w = ''latency_downstream'' \<and> tw_Toxicity w = 1"
  using created_Some [OF small_toxicity_created] created_toxicity_is_one by blast


theorem ResetToxics_empties_witness: "ResetToxics lag_chains = Some new_chains"
  by (rule ResetToxics_empties [OF lag_chains_ok])

lemma lag_shown: "show_toxic ''lag'' lag_chains \<noteq> None \<and> show_toxic ''other'' lag_chains = None"
  by code_simp

theorem AddToxic_result_witness:
  "AddToxic lag lag_chains = Fine (Inl ErrToxicAlreadyExists, lag_chains)"
  using AddToxic_result [OF lag_chains_ok, of lag] lag_shown
  by (auto simp: lag_def some_toxic_def given_name_def Upstream_def)

theorem RemoveToxic_result_witness:
  "fst (RemoveToxic ''lag'' lag_chains) = None \<and> show_toxic ''lag'' (snd (RemoveToxic ''lag'' lag_chains)) = None"
  using RemoveToxic_result [OF lag_chains_ok, of "''lag''"] lag_shown by simp

text \<open>The body \<open>{"attributes": {"latency": 5, "jitter": "x"}}\<close>.\<close>

definition half_bad :: json where
  "half_bad = JObj [(''attributes'', JObj [(''latency'', JInt 5), (''jitter'', JStr ''x'')])]"

definition update_view :: "(ApiError + ToxicWrapper) \<times> chains \<Rightarrow> nat option \<times> toxic option" where
  "update_view r = (case fst r of Inl e \<Rightarrow> Some (StatusCode e) | Inr w \<Rightarrow> None,
     map_option tw_Toxic (findToxicByName ''lag'' (snd r)))"



end
