(* ===== verification/CollectionRun.thy ===== *)
theory CollectionRun
  imports Collection
begin

text \<open>
  \<open>toxic_collection.go\<close> with its links and its lock. An operation takes the lock, changes a
  chain, starts the same operation on every link of the direction, and holds the lock until
  all of them have finished; the goroutines of the links go on meanwhile. \<open>StartLink\<close> and
  \<open>RemoveLink\<close> need the lock as well.
\<close>

record ToxicCollection =
  coll_chains :: chains
  coll_links :: "(string \<times> ToxicLink) list"
  resetting :: bool

definition NewToxicCollection :: ToxicCollection where
  "NewToxicCollection = \<lparr>coll_chains = new_chains, coll_links = [], resetting = False\<rparr>"

definition all_idle :: "ToxicCollection \<Rightarrow> bool" where
  "all_idle c \<longleftrightarrow> list_all (\<lambda>(n, l). ctl l = NoOp) (coll_links c)"

text \<open>The lock is free: no operation is running on a link, and no reset is going on.\<close>

definition lock_free :: "ToxicCollection \<Rightarrow> bool" where
  "lock_free c \<longleftrightarrow> \<not> resetting c \<and> all_idle c"

text \<open>Starting an operation on every link of a direction.\<close>

fun on_links :: "direction \<Rightarrow> (ToxicLink \<Rightarrow> ToxicLink outcome) \<Rightarrow> (string \<times> ToxicLink) list
    \<Rightarrow> (string \<times> ToxicLink) list outcome" where
  "on_links dir f [] = Fine []"
| "on_links dir f ((n, l) # ls) =
     (case (if link_direction l = dir then f l else Fine l) of
        Crash \<Rightarrow> Crash
      | Fine l' \<Rightarrow> (case on_links dir f ls of Crash \<Rightarrow> Crash | Fine ls' \<Rightarrow> Fine ((n, l') # ls')))"

definition start_on_links :: "direction \<Rightarrow> (ToxicLink \<Rightarrow> ToxicLink outcome) \<Rightarrow> chains \<Rightarrow> ToxicCollection
    \<Rightarrow> ToxicCollection outcome" where
  "start_on_links dir f chain c = (case on_links dir f (coll_links c) of
       Crash \<Rightarrow> Crash
     | Fine ls \<Rightarrow> Fine (c\<lparr>coll_chains := chain, coll_links := ls\<rparr>))"

text \<open>The next toxic \<open>ResetToxics\<close> removes.\<close>

definition next_reset :: "chains \<Rightarrow> ToxicWrapper option" where
  "next_reset chain = map_option (\<lambda>ws. ws ! 1) (find (\<lambda>ws. 1 < length ws) chain)"

datatype coll_event =
    CLink string link_act
  | CStartLink string direction "nat \<Rightarrow> rat"
  | CRemoveLink string
  | CAddToxic ToxicWrapper
  | CUpdateToxicJson string string "json option"
  | CRemoveToxic string
  | CResetToxics
  | CResetNext

definition chainRemoveToxic :: "ToxicWrapper \<Rightarrow> ToxicCollection \<Rightarrow> ToxicCollection outcome" where
  "chainRemoveToxic w c = start_on_links (tw_Direction w) (link_RemoveToxic w) (chain_remove w (coll_chains c)) c"

fun coll_step :: "coll_event \<Rightarrow> ToxicCollection \<Rightarrow> ToxicCollection outcome option" where
  "coll_step (CLink n a) c = (case map_of (coll_links c) n of
       None \<Rightarrow> None
     | Some l \<Rightarrow>
         (case link_step (coll_chains c ! unat (link_direction l)) a l of
            None \<Rightarrow> None
          | Some Crash \<Rightarrow> Some Crash
          | Some (Fine l') \<Rightarrow> Some (Fine (c\<lparr>coll_links := AList.update n l' (coll_links c)\<rparr>))))"
| "coll_step (CStartLink n dir ds) c =
     (if lock_free c \<and> dir < NumDirections
      then Some (Fine (c\<lparr>coll_links := AList.update n (new_link ds (coll_chains c ! unat dir) dir) (coll_links c)\<rparr>))
      else None)"
| "coll_step (CRemoveLink n) c = (case map_of (coll_links c) n of
       None \<Rightarrow> None
     | Some l \<Rightarrow> if lock_free c \<and> write_state l = WDone
         then Some (Fine (c\<lparr>coll_links := AList.delete n (coll_links c)\<rparr>)) else None)"
| "coll_step (CAddToxic w) c =
     (if lock_free c then
        (case AddToxic w (coll_chains c) of
           Crash \<Rightarrow> Some Crash
         | Fine (Inl e, chain) \<Rightarrow> Some (Fine c)
         | Fine (Inr w', chain) \<Rightarrow> Some (start_on_links (tw_Direction w') (link_AddToxic w') chain c))
      else None)"
| "coll_step (CUpdateToxicJson txt n body) c =
     (if lock_free c then
        (case UpdateToxicJson txt n body (coll_chains c) of
           (Inl e, chain) \<Rightarrow> Some (Fine (c\<lparr>coll_chains := chain\<rparr>))
         | (Inr w, chain) \<Rightarrow> Some (start_on_links (tw_Direction w) (link_UpdateToxic w) chain c))
      else None)"
| "coll_step (CRemoveToxic n) c =
     (if lock_free c then
        (case findToxicByName n (coll_chains c) of
           None \<Rightarrow> Some (Fine c)
         | Some w \<Rightarrow> Some (chainRemoveToxic w c))
      else None)"
| "coll_step CResetToxics c = (if lock_free c then Some (Fine (c\<lparr>resetting := True\<rparr>)) else None)"
| "coll_step CResetNext c =
     (if resetting c \<and> all_idle c then
        (case next_reset (coll_chains c) of
           None \<Rightarrow> Some (Fine (c\<lparr>resetting := False\<rparr>))
         | Some w \<Rightarrow> Some (chainRemoveToxic w c))
      else None)"

fun coll_run :: "coll_event list \<Rightarrow> ToxicCollection \<Rightarrow> ToxicCollection outcome option" where
  "coll_run [] c = Some (Fine c)"
| "coll_run (e # es) c = (case coll_step e c of
       Some (Fine c') \<Rightarrow> coll_run es c'
     | r \<Rightarrow> r)"

subsection \<open>The invariant\<close>

text \<open>
  A link has at least the stubs its chain asks for; it has more only while a toxic is being
  removed, and on a link that is closing.
\<close>

definition fits :: "ToxicWrapper list \<Rightarrow> ToxicLink \<Rightarrow> bool" where
  "fits chain l \<longleftrightarrow> length chain \<le> length (stubs l) \<and> (case ctl l of
       Removing w ph \<Rightarrow> length chain < length (stubs l) \<and> nat (tw_Index w) \<le> length chain
     | Stopping w h b \<Rightarrow> length chain < length (stubs l) \<and> nat (tw_Index w) \<le> length chain
     | Collecting w h \<Rightarrow> length chain < length (stubs l) \<and> nat (tw_Index w) \<le> length chain
     | Flushing w b \<Rightarrow> length chain < length (stubs l) \<and> nat (tw_Index w) \<le> length chain
     | _ \<Rightarrow> True)"

definition coll_ok :: "ToxicCollection \<Rightarrow> bool" where
  "coll_ok c \<longleftrightarrow> chains_ok (coll_chains c) \<and> distinct (map fst (coll_links c))
     \<and> (\<forall>(n, l) \<in> set (coll_links c). link_inv l \<and> unat (link_direction l) < 2
          \<and> fits (coll_chains c ! unat (link_direction l)) l)"

lemma on_stub_link:
  "on_stub k a v l = Some (Fine l') \<Longrightarrow> ctl l' = ctl l \<and> length (stubs l') = length (stubs l)
     \<and> link_direction l' = link_direction l"
  by (auto simp: on_stub_def split: if_splits option.splits outcome.splits)

lemma fits_frame:
  "ctl l' = ctl l \<and> length (stubs l') = length (stubs l) \<and> link_direction l' = link_direction l \<Longrightarrow>
     fits ch l \<Longrightarrow> fits ch l' \<and> link_direction l' = link_direction l"
  by (cases "ctl l") (auto simp: fits_def)

lemma fits_length: "fits ws l \<Longrightarrow> length ws' = length ws \<Longrightarrow> fits ws' l"
  by (cases "ctl l") (auto simp: fits_def)

lemma after_exited_fits:
  "after_exited chain ds l = Fine l' \<Longrightarrow> fits ch l \<Longrightarrow> fits ch l' \<and> link_direction l' = link_direction l"
  by (auto simp: after_exited_def fits_def Let_def split: control.splits if_splits)

lemma after_closed_fits:
  "after_closed l = Fine l' \<Longrightarrow> fits ch l \<Longrightarrow> fits ch l' \<and> link_direction l' = link_direction l"
  by (auto simp: after_closed_def fits_def Let_def split: control.splits outcome.splits)

lemma stop_round_fits:
  assumes r: "stop_round w h l = Some (Fine l')" and ct: "ctl l = Stopping w h False" and f: "fits ch l"
  shows "fits ch l' \<and> link_direction l' = link_direction l"
proof (cases "chan_recv (chans l (Input (stubs l ! nat (tw_Index w))))")
  case (Value x ch')
  with r f ct show ?thesis
    by (auto simp: stop_round_def set_ctl_def post_on_def Let_def fits_def split: outcome.splits option.splits)
next
  case Drained
  from r [unfolded stop_round_def Let_def Drained received.case] f ct show ?thesis
    by (auto simp: fits_def split: outcome.splits)
next
  case Empty
  with r show ?thesis by (simp add: stop_round_def Let_def)
qed

lemma flush_round_fits:
  "flush_round w l = Some (Fine l') \<Longrightarrow> ctl l = Flushing w False \<Longrightarrow> fits ch l \<Longrightarrow>
     fits ch l' \<and> link_direction l' = link_direction l"
  by (auto simp: flush_round_def set_ctl_def post_on_def Let_def fits_def
      split: outcome.splits option.splits received.splits if_splits)

lemma finish_remove_fits:
  "finish_remove chain ds w l = Some (Fine l') \<Longrightarrow> ctl l = Flushing w False \<Longrightarrow> link_inv l \<Longrightarrow> fits ch l \<Longrightarrow>
     fits ch l' \<and> link_direction l' = link_direction l"
  using link_invD(7) [of l] by (auto simp: finish_remove_def Let_def fits_def ctl_ok_def min_def split: if_splits)

lemma link_step_fits:
  assumes inv: "link_inv l" and st: "link_step chain x l = Some (Fine l')" and f: "fits ch l"
  shows "fits ch l' \<and> link_direction l' = link_direction l"
proof (cases x)
  case (StubAct k a v)
  with st have on: "on_stub k a v l = Some (Fine l')" by (auto split: if_splits)
  from on_stub_link [OF on] f show ?thesis by (cases "ctl l") (auto simp: fits_def)
next
  case (OpInterrupt v)
  with st obtain k l1 where t: "ctl_target l = Some (k, Asking)" and on: "on_stub k AInterrupt v l = Some (Fine l1)"
    and l': "l' = l1\<lparr>ctl := set_phase Waiting (ctl l1)\<rparr>"
    by (auto simp: map_fine simp del: map_option_eq_Some split: option.splits phase.splits)
  with on_stub_link [OF on] f show ?thesis by (cases "ctl l") (auto simp: fits_def)
next
  case (HelpInterrupt v)
  with st obtain k l1 where t: "helper_of l = Some (k, HAsking)" and on: "on_stub k AInterrupt v l = Some (Fine l1)"
    and l': "l' = l1\<lparr>ctl := set_helper HWaiting (ctl l1)\<rparr>"
    by (auto simp: map_fine simp del: map_option_eq_Some split: option.splits helper.splits)
  with on_stub_link [OF on] f show ?thesis by (cases "ctl l") (auto simp: fits_def)
next
  case OpClosed
  with st after_closed_fits f show ?thesis by (auto split: option.splits phase.splits if_splits)
next
  case (OpExited ds)
  with st after_exited_fits f show ?thesis by (auto split: option.splits phase.splits if_splits)
next
  case OpRound
  with st stop_round_fits [OF _ _ f] flush_round_fits [OF _ _ f] show ?thesis
    by (auto split: control.splits bool.splits)
next
  case (OpFinish ds)
  with st finish_remove_fits [OF _ _ inv f] show ?thesis by (auto split: control.splits bool.splits)
next
  case HelpClosed
  with st f show ?thesis
    by (auto simp: helper_of_def fits_def split: option.splits helper.splits if_splits control.splits)
next
  case HelpExited
  with st f show ?thesis
    by (auto simp: helper_of_def fits_def split: option.splits helper.splits if_splits control.splits)
next
  case OpResult
  with st f show ?thesis by (auto simp: fits_def split: control.splits helper.splits bool.splits if_splits)
next
  case OpSent
  with st f show ?thesis by (auto simp: fits_def Let_def split: control.splits bool.splits if_splits)
next
  case OpTimeout
  with st f show ?thesis by (auto simp: fits_def Let_def split: control.splits bool.splits if_splits)
next
  case OpCollect
  with st f show ?thesis by (auto simp: fits_def split: control.splits helper.splits)
next
  case (ReadChunk bs tm)
  show ?thesis using st ReadChunk by (intro fits_frame [OF _ f]) (auto split: option.splits if_splits)
next
  case ReadSent
  show ?thesis using st ReadSent by (intro fits_frame [OF _ f]) (auto split: if_splits)
next
  case ReadEnd
  show ?thesis using st ReadEnd by (intro fits_frame [OF _ f]) (auto split: option.splits if_splits)
next
  case WriteChunk
  show ?thesis using st WriteChunk by (intro fits_frame [OF _ f]) (auto split: received.splits if_splits)
next
  case WriteEnd
  show ?thesis using st WriteEnd by (intro fits_frame [OF _ f]) (auto split: if_splits)
qed

lemma on_links_Fine:
  "on_links dir f ls = Fine ls' \<Longrightarrow> map fst ls' = map fst ls \<and> (\<forall>(n, l') \<in> set ls'.
     \<exists>l. (n, l) \<in> set ls \<and> (if link_direction l = dir then f l = Fine l' else l' = l))"
proof (induction dir f ls arbitrary: ls' rule: on_links.induct)
  case (2 dir f n l ls)
  then obtain l1 ls1 where "(if link_direction l = dir then f l else Fine l) = Fine l1"
    "on_links dir f ls = Fine ls1" "ls' = (n, l1) # ls1"
    by (auto split: outcome.splits)
  with 2 show ?case by (fastforce split: if_splits)
qed simp

lemma on_links_Crash:
  "on_links dir f ls = Crash \<Longrightarrow> \<exists>(n, l) \<in> set ls. link_direction l = dir \<and> f l = Crash"
  by (induction dir f ls rule: on_links.induct) (auto split: outcome.splits if_splits)

lemma coll_okD:
  assumes "coll_ok c"
  shows "chains_ok (coll_chains c)" and "distinct (map fst (coll_links c))"
    and "(n, l) \<in> set (coll_links c) \<Longrightarrow> link_inv l \<and> unat (link_direction l) < 2
           \<and> fits (coll_chains c ! unat (link_direction l)) l"
  using assms by (auto simp: coll_ok_def)

lemma start_ok:
  assumes ok: "coll_ok c" and idle: "all_idle c" and chain: "chains_ok chain"
    and other: "\<And>d. d \<noteq> dir \<Longrightarrow> chain ! unat d = coll_chains c ! unat d"
    and f: "\<And>l l'. link_inv l \<Longrightarrow> ctl l = NoOp \<Longrightarrow> link_direction l = dir \<Longrightarrow>
       fits (coll_chains c ! unat dir) l \<Longrightarrow> f l = Fine l' \<Longrightarrow>
       link_inv l' \<and> link_direction l' = dir \<and> fits (chain ! unat dir) l'"
    and st: "start_on_links dir f chain c = Fine c'"
  shows "coll_ok c'"
proof -
  obtain ls where ls: "on_links dir f (coll_links c) = Fine ls" and c': "c' = c\<lparr>coll_chains := chain, coll_links := ls\<rparr>"
    using st by (auto simp: start_on_links_def split: outcome.splits)
  note on = on_links_Fine [OF ls]
  have "link_inv l' \<and> unat (link_direction l') < 2 \<and> fits (chain ! unat (link_direction l')) l'"
    if i: "(n, l') \<in> set ls" for n l'
  proof -
    from on i obtain l where l: "(n, l) \<in> set (coll_links c)"
      "if link_direction l = dir then f l = Fine l' else l' = l" by fastforce
    have "ctl l = NoOp" using idle l(1) by (auto simp: all_idle_def list_all_iff)
    with f [of l l'] coll_okD(3) [OF ok l(1)] l(2) other show ?thesis by (auto split: if_splits)
  qed
  with coll_okD(2) [OF ok] on chain show ?thesis by (auto simp: coll_ok_def c')
qed

lemma start_Crash:
  assumes ok: "coll_ok c" and idle: "all_idle c" and st: "start_on_links dir f chain c = Crash"
  obtains n l where "(n, l) \<in> set (coll_links c)" "link_inv l" "ctl l = NoOp" "link_direction l = dir"
    "fits (coll_chains c ! unat dir) l" "f l = Crash"
proof -
  obtain n l where l: "(n, l) \<in> set (coll_links c)" "link_direction l = dir" "f l = Crash"
    using st on_links_Crash [of dir f "coll_links c"] by (auto simp: start_on_links_def split: outcome.splits)
  have "ctl l = NoOp" using idle l(1) by (auto simp: all_idle_def list_all_iff)
  with that coll_okD(3) [OF ok l(1)] l show thesis by blast
qed

lemma unat_other: "d \<noteq> (dir :: direction) \<Longrightarrow> unat d \<noteq> unat dir"
  by (simp add: word_unat_eq_iff)

lemma length_chain_add:
  "unat (tw_Direction w) < length chain \<Longrightarrow>
     length (snd (chain_add w chain) ! unat (tw_Direction w)) = Suc (length (chain ! unat (tw_Direction w)))"
  by (simp add: chain_add_def Let_def)

lemma add_start_ok:
  assumes ok: "coll_ok c" and free: "lock_free c" and a: "AddToxic w (coll_chains c) = Fine (Inr w', chain)"
    and st: "start_on_links (tw_Direction w') (link_AddToxic w') chain c = Fine c'"
  shows "coll_ok c'"
proof -
  define w2 where "w2 = (let w1 = w\<lparr>tw_Toxicity := 1\<rparr> in
      if tw_Name w1 = [] then w1\<lparr>tw_Name := tw_Type w1 @ ''_'' @ tw_Stream w1\<rparr> else w1)"
  have len: "length (coll_chains c) = 2" using coll_okD(1) [OF ok] by (simp add: chains_ok_def)
  from a have new: "findToxicByName (tw_Name w2) (coll_chains c) = None"
    and dir: "unat (tw_Direction w2) < 2" and add: "chain_add w2 (coll_chains c) = (w', chain)"
    using len by (auto simp: AddToxic_def w2_def Let_def split: if_splits prod.splits)
  have w': "tw_Direction w' = tw_Direction w2" using add by (auto simp: chain_add_def Let_def)
  have "chains_ok chain" using chain_add_ok [OF coll_okD(1) [OF ok] new dir] add by simp
  moreover have "chain ! unat d = coll_chains c ! unat d" if "d \<noteq> tw_Direction w'" for d
    using unat_other [OF that] add w' by (auto simp: chain_add_def Let_def)
  moreover have "length (chain ! unat (tw_Direction w')) = Suc (length (coll_chains c ! unat (tw_Direction w')))"
    using length_chain_add [of w2 "coll_chains c"] add dir len w' by simp
  ultimately show ?thesis
  proof (intro start_ok [OF ok _ _ _ _ st])
    fix l l' assume l: "link_inv l" "ctl l = NoOp" "link_AddToxic w' l = Fine l'" "link_direction l = tw_Direction w'"
      "fits (coll_chains c ! unat (tw_Direction w')) l"
      and n: "length (chain ! unat (tw_Direction w')) = Suc (length (coll_chains c ! unat (tw_Direction w')))"
    show "link_inv l' \<and> link_direction l' = tw_Direction w' \<and> fits (chain ! unat (tw_Direction w')) l'"
      using link_AddToxic_inv [OF l(1,2)] l n by (auto simp: link_AddToxic_def Let_def fits_def split: if_splits)
  qed (use free in \<open>auto simp: lock_free_def\<close>)
qed

lemma update_start_ok:
  assumes ok: "coll_ok c" and free: "lock_free c" and u: "UpdateToxicJson txt n body (coll_chains c) = (Inr w, chain)"
  shows "start_on_links (tw_Direction w) (link_UpdateToxic w) chain c \<noteq> Crash"
    and "start_on_links (tw_Direction w) (link_UpdateToxic w) chain c = Fine c' \<Longrightarrow> coll_ok c'"
proof -
  from u obtain w0 t x where f: "findToxicByName n (coll_chains c) = Some w0"
    and w: "w = w0\<lparr>tw_Toxic := t, tw_Toxicity := x\<rparr>" and chain: "chain = chain_update w (coll_chains c)"
    by (cases rule: UpdateToxicJson_cases [OF u]) auto
  note at = found_at [OF coll_okD(1) [OF ok] f]
  have idle: "all_idle c" using free by (simp add: lock_free_def)
  have len: "length (coll_chains c) = 2" using coll_okD(1) [OF ok] by (simp add: chains_ok_def)
  have i: "0 \<le> tw_Index w" "nat (tw_Index w) < length (coll_chains c ! unat (tw_Direction w))" using at w by auto
  have n: "length (chain ! unat (tw_Direction w)) = length (coll_chains c ! unat (tw_Direction w))"
    using len at(3) w by (simp add: chain chain_update_def Let_def)
  have beg: "link_UpdateToxic w l = Fine (l\<lparr>ctl := Updating w Asking\<rparr>)" if "fits (coll_chains c ! unat (tw_Direction w)) l" for l
    using i that by (auto simp: link_UpdateToxic_def fits_def)
  show "start_on_links (tw_Direction w) (link_UpdateToxic w) chain c \<noteq> Crash"
    using start_Crash [OF ok idle, of "tw_Direction w" "link_UpdateToxic w" chain] beg by fastforce
  show "coll_ok c'" if st: "start_on_links (tw_Direction w) (link_UpdateToxic w) chain c = Fine c'"
  proof (rule start_ok [OF ok idle _ _ _ st])
    show "chains_ok chain" using chain_update_ok [OF coll_okD(1) [OF ok] f, of w] by (simp add: w chain)
    show "chain ! unat d = coll_chains c ! unat d" if "d \<noteq> tw_Direction w" for d
      using unat_other [OF that] by (auto simp: chain chain_update_def Let_def)
    fix l l' assume l: "link_inv l" "ctl l = NoOp" "link_UpdateToxic w l = Fine l'" "link_direction l = tw_Direction w"
      "fits (coll_chains c ! unat (tw_Direction w)) l"
    then have "link_event_step [] (BeginUpdate w) l = Some (Fine l')" by (simp add: link_event_step_def)
    from link_event_inv [OF l(1) this] l beg [OF l(5)] n
    show "link_inv l' \<and> link_direction l' = tw_Direction w \<and> fits (chain ! unat (tw_Direction w)) l'"
      by (auto simp: fits_def)
  qed
qed

lemma remove_start_ok:
  assumes ok: "coll_ok c" and idle: "all_idle c" and f: "findToxicByName n (coll_chains c) = Some w"
  shows "chainRemoveToxic w c \<noteq> Crash" and "chainRemoveToxic w c = Fine c' \<Longrightarrow> coll_ok c'"
proof -
  note at = found_at [OF coll_okD(1) [OF ok] f]
  let ?chain = "chain_remove w (coll_chains c)" and ?d = "unat (tw_Direction w)"
  have len: "length (coll_chains c) = 2" using coll_okD(1) [OF ok] by (simp add: chains_ok_def)
  have n: "Suc (length (?chain ! ?d)) = length (coll_chains c ! ?d)"
    using len at(3,4) by (simp add: chain_remove_def Let_def)
  have beg: "link_RemoveToxic w l = Fine (l\<lparr>ctl := Removing w Asking\<rparr>)" if "fits (coll_chains c ! ?d) l" for l
    using at(2,4) that by (auto simp: link_RemoveToxic_def fits_def)
  show "chainRemoveToxic w c \<noteq> Crash" unfolding chainRemoveToxic_def
    using start_Crash [OF ok idle, of "tw_Direction w" "link_RemoveToxic w" ?chain] beg by fastforce
  show "coll_ok c'" if st: "chainRemoveToxic w c = Fine c'"
  proof (rule start_ok [OF ok idle _ _ _ st [unfolded chainRemoveToxic_def]])
    show "chains_ok ?chain" by (rule chain_remove_ok [OF coll_okD(1) [OF ok] f])
    show "?chain ! unat d = coll_chains c ! unat d" if "d \<noteq> tw_Direction w" for d
      using unat_other [OF that] by (auto simp: chain_remove_def Let_def)
    fix l l' assume l: "link_inv l" "ctl l = NoOp" "link_RemoveToxic w l = Fine l'" "link_direction l = tw_Direction w"
      "fits (coll_chains c ! ?d) l"
    then have "link_event_step [] (BeginRemove w) l = Some (Fine l')" by (simp add: link_event_step_def)
    from link_event_inv [OF l(1) this] l beg [OF l(5)] n at(4)
    show "link_inv l' \<and> link_direction l' = tw_Direction w \<and> fits (?chain ! ?d) l'"
      by (auto simp: fits_def)
  qed
qed

lemma find_unique: "distinct (map f xs) \<Longrightarrow> x \<in> set xs \<Longrightarrow> find (\<lambda>y. f y = f x) xs = Some x"
  by (induction xs) auto

lemma next_reset_found:
  assumes ok: "chains_ok chain" and r: "next_reset chain = Some w"
  obtains n where "findToxicByName n chain = Some w"
proof -
  obtain u d where c: "chain = [u, d]" "line_ok 0 u" "line_ok 1 d" "distinct (map tw_Name (tl u @ tl d))"
    using two_chains [OF ok] .
  have "w \<in> set (tl u @ tl d)"
    using r c(1) by (cases u; cases d) (auto simp: next_reset_def nth_Cons' hd_conv_nth split: if_splits)
  with c(1,4) find_unique [of tw_Name "tl u @ tl d" w] have "findToxicByName (tw_Name w) chain = Some w"
    by (simp add: findToxicByName_def)
  then show thesis by (rule that)
qed

lemma in_update:
  "distinct (map fst al) \<Longrightarrow> (n, x) \<in> set (AList.update k v al) \<Longrightarrow> (n = k \<and> x = v) \<or> (n, x) \<in> set al"
  by (induction al) (auto split: if_splits)

text \<open>Every step of the collection, whatever goroutine takes it, keeps the invariant.\<close>

lemma coll_step_ok:
  assumes ok: "coll_ok c" and st: "coll_step e c = Some (Fine c')"
  shows "coll_ok c'"
proof (cases e)
  case (CLink n a)
  with st obtain l l' where l: "map_of (coll_links c) n = Some l"
    "link_step (coll_chains c ! unat (link_direction l)) a l = Some (Fine l')"
    and c': "c' = c\<lparr>coll_links := AList.update n l' (coll_links c)\<rparr>"
    by (auto split: option.splits outcome.splits)
  note k = coll_okD(3) [OF ok map_of_SomeD [OF l(1)]]
  have "link_inv l'" using link_step_inv [OF conjunct1 [OF k] l(2)] .
  moreover have "fits (coll_chains c ! unat (link_direction l)) l' \<and> link_direction l' = link_direction l"
    using link_step_fits [OF conjunct1 [OF k] l(2)] k by blast
  ultimately show ?thesis using ok k c' coll_okD(1,2) [OF ok] coll_okD(3) [OF ok]
    by (auto simp: coll_ok_def distinct_update dest!: in_update [OF coll_okD(2) [OF ok]])
next
  case (CStartLink n dir ds)
  let ?ws = "coll_chains c ! unat dir"
  from CStartLink st have d: "dir < NumDirections"
    and c': "c' = c\<lparr>coll_links := AList.update n (new_link ds ?ws dir) (coll_links c)\<rparr>"
    by (auto split: if_splits)
  have d2: "unat dir < 2" using d by (simp add: NumDirections_def word_less_nat_alt)
  then have ne: "?ws \<noteq> []" using coll_okD(1) [OF ok] by (auto simp: chains_ok_def line_ok_def)
  obtain ss \<sigma> out where m: "make_stubs ?ws (\<lambda>_. make_chan 0) 0 = (ss, \<sigma>, out)" by (metis prod_cases3)
  have "fits ?ws (new_link ds ?ws dir)" "link_direction (new_link ds ?ws dir) = dir"
    using new_link_fields [OF m, of ds dir] by (simp_all add: fits_def new_link_def link_Start_def NewToxicLink_def Let_def split_beta)
  with new_link_inv [OF ne] d2 c' coll_okD(1,2) [OF ok] coll_okD(3) [OF ok] show ?thesis
    by (auto simp: coll_ok_def distinct_update dest!: in_update [OF coll_okD(2) [OF ok]])
next
  case (CRemoveLink n)
  with st ok show ?thesis
    by (auto simp: coll_ok_def AList.delete_eq distinct_map_filter split: option.splits if_splits)
next
  case (CAddToxic w)
  with st ok add_start_ok [OF ok] show ?thesis
    by (auto split: if_splits outcome.splits prod.splits sum.splits)
next
  case (CUpdateToxicJson m n body)
  then obtain r chain where u: "UpdateToxicJson m n body (coll_chains c) = (r, chain)" and free: "lock_free c"
    using st by (cases "UpdateToxicJson m n body (coll_chains c)") (auto split: if_splits)
  show ?thesis
  proof (cases r)
    case (Inl er)
    then have c': "c' = c\<lparr>coll_chains := chain\<rparr>" using st u CUpdateToxicJson by (auto split: if_splits)
    have "chains_ok chain \<and> (\<forall>d. length (chain ! d) = length (coll_chains c ! d))"
    proof (cases rule: UpdateToxicJson_cases [OF u])
      case (3 w t)
      note at = found_at [OF coll_okD(1) [OF ok] 3(1)]
      have "length (coll_chains c) = 2" using coll_okD(1) [OF ok] by (simp add: chains_ok_def)
      with 3(3) at(3) chain_update_ok [OF coll_okD(1) [OF ok] 3(1), of "w\<lparr>tw_Toxic := t\<rparr>"] show ?thesis
        by (simp add: chain_update_def Let_def nth_list_update)
    qed (use Inl coll_okD(1) [OF ok] in auto)
    then show ?thesis using coll_okD(2) [OF ok] coll_okD(3) [OF ok]
      by (auto simp: coll_ok_def c' intro: fits_length)
  next
    case (Inr w)
    with st u CUpdateToxicJson free update_start_ok(2) [OF ok free] show ?thesis by auto
  qed
next
  case (CRemoveToxic n)
  with st ok remove_start_ok(2) [OF ok] show ?thesis
    by (auto simp: lock_free_def split: if_splits option.splits)
next
  case CResetToxics
  with st ok show ?thesis by (auto simp: coll_ok_def split: if_splits)
next
  case CResetNext
  show ?thesis
  proof (cases "next_reset (coll_chains c)")
    case None
    with st ok CResetNext show ?thesis by (auto simp: coll_ok_def split: if_splits)
  next
    case (Some w)
    then obtain n where f: "findToxicByName n (coll_chains c) = Some w"
      using next_reset_found [OF coll_okD(1) [OF ok]] by blast
    from Some st CResetNext remove_start_ok(2) [OF ok _ f] show ?thesis by (auto split: if_splits)
  qed
qed

lemma coll_run_ok: "coll_ok c \<Longrightarrow> coll_run es c = Some (Fine c') \<Longrightarrow> coll_ok c'"
proof (induction es arbitrary: c)
  case (Cons e es)
  then obtain c1 where "coll_step e c = Some (Fine c1)" "coll_run es c1 = Some (Fine c')"
    by (auto split: option.splits outcome.splits)
  with Cons coll_step_ok show ?case by blast
qed simp

lemma NewToxicCollection_ok: "coll_ok NewToxicCollection"
  using new_chains_ok by (simp add: coll_ok_def NewToxicCollection_def)

text \<open>From a new collection on, under every interleaving of link goroutines, requests, new
  connections and resets, the chains stay well formed (names are unique, indexes are
  positions), and every link keeps its channels wired in chain order with one writer each
  and at least a stub for every toxic of its chain.\<close>

theorem collection_stays_ok:
  assumes "coll_run es NewToxicCollection = Some (Fine c)"
  shows "chains_ok (coll_chains c) \<and> (\<forall>n l. map_of (coll_links c) n = Some l \<longrightarrow>
    link_inv l \<and> length (coll_chains c ! unat (link_direction l)) \<le> length (stubs l))"
  using coll_run_ok [OF NewToxicCollection_ok assms] coll_okD(1,3) [of c] map_of_SomeD [of "coll_links c"]
  by (auto simp: fits_def)

subsection \<open>What can crash\<close>

definition add_index_panics :: "ToxicWrapper list \<Rightarrow> ToxicLink \<Rightarrow> link_act \<Rightarrow> bool" where
  "add_index_panics chain l a = (case (a, ctl l) of
       (OpExited ds, Adding w ph) \<Rightarrow> length chain \<le> length (stubs l) - 2
     | _ \<Rightarrow> False)"

definition coll_panics :: "coll_event \<Rightarrow> ToxicCollection \<Rightarrow> bool" where
  "coll_panics e c = (case e of
       CLink n a \<Rightarrow> (case map_of (coll_links c) n of
           None \<Rightarrow> False
         | Some l \<Rightarrow> toxic_panics l (Step a)
             \<or> add_index_panics (coll_chains c ! unat (link_direction l)) l a)
     | CAddToxic w \<Rightarrow> NumDirections \<le> tw_Direction w
     | _ \<Rightarrow> False)"

lemma link_step_Crash:
  assumes inv: "link_inv l" and f: "fits chain l" and st: "link_step chain a l = Some Crash"
  shows "toxic_panics l (Step a) \<or> add_index_panics chain l a"
proof (cases "toxic_panics l (Step a)")
  case False
  then have i: "index_panics chain l (Step a)"
    using link_event_Crash [OF inv, of chain "Step a"] st by (simp add: link_event_step_def)
  show ?thesis
  proof (cases a)
    case (OpFinish ds)
    with i f link_invD(7) [OF inv] show ?thesis
      by (auto simp: index_panics_def fits_def ctl_ok_def split: control.splits)
  next
    case (OpExited ds)
    with i show ?thesis by (auto simp: index_panics_def add_index_panics_def split: control.splits)
  qed (use i in \<open>simp_all add: index_panics_def\<close>)
qed simp

lemma coll_step_Crash:
  assumes ok: "coll_ok c" and st: "coll_step e c = Some Crash"
  shows "coll_panics e c"
proof (cases e)
  case (CLink n a)
  with st obtain l where l: "map_of (coll_links c) n = Some l"
    "link_step (coll_chains c ! unat (link_direction l)) a l = Some Crash"
    by (auto split: option.splits outcome.splits)
  note k = coll_okD(3) [OF ok map_of_SomeD [OF l(1)]]
  with link_step_Crash [OF _ _ l(2)] l(1) CLink show ?thesis by (simp add: coll_panics_def)
next
  case (CAddToxic w)
  have len: "length (coll_chains c) = 2" using coll_okD(1) [OF ok] by (simp add: chains_ok_def)
  have "link_AddToxic w' l \<noteq> Crash" if "link_inv l" for w' l
    using link_invD(3) [OF that] by (simp add: link_AddToxic_def Let_def)
  then have "start_on_links d (link_AddToxic w') chain c \<noteq> Crash" if "lock_free c" for d w' chain
    using start_Crash [OF ok, of d "link_AddToxic w'" chain] that by (metis lock_free_def)
  with CAddToxic st have "AddToxic w (coll_chains c) = Crash"
    by (auto split: if_splits outcome.splits prod.splits sum.splits)
  then have "2 \<le> unat (tw_Direction w)"
    using len by (auto simp: AddToxic_def Let_def split: if_splits prod.splits)
  then show ?thesis using CAddToxic by (simp add: coll_panics_def NumDirections_def word_le_nat_alt)
next
  case (CUpdateToxicJson m n body)
  with st update_start_ok(1) [OF ok] show ?thesis
    by (auto split: if_splits sum.splits prod.splits)
next
  case (CRemoveToxic n)
  with st remove_start_ok(1) [OF ok] show ?thesis
    by (auto simp: lock_free_def split: if_splits option.splits)
next
  case CResetNext
  with st obtain w where r: "next_reset (coll_chains c) = Some w" "all_idle c" "chainRemoveToxic w c = Crash"
    by (auto split: if_splits option.splits)
  from next_reset_found [OF coll_okD(1) [OF ok] r(1)] r(2,3) remove_start_ok(1) [OF ok] show ?thesis by blast
qed (use st in \<open>auto split: if_splits option.splits\<close>)

text \<open>From a new collection on, the process crashes only where the code of a toxic itself
  panics, where \<open>AddToxic\<close> looks up a toxic behind the end of its chain, or when a toxic is added
  with a direction that does not exist. All other index expressions of \<open>link.go\<close> stay in
  range, and no channel is closed twice or written to after it was closed.\<close>

theorem coll_crash_causes:
  assumes "coll_run es NewToxicCollection = Some Crash"
  shows "\<exists>done e rest c. es = done @ e # rest \<and> coll_run done NewToxicCollection = Some (Fine c) \<and> coll_panics e c"
proof -
  have "coll_ok c0 \<Longrightarrow> coll_run es c0 = Some Crash \<Longrightarrow>
      \<exists>done e rest c. es = done @ e # rest \<and> coll_run done c0 = Some (Fine c) \<and> coll_panics e c" for c0
  proof (induction es arbitrary: c0)
    case (Cons e es)
    then obtain r where r: "coll_step e c0 = Some r" by (auto split: option.splits)
    show ?case
    proof (cases r)
      case Crash
      with coll_step_Crash [OF Cons.prems(1)] r show ?thesis
        by (metis append_Nil coll_run.simps(1))
    next
      case (Fine c1)
      with r Cons.prems have "coll_ok c1" "coll_run es c1 = Some Crash"
        using coll_step_ok by auto
      from Cons.IH [OF this] obtain d e' rest c where *: "es = d @ e' # rest"
        "coll_run d c1 = Some (Fine c)" "coll_panics e' c" by blast
      with r Fine have "e # es = (e # d) @ e' # rest" "coll_run (e # d) c0 = Some (Fine c)" by simp_all
      with *(3) show ?thesis by blast
    qed
  qed simp
  then show ?thesis using NewToxicCollection_ok assms by blast
qed

subsection \<open>A lock that is never released\<close>

text \<open>
  The destination of the link has failed and nothing reads its output any more; the last
  stub is blocked in a send there, and an operation waits to interrupt this stub.
\<close>

definition jammed :: "ToxicLink \<Rightarrow> bool" where
  "jammed l = (write_state l = WDone \<and> \<not> settled (chans l (link_output l))
     \<and> (case ctl_target l of
          Some (k, Asking) \<Rightarrow> k < length (stubs l) \<and> Output (stubs l ! k) = link_output l
            \<and> \<not> is_closed (stubs l ! k) \<and> (case thread (stubs l ! k) of Sending p \<Rightarrow> True | _ \<Rightarrow> False)
        | _ \<Rightarrow> False))"

lemma jammedD:
  assumes "jammed l"
  obtains k p where "write_state l = WDone" "\<not> settled (chans l (link_output l))"
    "ctl_target l = Some (k, Asking)" "k < length (stubs l)" "Output (stubs l ! k) = link_output l"
    "\<not> is_closed (stubs l ! k)" "thread (stubs l ! k) = Sending p" "helper_of l = None"
    "\<And>w h b. ctl l \<noteq> Stopping w h b" "\<And>w b. ctl l \<noteq> Flushing w b" "\<And>w h. ctl l \<noteq> Collecting w h" "ctl l \<noteq> NoOp"
proof -
  obtain k ph where t: "ctl_target l = Some (k, ph)" using assms by (auto simp: jammed_def split: option.splits)
  then have c: "helper_of l = None" "\<And>w h b. ctl l \<noteq> Stopping w h b" "\<And>w b. ctl l \<noteq> Flushing w b"
    "\<And>w h. ctl l \<noteq> Collecting w h" "ctl l \<noteq> NoOp"
    by (auto simp: ctl_target_def helper_of_def split: control.splits)
  have ph: "ph = Asking" using assms t by (cases ph) (simp_all add: jammed_def)
  obtain p where "thread (stubs l ! k) = Sending p"
    using assms t ph by (cases "thread (stubs l ! k)") (simp_all add: jammed_def)
  with assms t ph show thesis by (intro that [OF _ _ _ _ _ _ _ c]) (auto simp: jammed_def)
qed

lemma ctl_target_frame:
  "ctl l' = ctl l \<Longrightarrow> length (stubs l') = length (stubs l) \<Longrightarrow> ctl_target l' = ctl_target l"
  by (cases "ctl l") (simp_all add: ctl_target_def)

lemma jammed_frame:
  assumes "jammed l" and "write_state l' = write_state l" "link_output l' = link_output l"
    "chans l' (link_output l) = chans l (link_output l)" "ctl l' = ctl l" "length (stubs l') = length (stubs l)"
    "\<And>k ph. ctl_target l = Some (k, ph) \<Longrightarrow> stubs l' ! k = stubs l ! k"
  shows "jammed l'"
proof -
  obtain k p where "ctl_target l = Some (k, Asking)" using jammedD [OF assms(1)] by metis
  with assms(1) assms(2-6) assms(7) [OF this] ctl_target_frame [OF assms(5,6)] show ?thesis
    by (simp add: jammed_def)
qed

text \<open>The other stubs go on, but none of them touches the channel the last one is blocked on.\<close>

lemma jammed_on_stub:
  assumes inv: "link_inv l" and j: "jammed l" and a: "a \<noteq> AInterrupt" and on: "on_stub i a v l = Some (Fine l')"
  shows "jammed l'"
proof -
  obtain k p where k: "\<not> settled (chans l (link_output l))" "ctl_target l = Some (k, Asking)"
    "k < length (stubs l)" "Output (stubs l ! k) = link_output l" "thread (stubs l ! k) = Sending p"
    using jammedD [OF j] by metis
  have i: "i < length (stubs l)" using on by (simp add: on_stub_def split: if_splits)
  obtain \<sigma>' s' where st: "stub_step a v (chans l) (stubs l ! i) = Some (Fine (\<sigma>', s'))"
    and l': "l' = l\<lparr>chans := \<sigma>', stubs := (stubs l)[i := s']\<rparr>"
    using on i by (auto simp: on_stub_def split: option.splits outcome.splits)
  have ne: "i \<noteq> k" using st k a by (cases a) (auto split: if_splits)
  have ns: "\<not> stopped (stubs l ! i)" "\<not> stopped (stubs l ! k)"
    using stub_step_thread [OF st] k(5) by (auto simp: stopped_def)
  obtain as bs where ab: "live l = as @ (stubs l ! i) # bs" "length as = i"
    using live_stub [OF inv i] ns(1) by metis
  obtain as' bs' where ab': "live l = as' @ (stubs l ! k) # bs'" "length as' = k"
    using live_stub [OF inv k(3)] ns(2) by metis
  note d = live_distinct [OF inv]
  have pl: "plumbed (writers l) (chans l) (link_output l) (live l)" using link_invD(5) [OF inv] .
  have "Output (stubs l ! k) = head_chan (link_output l) bs'"
    using pl ns(2) unfolding ab'(1) by (auto simp: plumbed_split stub_ok_def stopped_def k(5))
  then have "bs' = []" using k(4) d unfolding ab'(1) by (cases bs') auto
  then have "length (live l) = Suc k" "length (live l) = Suc (i + length bs)"
    using arg_cong [OF ab(1), of length] arg_cong [OF ab'(1), of length] ab(2) ab'(2) by simp_all
  then have "bs \<noteq> []" using ne by auto
  moreover have "Output (stubs l ! i) = head_chan (link_output l) bs"
    using pl k(5) stub_step_thread [OF st] unfolding ab(1) by (auto simp: plumbed_split stub_ok_def stopped_def)
  ultimately have "Output (stubs l ! i) \<noteq> link_output l" "Input (stubs l ! i) \<noteq> link_output l"
    using d unfolding ab(1) by (cases bs; auto)+
  then have "\<sigma>' (link_output l) = chans l (link_output l)"
    using stub_step_frame(3) [OF st, of "link_output l"] by metis
  then show ?thesis using ne k(2) by (intro jammed_frame [OF j]) (auto simp: l')
qed

lemma jammed_step:
  assumes inv: "link_inv l" and j: "jammed l" and st: "link_step chain a l = Some (Fine l')"
  shows "jammed l'"
proof -
  obtain k p where k: "write_state l = WDone" "ctl_target l = Some (k, Asking)" "k < length (stubs l)"
    "\<not> is_closed (stubs l ! k)" "thread (stubs l ! k) = Sending p" "helper_of l = None"
    "\<And>w h b. ctl l \<noteq> Stopping w h b" "\<And>w b. ctl l \<noteq> Flushing w b" "\<And>w h. ctl l \<noteq> Collecting w h"
    using jammedD [OF j] by metis
  have io: "link_input l \<noteq> link_output l" using live_hd(3) [OF inv] by blast
  show ?thesis
  proof (cases a)
    case (ReadChunk bs tm)
    then show ?thesis using st io by (intro jammed_frame [OF j]) (auto split: option.splits if_splits)
  next
    case ReadSent
    then show ?thesis using st io by (intro jammed_frame [OF j]) (auto split: if_splits)
  next
    case ReadEnd
    then show ?thesis using st io by (intro jammed_frame [OF j]) (auto split: option.splits if_splits)
  next
    case (StubAct i x v)
    with st jammed_on_stub [OF inv j] show ?thesis by (auto split: if_splits)
  next
    case (OpInterrupt v)
    with st k show ?thesis by (auto simp: on_stub_def)
  qed (use st k in \<open>auto simp: Let_def split: control.splits bool.splits\<close>)
qed

text \<open>C13: When the destination of a link has failed while its last stub is blocked in a send, an
  operation that waits to interrupt this stub never ends: whatever the goroutines do from
  then on, the lock of the collection is not free again.\<close>

theorem jammed_keeps_lock:
  assumes "coll_ok c" and "map_of (coll_links c) n = Some l" and "jammed l"
    and "coll_run es c = Some (Fine c')"
  shows "\<not> lock_free c'"
  using assms
proof (induction es arbitrary: c l)
  case Nil
  then have "ctl l \<noteq> NoOp" "(n, l) \<in> set (coll_links c)" by (auto elim: jammedD dest: map_of_SomeD)
  with Nil show ?case by (auto simp: lock_free_def all_idle_def list_all_iff)
next
  case (Cons e es)
  then obtain c1 where s: "coll_step e c = Some (Fine c1)" "coll_run es c1 = Some (Fine c')"
    by (auto split: option.splits outcome.splits)
  have "ctl l \<noteq> NoOp" "(n, l) \<in> set (coll_links c)" using Cons.prems by (auto elim: jammedD dest: map_of_SomeD)
  then have held: "\<not> all_idle c" "\<not> lock_free c" by (auto simp: lock_free_def all_idle_def list_all_iff)
  obtain m a where e: "e = CLink m a" using s(1) held by (cases e) (auto split: option.splits)
  with s(1) obtain l0 l1 where l0: "map_of (coll_links c) m = Some l0"
    "link_step (coll_chains c ! unat (link_direction l0)) a l0 = Some (Fine l1)"
    and c1: "c1 = c\<lparr>coll_links := AList.update m l1 (coll_links c)\<rparr>"
    by (auto split: option.splits outcome.splits)
  have "\<exists>l2. map_of (coll_links c1) n = Some l2 \<and> jammed l2"
  proof (cases "m = n")
    case True
    with l0 Cons.prems have "l0 = l" by simp
    with l0 jammed_step [OF _ Cons.prems(3)] coll_okD(3) [OF Cons.prems(1) map_of_SomeD [OF l0(1)]] True
    show ?thesis by (auto simp: c1 update_conv')
  next
    case False
    then show ?thesis using Cons.prems by (simp add: c1 update_conv')
  qed
  then show ?case using Cons.IH [OF coll_step_ok [OF Cons.prems(1) s(1)] _ _ s(2)] by blast
qed

subsection \<open>Witnesses\<close>

definition with_toxic :: "toxic \<Rightarrow> coll_event list" where
  "with_toxic t = [CAddToxic (some_toxic t ''x'' 0), CStartLink ''a'' Upstream (\<lambda>_. 0)]"

text \<open>A chunk travels to the stub of the added toxic.\<close>

definition first_chunk :: "coll_event list" where
  "first_chunk = map (CLink ''a'') [ReadChunk [7] 0, StubAct 0 ARecv idle, StubAct 0 APost idle, StubAct 1 ARecv idle]"

text \<open>The destination fails, the chunk is stuck in the last stub, and the toxic is updated.\<close>

definition jam_events :: "coll_event list" where
  "jam_events = with_toxic NoopToxic @ first_chunk
     @ map (CLink ''a'') [StubAct 0 ASent idle, WriteEnd, StubAct 1 APost idle]
     @ [CUpdateToxicJson [] ''x'' (Some (JObj []))]"

text \<open>A negative rate: the slice expression of the bandwidth toxic panics.\<close>

definition panic_events :: "coll_event list" where
  "panic_events = with_toxic (BandwidthT \<lparr>Rate = -1\<rparr>) @ first_chunk @ [CLink ''a'' (StubAct 1 ATimer idle)]"

definition jams :: "ToxicCollection outcome option \<Rightarrow> bool" where
  "jams r = (case r of Some (Fine c) \<Rightarrow> (case map_of (coll_links c) ''a'' of
       Some l \<Rightarrow> jammed l \<and> alive (coll_run [CLink ''a'' ReadSent] c)
     | None \<Rightarrow> False) | _ \<Rightarrow> False)"

lemma jams_D:
  "jams r \<Longrightarrow> \<exists>c l c'. r = Some (Fine c) \<and> map_of (coll_links c) ''a'' = Some l \<and> jammed l
     \<and> coll_run [CLink ''a'' ReadSent] c = Some (Fine c')"
  by (auto simp: jams_def alive_iff simp del: coll_run.simps split: option.splits outcome.splits)

lemma jam_events_run: "jams (coll_run jam_events NewToxicCollection)"
  by code_simp

lemma panic_events_run: "crashed (coll_run panic_events NewToxicCollection)"
  by code_simp

theorem collection_stays_ok_witness:
  "\<exists>c. coll_run jam_events NewToxicCollection = Some (Fine c) \<and> chains_ok (coll_chains c)"
  using jams_D [OF jam_events_run] collection_stays_ok [of jam_events] by blast

theorem coll_crash_causes_witness:
  "\<exists>done e rest c. panic_events = done @ e # rest
    \<and> coll_run done NewToxicCollection = Some (Fine c) \<and> coll_panics e c"
  using coll_crash_causes [of panic_events] panic_events_run by (simp add: crashed_iff)

theorem jammed_keeps_lock_witness:
  "\<exists>c c'. coll_run jam_events NewToxicCollection = Some (Fine c)
    \<and> coll_run [CLink ''a'' ReadSent] c = Some (Fine c') \<and> \<not> lock_free c'"
  using jams_D [OF jam_events_run] jammed_keeps_lock coll_run_ok [OF NewToxicCollection_ok] by metis

end
