(* ===== verification/Datagram.thy ===== *)
theory Datagram
  imports IoChan
begin

text \<open>
  The two ends of a link that face the clients (\<open>proxy.go\<close>, \<open>UDPReader\<close> and
  \<open>UDPWriter\<close>), and what \<open>io.Copy\<close> does between them and the channels of the link.
\<close>

subsection \<open>Reading the datagrams of a client\<close>

record UDPReader =
  incoming :: "byte list channel"

text \<open>
  What does not fit into the buffer is cut off. Nobody closes \<open>incoming\<close>; a closed channel
  would give empty reads without an error.
\<close>

definition UDPReader_Read :: "nat \<Rightarrow> UDPReader \<Rightarrow> UDPReader read_result" where
  "UDPReader_Read m u = (case chan_recv (incoming u) of
       Value v ch \<Rightarrow> Returns (take m v) None (u\<lparr>incoming := ch\<rparr>)
     | Drained \<Rightarrow> Returns [] None u
     | Empty \<Rightarrow> Blocks)"

definition datagrams_fit :: "nat \<Rightarrow> UDPReader \<Rightarrow> bool" where
  "datagrams_fit m u \<longleftrightarrow> \<not> shut (incoming u) \<and> list_all (\<lambda>v. length v \<le> m) (queue (incoming u))"

interpretation udp_source: byte_source UDPReader_Read "\<lambda>u. concat (queue (incoming u))" datagrams_fit
    "\<lambda>u. length (queue (incoming u))"
  by unfold_locales
    (auto simp: UDPReader_Read_def datagrams_fit_def chan_recv_def split: list.splits if_splits)

subsection \<open>Writing datagrams\<close>

text \<open>
  A packet connection of Go's \<open>net\<close> package: \<open>WriteTo\<close> sends the whole datagram, or fails,
  as it does on a closed connection and for more than the 65507 bytes a datagram can hold.
\<close>

record packet_conn =
  pc_local :: string
  pc_open :: bool
  pc_sent :: "(string \<times> byte list) list"

definition WriteTo :: "byte list \<Rightarrow> string \<Rightarrow> packet_conn \<Rightarrow> packet_conn \<times> nat \<times> io_error option" where
  "WriteTo p addr c =
     (if \<not> pc_open c then (c, 0, Some (OtherError ''use of closed network connection''))
      else if 65507 < length p then (c, 0, Some (OtherError ''message too long''))
      else (c\<lparr>pc_sent := pc_sent c @ [(addr, p)]\<rparr>, length p, None))"

definition UDPWriter_Write :: "string \<Rightarrow> byte list \<Rightarrow> packet_conn \<Rightarrow> packet_conn \<times> nat \<times> io_error option" where
  "UDPWriter_Write rAddr p outgoing = (case WriteTo p rAddr outgoing of (c, n, err) \<Rightarrow>
     if err \<noteq> None then (c, 0, err) else (c, n, None))"

text \<open>\<open>Close\<close> of the writer does nothing: the connection is the listener all clients share.\<close>

definition UDPWriter_Close :: "packet_conn \<Rightarrow> packet_conn \<times> io_error option" where
  "UDPWriter_Close c = (c, None)"

definition sent_to :: "string \<Rightarrow> packet_conn \<Rightarrow> byte list" where
  "sent_to addr c = concat (map snd (filter (\<lambda>(a, p). a = addr) (pc_sent c)))"

interpretation udp_sink: byte_sink "UDPWriter_Write a" "sent_to a" for a
  by unfold_locales
    (auto simp: UDPWriter_Write_def WriteTo_def sent_to_def split: if_splits)

text \<open>\<open>ChanWriter\<close> as a destination; a write after \<open>Close\<close> panics, which ends the copy.\<close>

definition chunk_sink :: "int \<Rightarrow> byte list \<Rightarrow> chunk_channel \<Rightarrow> chunk_channel \<times> nat \<times> io_error option" where
  "chunk_sink tm p out = (case ChanWriter_Write tm p out of
       Some r \<Rightarrow> r
     | None \<Rightarrow> (out, 0, Some (OtherError ''panic: send on closed channel'')))"

interpretation chan_sink: byte_sink "chunk_sink tm" "\<lambda>ch. chunk_bytes (queue ch)" for tm
  by unfold_locales
    (auto simp: chunk_sink_def ChanWriter_Write_def chan_send_def split: option.splits if_splits)

subsection \<open>Copying\<close>

text \<open>\<open>link.read\<close> of the link towards the upstream, and \<open>link.write\<close> of the one back to the client.\<close>

interpretation client_copy: copying UDPReader_Read "\<lambda>u. concat (queue (incoming u))" datagrams_fit
    "\<lambda>u. length (queue (incoming u))" "chunk_sink tm" "\<lambda>ch. chunk_bytes (queue ch)" for tm
  by unfold_locales

interpretation reply_copy: copying "ChanReader_Read pick" pending reader_fit
    "\<lambda>c. length (queue (cr_input c))" "UDPWriter_Write a" "sent_to a" for pick a
  by unfold_locales

text \<open>The chunks that \<open>io.Copy\<close> makes of a sequence of datagrams.\<close>

definition chunks_of :: "int \<Rightarrow> byte list list \<Rightarrow> StreamChunk list" where
  "chunks_of tm vs = map (\<lambda>v. \<lparr>Data = take copy_buffer v, Timestamp = tm\<rparr>) (filter (\<lambda>v. v \<noteq> []) vs)"

lemma copy_buffer_pos [simp]: "0 < copy_buffer" "copy_buffer \<noteq> 0"
  by (simp_all add: copy_buffer_def)

lemma chunk_sink_open:
  "\<not> shut ch \<Longrightarrow> chunk_sink tm p ch = (ch\<lparr>queue := queue ch @ [\<lparr>Data = p, Timestamp = tm\<rparr>]\<rparr>, length p, None)"
  by (simp add: chunk_sink_def ChanWriter_Write_def chan_send_def)


text \<open>C31: \<open>link.write\<close> sends one datagram to the client for every non-empty chunk that comes out
  of its link, as long as no chunk is longer than the buffer of \<open>io.Copy\<close>; it ends without an
  error when the link is closed and everything has been sent, and otherwise waits.\<close>

theorem chunks_become_datagrams:
  assumes "reader_fit copy_buffer c" and "cr_buffer c \<noteq> None" and "pc_open pc" and "length (queue (cr_input c)) + 1 < fuel"
  shows "\<exists>n c'. io_copy (ChanReader_Read pick) (UDPWriter_Write a) copy_buffer fuel k c pc
    = (if shut (cr_input c) then CopyEnds None else CopyWaits) c'
        (pc\<lparr>pc_sent := pc_sent pc @ [(a, Data p). p \<leftarrow> queue (cr_input c), Data p \<noteq> []]\<rparr>) n
      \<and> queue (cr_input c') = []"
  using assms
proof (induction fuel arbitrary: c pc k)
  case (Suc fuel)
  obtain b where b: "cr_buffer c = Some b" using Suc.prems(2) by auto
  note rd = ChanReader_Read_fit [OF Suc.prems(1) copy_buffer_pos(1), of pick]
  show ?case
  proof (cases "queue (cr_input c)")
    case Nil
    with b rd show ?thesis by (auto simp: copy_write_def)
  next
    case (Cons p ps)
    let ?c = "c\<lparr>cr_buffer := Some [], cr_input := (cr_input c)\<lparr>queue := ps\<rparr>\<rparr>"
    let ?pc = "if Data p = [] then pc else pc\<lparr>pc_sent := pc_sent pc @ [(a, Data p)]\<rparr>"
    have r: "ChanReader_Read pick copy_buffer c = Returns (Data p) None ?c" using rd b Cons by simp
    have len: "length (Data p) \<le> copy_buffer" using Suc.prems(1) Cons by (simp add: reader_fit_def)
    then obtain n where w: "copy_write (UDPWriter_Write a) (Data p) pc = (?pc, n, None)"
      using Suc.prems(3) by (cases "Data p = []")
        (auto simp: copy_write_def UDPWriter_Write_def WriteTo_def copy_buffer_def)
    have i: "reader_fit copy_buffer ?c" "cr_buffer ?c \<noteq> None" "pc_open ?pc" "length (queue (cr_input ?c)) + 1 < fuel"
      using Suc.prems Cons by (auto simp: reader_fit_def)
    from Suc.IH [OF i, of "k + n"] r w Cons show ?thesis by (auto split: if_splits)
  qed
qed simp

definition two_datagrams :: UDPReader where
  "two_datagrams = \<lparr>incoming = \<lparr>queue = [[1, 2], [], [3]], capacity = 1000, shut = False\<rparr>\<rparr>"


definition two_chunks :: ChanReader where
  "two_chunks = NewChanReader \<lparr>queue = [\<lparr>Data = [1, 2], Timestamp = 5\<rparr>, \<lparr>Data = [3], Timestamp = 6\<rparr>],
     capacity = 0, shut = True\<rparr>"

definition open_conn :: packet_conn where
  "open_conn = \<lparr>pc_local = ''127.0.0.1:1'', pc_open = True, pc_sent = []\<rparr>"

theorem chunks_become_datagrams_witness:
  "\<exists>n c'. io_copy (ChanReader_Read False) (UDPWriter_Write ''c'') copy_buffer 4 0 two_chunks open_conn
    = CopyEnds None c' (open_conn\<lparr>pc_sent := [(''c'', [1, 2]), (''c'', [3])]\<rparr>) n \<and> queue (cr_input c') = []"
  using chunks_become_datagrams [of two_chunks open_conn 4 False "''c''" 0]
  by (simp add: two_chunks_def open_conn_def reader_fit_def NewChanReader_def make_chan_def copy_buffer_def)

end
