(* ===== verification/Proxy.thy ===== *)
theory Proxy
  imports CollectionRun Datagram
begin

text \<open>
  A proxy (\<open>proxy.go\<close>): its server loop hands the datagrams of each client to the reader of
  that client, and starts the two links of a client it has not seen before; it is started,
  stopped and updated through the API while its links run.
\<close>

subsection \<open>State\<close>

text \<open>
  The operating system as the proxy sees it: what \<open>net.ListenPacket\<close> returns for an address
  (the text of an error, or the address bound), whether an address resolves, and whether
  \<open>net.DialUDP\<close> succeeds.
\<close>

record net =
  listen_packet :: "string \<Rightarrow> string + string"
  resolve_udp :: "string \<Rightarrow> string option"
  dial_udp :: "string \<Rightarrow> bool"

datatype conn_kind = UpstreamConn | ListenerConn

record connection =
  cn_kind :: conn_kind
  cn_open :: bool

text \<open>
  Where the goroutine of \<open>server\<close> stands: in \<open>ReadFrom\<close>, blocked in the send to the reader of
  a client, or about to start the links of a new client.
\<close>

datatype server_pc =
    NotRunning
  | Reading
  | Handing string
  | Starting "(string \<times> direction) list"

text \<open>
  \<open>px_stopping\<close>: a \<open>stop\<close> waits for the server goroutine to end. \<open>px_arrived\<close> logs the datagrams
  handed over, with their clients.
\<close>

record Proxy =
  px_Name :: string
  px_Listen :: string
  px_Upstream :: string
  px_Enabled :: bool
  px_listener :: "packet_conn option"
  px_server :: server_pc
  px_stopping :: bool
  px_connections :: "(string \<times> connection) list"
  px_Toxics :: ToxicCollection
  px_portToClient :: "(string \<times> UDPReader) list"
  px_arrived :: "(string \<times> byte list) list"

definition NewProxy :: "string \<Rightarrow> string \<Rightarrow> string \<Rightarrow> Proxy" where
  "NewProxy name listen upstream =
     \<lparr>px_Name = name, px_Listen = listen, px_Upstream = upstream, px_Enabled = False,
      px_listener = None, px_server = NotRunning, px_stopping = False, px_connections = [],
      px_Toxics = NewToxicCollection, px_portToClient = [], px_arrived = []\<rparr>"

subsection \<open>Starting, stopping and updating\<close>

definition ErrProxyAlreadyStarted :: go_error where
  "ErrProxyAlreadyStarted = Sentinel ''Proxy already started''"

text \<open>\<open>listen\<close>, up to the answer on the channel \<open>started\<close>.\<close>

definition proxy_listen :: "net \<Rightarrow> Proxy \<Rightarrow> go_error option \<times> Proxy" where
  "proxy_listen nt p = (case listen_packet nt (px_Listen p) of
       Inl e \<Rightarrow> (Some (Other e), p\<lparr>px_listener := None\<rparr>)
     | Inr addr \<Rightarrow> (None, p\<lparr>px_listener := Some \<lparr>pc_local = addr, pc_open = True, pc_sent = []\<rparr>,
                            px_Listen := addr\<rparr>))"

definition proxy_start :: "net \<Rightarrow> Proxy \<Rightarrow> go_error option \<times> Proxy" where
  "proxy_start nt p =
     (if px_Enabled p then (Some ErrProxyAlreadyStarted, p)
      else (case proxy_listen nt p of
          (None, p') \<Rightarrow> (None, p'\<lparr>px_server := Reading, px_Enabled := True\<rparr>)
        | (Some e, p') \<Rightarrow> (Some e, p'\<lparr>px_Enabled := False\<rparr>)))"

definition close_listener :: "Proxy \<Rightarrow> Proxy" where
  "close_listener p = p\<lparr>px_listener := map_option (\<lambda>c. c\<lparr>pc_open := False\<rparr>) (px_listener p)\<rparr>"

definition close_connections :: "Proxy \<Rightarrow> Proxy" where
  "close_connections p = p\<lparr>px_connections := map (\<lambda>(n, c). (n, c\<lparr>cn_open := False\<rparr>)) (px_connections p)\<rparr>"

text \<open>\<open>stop\<close> as a whole, when the server goroutine can end.\<close>

definition proxy_stop :: "Proxy \<Rightarrow> Proxy" where
  "proxy_stop p =
     (if px_Enabled p then close_connections ((close_listener (p\<lparr>px_Enabled := False\<rparr>))\<lparr>px_server := NotRunning\<rparr>)
      else p)"

definition Proxy_Update :: "net \<Rightarrow> Proxy \<Rightarrow> Proxy \<Rightarrow> go_error option \<times> Proxy" where
  "Proxy_Update nt input p =
     (let p1 = (if px_Listen input \<noteq> px_Listen p \<or> px_Upstream input \<noteq> px_Upstream p
                then (proxy_stop p)\<lparr>px_Listen := px_Listen input, px_Upstream := px_Upstream input\<rparr>
                else p)
      in if px_Enabled input \<noteq> px_Enabled p1
         then (if px_Enabled input then proxy_start nt p1 else (None, proxy_stop p1))
         else (None, p1))"

definition RemoveConnection :: "string \<Rightarrow> Proxy \<Rightarrow> Proxy" where
  "RemoveConnection name p = p\<lparr>px_connections := AList.delete name (px_connections p)\<rparr>"

subsection \<open>The server loop\<close>

definition up_name :: "string \<Rightarrow> string" where
  "up_name addr = addr @ ''upstream''"

definition down_name :: "string \<Rightarrow> string" where
  "down_name addr = addr @ ''downstream''"

text \<open>A datagram for a reader: the server is blocked while the channel is full.\<close>

definition hand_over :: "string \<Rightarrow> byte list \<Rightarrow> UDPReader \<Rightarrow> Proxy \<Rightarrow> Proxy outcome" where
  "hand_over addr d u p = (case chan_send d (incoming u) of
       None \<Rightarrow> Crash
     | Some ch \<Rightarrow> Fine (p\<lparr>px_portToClient := AList.update addr (u\<lparr>incoming := ch\<rparr>) (px_portToClient p),
          px_arrived := px_arrived p @ [(addr, d)],
          px_server := (if settled ch then Reading else Handing addr)\<rparr>))"

text \<open>The part of the loop after the reader of a new client has been made.\<close>

definition connect_client :: "net \<Rightarrow> string \<Rightarrow> Proxy \<Rightarrow> Proxy" where
  "connect_client nt addr p = (case resolve_udp nt (px_Upstream p) of
       None \<Rightarrow> p
     | Some a \<Rightarrow>
         if dial_udp nt a
         then p\<lparr>px_connections := AList.update (down_name addr) \<lparr>cn_kind = ListenerConn, cn_open = True\<rparr>
                  (AList.update (up_name addr) \<lparr>cn_kind = UpstreamConn, cn_open = True\<rparr> (px_connections p)),
                px_server := Starting [(up_name addr, Upstream), (down_name addr, Downstream)]\<rparr>
         else p)"

text \<open>One round of the loop, for a datagram \<open>buffer\<close> that \<open>ReadFrom\<close> has returned.\<close>

definition server_round :: "net \<Rightarrow> string \<Rightarrow> byte list \<Rightarrow> Proxy \<Rightarrow> Proxy outcome" where
  "server_round nt addr buffer p =
     (let dst = take 65535 buffer
      in case map_of (px_portToClient p) addr of
           Some u \<Rightarrow> hand_over addr dst u p
         | None \<Rightarrow> (case hand_over addr dst \<lparr>incoming = make_chan 1000\<rparr> p of
               Crash \<Rightarrow> Crash
             | Fine p' \<Rightarrow> Fine (connect_client nt addr p')))"

subsection \<open>Steps\<close>

datatype proxy_event =
    PDatagram string "byte list"
  | PHanded
  | PStartLink "nat \<Rightarrow> rat"
  | PRead string int
  | PLink string link_act
  | PRemoveLink string
  | PRequest coll_event
  | PStart
  | PStopBegin
  | PServerFails
  | PServerExit
  | PStopEnd

fun reads_source :: "link_act \<Rightarrow> bool" where
  "reads_source (ReadChunk bs tm) = True"
| "reads_source ReadEnd = True"
| "reads_source _ = False"

fun is_request :: "coll_event \<Rightarrow> bool" where
  "is_request (CLink n a) = False"
| "is_request (CStartLink n d ds) = False"
| "is_request (CRemoveLink n) = False"
| "is_request _ = True"

definition on_toxics :: "coll_event \<Rightarrow> Proxy \<Rightarrow> Proxy outcome option" where
  "on_toxics e p = map_option (\<lambda>r. case r of Crash \<Rightarrow> Crash | Fine c \<Rightarrow> Fine (p\<lparr>px_Toxics := c\<rparr>))
     (coll_step e (px_Toxics p))"

text \<open>
  One step of one goroutine. A link towards the upstream reads from the reader of its client
  (\<open>PRead\<close>); its source never ends. \<open>PServerFails\<close>: \<open>ReadFrom\<close> has failed by itself and the
  server goroutine returns. A link back to the client reads from the socket of
  the upstream, whose datagrams are cut to the buffer as well, and which can fail at any time.
  A link is not followed any further once it has removed itself.
\<close>

fun proxy_step :: "net \<Rightarrow> proxy_event \<Rightarrow> Proxy \<Rightarrow> Proxy outcome option" where
  "proxy_step nt (PDatagram addr d) p =
     (if px_server p = Reading \<and> \<not> px_stopping p then Some (server_round nt addr d p) else None)"
| "proxy_step nt PHanded p = (case px_server p of
       Handing addr \<Rightarrow> (case map_of (px_portToClient p) addr of
           Some u \<Rightarrow> if settled (incoming u) then Some (Fine (p\<lparr>px_server := Reading\<rparr>)) else None
         | None \<Rightarrow> None)
     | _ \<Rightarrow> None)"
| "proxy_step nt (PStartLink ds) p = (case px_server p of
       Starting ((n, dir) # rest) \<Rightarrow>
         on_toxics (CStartLink n dir ds) (p\<lparr>px_server := (if rest = [] then Reading else Starting rest)\<rparr>)
     | _ \<Rightarrow> None)"
| "proxy_step nt (PRead addr tm) p =
     (case (map_of (px_portToClient p) addr, map_of (coll_links (px_Toxics p)) (up_name addr)) of
        (Some u, Some l) \<Rightarrow>
          (case UDPReader_Read copy_buffer u of
             Returns bs e u' \<Rightarrow>
               (let p' = p\<lparr>px_portToClient := AList.update addr u' (px_portToClient p)\<rparr>
                in if read_state l \<noteq> RReady then None
                   else if bs = [] then Some (Fine p')
                   else on_toxics (CLink (up_name addr) (ReadChunk bs tm)) p')
           | Blocks \<Rightarrow> None)
      | _ \<Rightarrow> None)"
| "proxy_step nt (PLink n a) p = (case map_of (coll_links (px_Toxics p)) n of
       None \<Rightarrow> None
     | Some l \<Rightarrow>
         if reads_source a \<and> (link_direction l = Upstream
              \<or> (case a of ReadChunk bs tm \<Rightarrow> copy_buffer < length bs | _ \<Rightarrow> False)) then None
         else on_toxics (CLink n a) p)"
| "proxy_step nt (PRemoveLink n) p = on_toxics (CRemoveLink n) (RemoveConnection n p)"
| "proxy_step nt (PRequest e) p = (if is_request e then on_toxics e p else None)"
| "proxy_step nt PStart p = (if px_stopping p then None else Some (Fine (snd (proxy_start nt p))))"
| "proxy_step nt PStopBegin p =
     (if px_stopping p then None
      else if px_Enabled p then Some (Fine ((close_listener (p\<lparr>px_Enabled := False\<rparr>))\<lparr>px_stopping := True\<rparr>))
      else Some (Fine p))"
| "proxy_step nt PServerFails p =
     (if px_server p = Reading then Some (Fine (p\<lparr>px_server := NotRunning\<rparr>)) else None)"
| "proxy_step nt PServerExit p =
     (if px_stopping p \<and> px_server p = Reading then Some (Fine (p\<lparr>px_server := NotRunning\<rparr>)) else None)"
| "proxy_step nt PStopEnd p =
     (if px_stopping p \<and> px_server p = NotRunning
      then Some (Fine ((close_connections p)\<lparr>px_stopping := False\<rparr>)) else None)"

fun proxy_run :: "net \<Rightarrow> proxy_event list \<Rightarrow> Proxy \<Rightarrow> Proxy outcome option" where
  "proxy_run nt [] p = Some (Fine p)"
| "proxy_run nt (e # es) p = (case proxy_step nt e p of
       Some (Fine p') \<Rightarrow> proxy_run nt es p'
     | r \<Rightarrow> r)"

lemma proxy_run_append:
  "proxy_run nt es p = Some (Fine p') \<Longrightarrow> proxy_run nt (es @ fs) p = proxy_run nt fs p'"
  by (induction es arbitrary: p) (auto split: option.splits outcome.splits)

text \<open>The steps of a \<open>stop\<close> of a running proxy amount to \<open>proxy_stop\<close>: they disable it, close its
  listener and every connection, and leave nothing running.\<close>

theorem stop_steps:
  assumes "px_Enabled p" and "\<not> px_stopping p" and "px_server p = Reading"
  shows "proxy_run nt [PStopBegin, PServerExit, PStopEnd] p = Some (Fine (proxy_stop p))"
  using assms by (simp add: proxy_stop_def close_listener_def close_connections_def)


subsection \<open>Witnesses\<close>

text \<open>A network on which everything succeeds but binding port 1.\<close>

definition some_net :: net where
  "some_net = \<lparr>listen_packet = (\<lambda>a. if a = ''localhost:1'' then Inl ''permission denied'' else Inr (''127'' @ drop 9 a)),
     resolve_udp = Some, dial_udp = (\<lambda>a. True)\<rparr>"

definition running_proxy :: Proxy where
  "running_proxy = snd (proxy_start some_net (NewProxy ''p'' ''localhost:9'' ''up''))"

theorem stop_steps_witness:
  "proxy_run some_net [PStopBegin, PServerExit, PStopEnd] running_proxy = Some (Fine (proxy_stop running_proxy))"
  by (rule stop_steps) (simp_all add: running_proxy_def proxy_start_def proxy_listen_def some_net_def NewProxy_def)


end
