(* ===== verification/ProxyFlow.thy ===== *)
theory ProxyFlow
  imports Proxy
begin

text \<open>
  What a proxy does with the datagrams of its clients: each client has its own pair of links,
  its upstream link is fed with its datagrams only, in order; and a client whose links could
  not be made is never served again.
\<close>

subsection \<open>Links of a collection carry their own data\<close>

definition flowing :: "ToxicLink \<Rightarrow> bool" where
  "flowing l \<longleftrightarrow> subseq (delivered l @ in_flight l) (taken l)"

lemma advances_flowing: "advances d l l' \<Longrightarrow> flowing l \<Longrightarrow> flowing l'"
proof -
  assume a: "advances d l l'" and f: "flowing l"
  obtain x where t: "taken l' = taken l @ x" and s: "subseq (delivered l' @ in_flight l') (delivered l @ in_flight l @ x)"
    using a unfolding advances_def by blast
  have "subseq ((delivered l @ in_flight l) @ x) (taken l @ x)"
    using f subseq_append_same unfolding flowing_def by blast
  with s t show "flowing l'" unfolding flowing_def by (metis append.assoc subseq_order.trans)
qed

text \<open>Only \<open>ReadChunk\<close> takes bytes from the source.\<close>

definition read_bytes :: "link_act \<Rightarrow> byte list" where
  "read_bytes a = (case a of ReadChunk bs tm \<Rightarrow> bs | _ \<Rightarrow> [])"

lemma on_stub_taken: "on_stub k a v l = Some (Fine l') \<Longrightarrow> taken l' = taken l"
  by (auto simp: on_stub_def split: if_splits option.splits outcome.splits)

lemma op_taken:
  "after_closed l = Fine l' \<Longrightarrow> taken l' = taken l"
  "after_exited chain ds l = Fine l' \<Longrightarrow> taken l' = taken l"
  "stop_round w h l = Some (Fine l') \<Longrightarrow> taken l' = taken l"
  "flush_round w l = Some (Fine l') \<Longrightarrow> taken l' = taken l"
  "finish_remove chain ds w l = Some (Fine l') \<Longrightarrow> taken l' = taken l"
  by (auto simp: after_closed_def after_exited_def stop_round_def flush_round_def finish_remove_def
      set_ctl_def post_on_def Let_def
      split: control.splits outcome.splits received.splits if_splits option.splits)

lemma link_step_taken:
  assumes "link_step chain a l = Some (Fine l')"
  shows "taken l' = taken l @ read_bytes a"
proof (cases a)
  case (StubAct k x v)
  with assms on_stub_taken show ?thesis by (auto simp: read_bytes_def split: if_splits)
next
  case (OpInterrupt v)
  with assms on_stub_taken show ?thesis
    by (auto simp: read_bytes_def map_fine simp del: map_option_eq_Some split: option.splits phase.splits)
next
  case (HelpInterrupt v)
  with assms on_stub_taken show ?thesis
    by (auto simp: read_bytes_def map_fine simp del: map_option_eq_Some split: option.splits helper.splits)
next
  case OpClosed
  with assms op_taken(1) show ?thesis by (auto simp: read_bytes_def split: option.splits phase.splits if_splits)
next
  case (OpExited ds)
  with assms op_taken(2) show ?thesis by (auto simp: read_bytes_def split: option.splits phase.splits if_splits)
next
  case OpRound
  with assms op_taken(3,4) show ?thesis by (auto simp: read_bytes_def split: control.splits bool.splits)
next
  case (OpFinish ds)
  with assms op_taken(5) show ?thesis by (auto simp: read_bytes_def split: control.splits bool.splits)
next
  case (ReadChunk bs tm)
  with assms show ?thesis by (auto simp: read_bytes_def ChanWriter_Write_def split: if_splits option.splits)
next
  case OpTimeout
  with assms show ?thesis by (auto simp: read_bytes_def Let_def split: if_splits control.splits bool.splits)
qed (use assms in \<open>auto simp: read_bytes_def split: if_splits option.splits control.splits helper.splits bool.splits received.splits\<close>)

lemma begin_taken:
  "link_AddToxic w l = Fine l' \<Longrightarrow> taken l' = taken l"
  "link_UpdateToxic w l = Fine l' \<Longrightarrow> taken l' = taken l"
  "link_RemoveToxic w l = Fine l' \<Longrightarrow> taken l' = taken l"
  by (auto simp: link_AddToxic_def link_UpdateToxic_def link_RemoveToxic_def Let_def split: if_splits)

text \<open>The links of a collection seen from its proxy: direction and bytes taken of each.\<close>

definition takes :: "ToxicCollection \<Rightarrow> string \<rightharpoonup> direction \<times> byte list" where
  "takes c n = map_option (\<lambda>l. (link_direction l, taken l)) (map_of (coll_links c) n)"

definition all_flowing :: "ToxicCollection \<Rightarrow> bool" where
  "all_flowing c \<longleftrightarrow> list_all (flowing \<circ> snd) (coll_links c)"

lemma on_links_takes:
  assumes "on_links dir f ls = Fine ls'"
    and "\<And>l l'. l \<in> snd ` set ls \<Longrightarrow> f l = Fine l' \<Longrightarrow> P l l'" and "\<And>l. P l l"
  shows "list_all2 (\<lambda>(n, l) (n', l'). n' = n \<and> P l l') ls ls'"
  using assms(1,2)
proof (induction ls arbitrary: ls')
  case (Cons nl ls)
  obtain m l where nl: "nl = (m, l)" by (cases nl)
  from Cons.prems(1) obtain l1 ls1 where s: "(if link_direction l = dir then f l else Fine l) = Fine l1"
    "on_links dir f ls = Fine ls1" "ls' = (m, l1) # ls1"
    unfolding nl by (auto split: outcome.splits)
  have "P l l1" using s(1) Cons.prems(2) [of l l1] assms(3) nl by (cases "link_direction l = dir") auto
  moreover have "list_all2 (\<lambda>(n, l) (n', l'). n' = n \<and> P l l') ls ls1"
    by (rule Cons.IH [OF s(2) Cons.prems(2)]) simp_all
  ultimately show ?case by (simp add: s(3) nl)
qed simp

definition keeps_data_of :: "ToxicLink \<Rightarrow> ToxicLink \<Rightarrow> bool" where
  "keeps_data_of l l' \<longleftrightarrow> taken l' = taken l \<and> link_direction l' = link_direction l \<and> (flowing l \<longrightarrow> flowing l')"

fun view_of :: "(string \<times> ToxicLink) list \<Rightarrow> string \<rightharpoonup> direction \<times> byte list" where
  "view_of [] = Map.empty"
| "view_of ((n, l) # ls) = (view_of ls)(n \<mapsto> (link_direction l, taken l))"

lemma takes_view: "takes c = view_of (coll_links c)"
proof -
  have "map_option (\<lambda>l. (link_direction l, taken l)) (map_of ls n) = view_of ls n" for ls n
    by (induction ls rule: view_of.induct) simp_all
  then show ?thesis by (simp add: takes_def fun_eq_iff)
qed

lemma kept_view:
  "list_all2 (\<lambda>(n, l) (n', l'). n' = n \<and> keeps_data_of l l') ls ls' \<Longrightarrow>
     view_of ls' = view_of ls \<and> (list_all (flowing \<circ> snd) ls \<longrightarrow> list_all (flowing \<circ> snd) ls')"
proof (induction ls ls' rule: list_all2_induct)
  case (Cons x xs y ys)
  then show ?case by (cases x; cases y) (simp add: keeps_data_of_def)
qed simp

lemma in_delete: "x \<in> set (AList.delete n al) \<Longrightarrow> x \<in> set al"
  by (simp add: AList.delete_eq)

text \<open>What a step of the collection does to this view.\<close>

fun view_after :: "coll_event \<Rightarrow> (string \<rightharpoonup> direction \<times> byte list) \<Rightarrow> (string \<rightharpoonup> direction \<times> byte list)" where
  "view_after (CLink n a) m = m(n := map_option (\<lambda>(d, bs). (d, bs @ read_bytes a)) (m n))"
| "view_after (CStartLink n dir ds) m = m(n \<mapsto> (dir, []))"
| "view_after (CRemoveLink n) m = m(n := None)"
| "view_after _ m = m"

lemma link_step_direction:
  "link_inv l \<Longrightarrow> fits ch l \<Longrightarrow> link_step chain a l = Some (Fine l') \<Longrightarrow> link_direction l' = link_direction l"
  using link_step_fits by blast

lemma start_view:
  assumes ok: "coll_ok c" and st: "start_on_links dir f chain c = Fine c'"
    and f: "\<And>l l'. link_inv l \<Longrightarrow> f l = Fine l' \<Longrightarrow> keeps_data_of l l'"
  shows "takes c' = takes c \<and> (all_flowing c \<longrightarrow> all_flowing c')"
proof -
  obtain ls where ls: "on_links dir f (coll_links c) = Fine ls" and c': "c' = c\<lparr>coll_chains := chain, coll_links := ls\<rparr>"
    using st by (auto simp: start_on_links_def split: outcome.splits)
  have "\<And>l l'. l \<in> snd ` set (coll_links c) \<Longrightarrow> f l = Fine l' \<Longrightarrow> keeps_data_of l l'"
    using f coll_okD(3) [OF ok] by fastforce
  from kept_view [OF on_links_takes [OF ls this]] show ?thesis
    by (simp add: takes_view all_flowing_def c' keeps_data_of_def)
qed

lemma begin_view:
  assumes "link_inv l"
  shows "link_AddToxic w l = Fine l' \<Longrightarrow> keeps_data_of l l'"
    and "link_UpdateToxic w l = Fine l' \<Longrightarrow> keeps_data_of l l'"
    and "link_RemoveToxic w l = Fine l' \<Longrightarrow> keeps_data_of l l'"
proof -
  assume a: "link_AddToxic w l = Fine l'"
  then have "link_direction l' = link_direction l" by (auto simp: link_AddToxic_def Let_def split: if_splits)
  with advances_flowing [OF link_AddToxic_advances [OF assms a]] begin_taken(1) [OF a]
  show "keeps_data_of l l'" by (auto simp: keeps_data_of_def)
qed (auto simp: link_UpdateToxic_def link_RemoveToxic_def keeps_data_of_def flowing_def in_flight_def split: if_splits)

lemma coll_step_view:
  assumes ok: "coll_ok c" and fl: "all_flowing c" and st: "coll_step e c = Some (Fine c')"
  shows "takes c' = view_after e (takes c) \<and> all_flowing c'"
proof (cases e)
  case (CLink n a)
  with st obtain l l' where l: "map_of (coll_links c) n = Some l"
    "link_step (coll_chains c ! unat (link_direction l)) a l = Some (Fine l')"
    and c': "c' = c\<lparr>coll_links := AList.update n l' (coll_links c)\<rparr>"
    by (auto split: option.splits outcome.splits)
  note k = coll_okD(3) [OF ok map_of_SomeD [OF l(1)]]
  have "flowing l" using fl map_of_SomeD [OF l(1)] by (force simp: all_flowing_def list_all_iff)
  with advances_flowing [OF link_step_advances [OF conjunct1 [OF k] l(2)]] have "flowing l'" by blast
  then have "all_flowing c'" using fl
    by (auto simp: all_flowing_def list_all_iff c' dest!: in_update [OF coll_okD(2) [OF ok]])
  moreover have "link_direction l' = link_direction l" using link_step_direction [OF _ _ l(2)] k by blast
  ultimately show ?thesis using l link_step_taken [OF l(2)] CLink
    by (auto simp: takes_def c' update_conv' fun_eq_iff)
next
  case (CStartLink n dir ds)
  let ?l = "new_link ds (coll_chains c ! unat dir) dir"
  from CStartLink st have c': "c' = c\<lparr>coll_links := AList.update n ?l (coll_links c)\<rparr>"
    by (auto split: if_splits)
  obtain ss \<sigma> out where m: "make_stubs (coll_chains c ! unat dir) (\<lambda>_. make_chan 0) 0 = (ss, \<sigma>, out)"
    by (metis prod_cases3)
  have t: "taken ?l = []" "delivered ?l = []" "link_direction ?l = dir"
    using new_link_fields(8,9) [OF m, of ds dir] by (simp_all add: new_link_def link_Start_def NewToxicLink_def Let_def split_beta)
  then have "flowing ?l" by (simp add: flowing_def new_link_in_flight)
  then have "all_flowing c'" using fl
    by (auto simp: all_flowing_def list_all_iff c' dest!: in_update [OF coll_okD(2) [OF ok]])
  with t CStartLink show ?thesis by (auto simp: takes_def c' update_conv' fun_eq_iff)
next
  case (CRemoveLink n)
  with st have "c' = c\<lparr>coll_links := AList.delete n (coll_links c)\<rparr>" by (auto split: option.splits if_splits)
  with CRemoveLink fl show ?thesis
    by (auto simp: takes_def all_flowing_def list_all_iff AList.delete_conv' fun_eq_iff dest!: in_delete)
next
  case (CAddToxic w)
  with st obtain r chain where a: "AddToxic w (coll_chains c) = Fine (r, chain)"
    by (auto split: if_splits outcome.splits)
  show ?thesis
  proof (cases r)
    case (Inl er)
    with st a CAddToxic fl show ?thesis by (auto split: if_splits)
  next
    case (Inr w')
    with st a CAddToxic have "start_on_links (tw_Direction w') (link_AddToxic w') chain c = Fine c'"
      by (auto split: if_splits)
    from start_view [OF ok this begin_view(1)] fl CAddToxic show ?thesis by simp
  qed
next
  case (CUpdateToxicJson m n body)
  obtain r chain where u: "UpdateToxicJson m n body (coll_chains c) = (r, chain)" by (metis surj_pair)
  show ?thesis
  proof (cases r)
    case (Inl er)
    with st u CUpdateToxicJson fl show ?thesis by (auto simp: takes_def all_flowing_def split: if_splits)
  next
    case (Inr w)
    with st u CUpdateToxicJson have "start_on_links (tw_Direction w) (link_UpdateToxic w) chain c = Fine c'"
      by (auto split: if_splits)
    from start_view [OF ok this begin_view(2)] fl CUpdateToxicJson show ?thesis by simp
  qed
next
  case (CRemoveToxic n)
  with st fl start_view [OF ok _ begin_view(3)] show ?thesis
    by (auto simp: chainRemoveToxic_def split: if_splits option.splits)
next
  case CResetToxics
  with st fl show ?thesis by (auto simp: takes_def all_flowing_def split: if_splits)
next
  case CResetNext
  show ?thesis
  proof (cases "next_reset (coll_chains c)")
    case None
    with st fl CResetNext show ?thesis by (auto simp: takes_def all_flowing_def split: if_splits)
  next
    case (Some w)
    with st fl CResetNext start_view [OF ok _ begin_view(3)] show ?thesis
      by (auto simp: chainRemoveToxic_def split: if_splits)
  qed
qed

subsection \<open>The invariant of a proxy\<close>

text \<open>The bytes that the datagrams of a client bring into its link, and those not yet read.\<close>

definition datagrams_of :: "string \<Rightarrow> (string \<times> byte list) list \<Rightarrow> byte list" where
  "datagrams_of addr ds = concat (map (\<lambda>(a, d). if a = addr then take copy_buffer d else []) ds)"

definition unread :: "UDPReader \<Rightarrow> byte list" where
  "unread u = concat (map (take copy_buffer) (queue (incoming u)))"

lemma datagrams_of_append [simp]:
  "datagrams_of addr (ds @ [(a, d)]) = datagrams_of addr ds @ (if a = addr then take copy_buffer d else [])"
  by (simp add: datagrams_of_def)

lemma names_apart [simp]:
  "up_name a = up_name b \<longleftrightarrow> a = b" "down_name a = down_name b \<longleftrightarrow> a = b"
  "up_name a \<noteq> down_name b" "down_name a \<noteq> up_name b"
proof -
  have n: "a @ ''upstream'' \<noteq> b @ ''downstream''" for a b
  proof
    assume "a @ ''upstream'' = b @ ''downstream''"
    then have "rev (a @ ''upstream'') = rev (b @ ''downstream'')" by (rule arg_cong)
    then show False by simp
  qed
  show "up_name a \<noteq> down_name b" unfolding up_name_def down_name_def by (rule n)
  show "down_name a \<noteq> up_name b" unfolding up_name_def down_name_def by (rule n [symmetric])
qed (simp_all add: up_name_def down_name_def)

text \<open>A link (or one about to be started) belongs to a client, and has taken what that client sent.\<close>

definition belongs :: "Proxy \<Rightarrow> string \<Rightarrow> direction \<Rightarrow> byte list \<Rightarrow> bool" where
  "belongs p n d bs \<longleftrightarrow>
     (d = Upstream \<and> (\<exists>addr u. n = up_name addr \<and> map_of (px_portToClient p) addr = Some u
        \<and> bs @ unread u = datagrams_of addr (px_arrived p)))
     \<or> (d = Downstream \<and> (\<exists>addr. n = down_name addr))"

fun todo_of :: "server_pc \<Rightarrow> (string \<times> direction) list" where
  "todo_of (Starting todo) = todo"
| "todo_of _ = []"

definition readers_ok :: "Proxy \<Rightarrow> bool" where
  "readers_ok p \<longleftrightarrow>
     (\<forall>addr u. map_of (px_portToClient p) addr = Some u \<longrightarrow> \<not> shut (incoming u))
     \<and> (\<forall>addr. map_of (px_portToClient p) addr = None \<longrightarrow> datagrams_of addr (px_arrived p) = [])"

definition links_ok :: "Proxy \<Rightarrow> bool" where
  "links_ok p \<longleftrightarrow>
     (\<forall>n d bs. takes (px_Toxics p) n = Some (d, bs) \<longrightarrow> belongs p n d bs)
     \<and> (\<forall>(n, d) \<in> set (todo_of (px_server p)). belongs p n d [] \<and> (d = Upstream \<longrightarrow> takes (px_Toxics p) n = None))
     \<and> distinct (map fst (todo_of (px_server p)))"

definition proxy_ok :: "Proxy \<Rightarrow> bool" where
  "proxy_ok p \<longleftrightarrow> coll_ok (px_Toxics p) \<and> all_flowing (px_Toxics p) \<and> readers_ok p \<and> links_ok p
     \<and> (px_server p \<noteq> NotRunning \<longrightarrow> px_Enabled p \<or> px_stopping p)
     \<and> (px_stopping p \<longrightarrow> \<not> px_Enabled p)"

lemma proxy_okD:
  assumes "proxy_ok p"
  shows "coll_ok (px_Toxics p)" and "all_flowing (px_Toxics p)" and "readers_ok p" and "links_ok p"
    and "px_server p \<noteq> NotRunning \<Longrightarrow> px_Enabled p \<or> px_stopping p"
    and "px_stopping p \<Longrightarrow> \<not> px_Enabled p"
  using assms by (auto simp: proxy_ok_def)

lemma on_toxics_Fine:
  "on_toxics e p = Some (Fine p') \<Longrightarrow> \<exists>c. coll_step e (px_Toxics p) = Some (Fine c) \<and> p' = p\<lparr>px_Toxics := c\<rparr>"
  by (cases "coll_step e (px_Toxics p)") (auto simp: on_toxics_def split: outcome.splits)

lemma toxics_moved:
  assumes "coll_ok (px_Toxics p)" "all_flowing (px_Toxics p)" and "coll_step e (px_Toxics p) = Some (Fine c)"
  shows "coll_ok c" and "all_flowing c" and "takes c = view_after e (takes (px_Toxics p))"
  using coll_step_ok [OF assms(1,3)] coll_step_view [OF assms] by auto

lemma belongs_frame:
  "px_portToClient p' = px_portToClient p \<Longrightarrow> px_arrived p' = px_arrived p \<Longrightarrow> belongs p' = belongs p"
  by (simp add: belongs_def fun_eq_iff)

lemma upstream_not_downstream [simp]: "Upstream \<noteq> Downstream" "Downstream \<noteq> Upstream"
  by (simp_all add: Upstream_def Downstream_def)

text \<open>A datagram for a reader: what the client has sent and what is unread grow together.\<close>

lemma hand_over_ok:
  assumes ok: "proxy_ok p" and r: "px_server p = Reading"
    and u: "map_of (px_portToClient p) addr = Some u \<or> (map_of (px_portToClient p) addr = None \<and> u = \<lparr>incoming = make_chan 1000\<rparr>)"
    and h: "hand_over addr d u p = Fine p'"
  shows "proxy_ok p'" and "px_Toxics p' = px_Toxics p" and "todo_of (px_server p') = []"
    and "map_of (px_portToClient p') = (map_of (px_portToClient p)) (addr \<mapsto> u\<lparr>incoming := (incoming u)\<lparr>queue := queue (incoming u) @ [d]\<rparr>\<rparr>)"
    and "px_arrived p' = px_arrived p @ [(addr, d)]"
    and "px_Enabled p' = px_Enabled p" and "px_stopping p' = px_stopping p"
proof -
  have ns: "\<not> shut (incoming u)"
    using u proxy_okD(3) [OF ok] by (auto simp: readers_ok_def make_chan_def)
  let ?ch = "(incoming u)\<lparr>queue := queue (incoming u) @ [d]\<rparr>"
  have p': "p' = p\<lparr>px_portToClient := AList.update addr (u\<lparr>incoming := ?ch\<rparr>) (px_portToClient p),
      px_arrived := px_arrived p @ [(addr, d)], px_server := (if settled ?ch then Reading else Handing addr)\<rparr>"
    using h ns by (simp add: hand_over_def chan_send_def)
  show t: "px_Toxics p' = px_Toxics p" and td: "todo_of (px_server p') = []"
    and "px_arrived p' = px_arrived p @ [(addr, d)]"
    and "px_Enabled p' = px_Enabled p" "px_stopping p' = px_stopping p"
    by (simp_all add: p')
  show m: "map_of (px_portToClient p') = (map_of (px_portToClient p)) (addr \<mapsto> u\<lparr>incoming := ?ch\<rparr>)"
    by (simp add: p' update_conv')
  have b: "belongs p' n dir bs" if b: "belongs p n dir bs" for n dir bs
  proof (cases "dir = Upstream")
    case True
    with b obtain a v where a: "n = up_name a" "map_of (px_portToClient p) a = Some v"
      "bs @ unread v = datagrams_of a (px_arrived p)" by (auto simp: belongs_def)
    have "bs @ unread (u\<lparr>incoming := ?ch\<rparr>) = datagrams_of a (px_arrived p) @ take copy_buffer d" if "a = addr"
      using that a u by (simp add: unread_def flip: append_assoc)
    with a True m p' show ?thesis by (cases "a = addr") (auto simp: belongs_def)
  qed (use b in \<open>auto simp: belongs_def\<close>)
  have "readers_ok p'"
    using proxy_okD(3) [OF ok] ns m p' by (auto simp: readers_ok_def split: if_splits)
  moreover have "links_ok p'" using proxy_okD(4) [OF ok] b t td by (auto simp: links_ok_def)
  ultimately show "proxy_ok p'"
    using proxy_okD(1,2,5,6) [OF ok] r t by (auto simp: proxy_ok_def p')
qed

lemma server_round_ok:
  assumes ok: "proxy_ok p" and r: "px_server p = Reading" and st: "server_round nt addr d p = Fine p'"
  shows "proxy_ok p'"
proof (cases "map_of (px_portToClient p) addr")
  case (Some u)
  with st have "hand_over addr (take 65535 d) u p = Fine p'" by (simp add: server_round_def)
  from hand_over_ok(1) [OF ok r _ this] Some show ?thesis by blast
next
  case None
  let ?u = "\<lparr>incoming = make_chan 1000\<rparr> :: UDPReader"
  from None st obtain p1 where h: "hand_over addr (take 65535 d) ?u p = Fine p1" and p': "p' = connect_client nt addr p1"
    by (auto simp: server_round_def Let_def split: outcome.splits)
  note k = hand_over_ok [OF ok r disjI2 [OF conjI [OF None refl]] h]
  have d0: "datagrams_of addr (px_arrived p) = []" using proxy_okD(3) [OF ok] None by (simp add: readers_ok_def)
  have nl: "takes (px_Toxics p) (up_name addr) = None"
  proof (rule ccontr)
    assume "takes (px_Toxics p) (up_name addr) \<noteq> None"
    then obtain dir bs where "takes (px_Toxics p) (up_name addr) = Some (dir, bs)" by auto
    then have "belongs p (up_name addr) dir bs" using proxy_okD(4) [OF ok] unfolding links_ok_def by blast
    with None show False by (auto simp: belongs_def)
  qed
  have "belongs p1 (up_name addr) Upstream []" "belongs p1 (down_name addr) Downstream []"
    using k(4,5) d0 by (auto simp: belongs_def unread_def make_chan_def)
  moreover have "px_Enabled p \<or> px_stopping p" using proxy_okD(5) [OF ok] r by simp
  ultimately show ?thesis using k(1-3) nl
    by (auto simp: p' connect_client_def proxy_ok_def links_ok_def readers_ok_def k(6,7)
        belongs_def split: option.splits)
qed

lemma start_link_ok:
  assumes ok: "proxy_ok p" and sv: "px_server p = Starting ((n, dir) # rest)"
    and st: "on_toxics (CStartLink n dir ds) (p\<lparr>px_server := (if rest = [] then Reading else Starting rest)\<rparr>) = Some (Fine p')"
  shows "proxy_ok p'"
proof -
  obtain c where c: "coll_step (CStartLink n dir ds) (px_Toxics p) = Some (Fine c)"
    and p': "p' = p\<lparr>px_server := (if rest = [] then Reading else Starting rest), px_Toxics := c\<rparr>"
    using on_toxics_Fine [OF st] by auto
  note m = toxics_moved [OF proxy_okD(1,2) [OF ok] c]
  have td: "todo_of (px_server p') = rest" by (simp add: p')
  have b: "belongs p' = belongs p" by (rule belongs_frame) (simp_all add: p')
  have lk: "takes (px_Toxics p) x = Some (d, bs) \<Longrightarrow> belongs p x d bs" for x d bs
    using proxy_okD(4) [OF ok] unfolding links_ok_def by blast
  have todo: "belongs p x d [] \<and> (d = Upstream \<longrightarrow> takes (px_Toxics p) x = None)" if "(x, d) \<in> set ((n, dir) # rest)" for x d
    using proxy_okD(4) [OF ok] that unfolding links_ok_def sv by auto
  have dist: "distinct (map fst ((n, dir) # rest))" using proxy_okD(4) [OF ok] unfolding links_ok_def sv by simp
  have t: "takes (px_Toxics p') = (takes (px_Toxics p)) (n \<mapsto> (dir, []))" using m(3) by (simp add: p')
  have "links_ok p'" unfolding links_ok_def td b t
  proof (intro conjI allI impI ballI)
    fix x d bs assume "((takes (px_Toxics p)) (n \<mapsto> (dir, []))) x = Some (d, bs)"
    then show "belongs p x d bs" using todo [of n dir] lk by (auto split: if_splits)
  next
    fix z assume z: "z \<in> set rest"
    then have "fst z \<noteq> n" using dist by force
    with z todo [of "fst z" "snd z"]
    show "case z of (x, d) \<Rightarrow> belongs p x d [] \<and> (d = Upstream \<longrightarrow> ((takes (px_Toxics p)) (n \<mapsto> (dir, []))) x = None)"
      by (simp add: split_beta)
  qed (use dist in simp)
  moreover have "readers_ok p'" using proxy_okD(3) [OF ok] by (simp add: readers_ok_def p')
  ultimately show ?thesis using m(1,2) proxy_okD(5,6) [OF ok] sv by (auto simp: proxy_ok_def p')
qed

text \<open>A step that leaves readers, log and server alone.\<close>

lemma toxics_step_ok:
  assumes ok: "proxy_ok p" and st: "on_toxics e p = Some (Fine p')"
    and sub: "\<And>n d bs. view_after e (takes (px_Toxics p)) n = Some (d, bs) \<Longrightarrow>
      \<exists>bs'. takes (px_Toxics p) n = Some (d, bs') \<and> (d = Upstream \<longrightarrow> bs = bs')"
  shows "proxy_ok p'"
proof -
  obtain c where c: "coll_step e (px_Toxics p) = Some (Fine c)" and p': "p' = p\<lparr>px_Toxics := c\<rparr>"
    using on_toxics_Fine [OF st] by auto
  note m = toxics_moved [OF proxy_okD(1,2) [OF ok] c]
  have b: "belongs p' = belongs p" by (rule belongs_frame) (simp_all add: p')
  have lk: "takes (px_Toxics p) x = Some (d, bs) \<Longrightarrow> belongs p x d bs" for x d bs
    using proxy_okD(4) [OF ok] unfolding links_ok_def by blast
  have t: "takes (px_Toxics p') = view_after e (takes (px_Toxics p))" using m(3) by (simp add: p')
  have none: "view_after e (takes (px_Toxics p)) n = None" if "takes (px_Toxics p) n = None" for n
    using sub [of n] that by (cases "view_after e (takes (px_Toxics p)) n") auto
  have "links_ok p'" unfolding links_ok_def b t
  proof (intro conjI allI impI ballI)
    fix n d bs assume "view_after e (takes (px_Toxics p)) n = Some (d, bs)"
    from sub [OF this] obtain bs' where k: "takes (px_Toxics p) n = Some (d, bs')" "d = Upstream \<longrightarrow> bs = bs'" by blast
    from lk [OF k(1)] k(2) show "belongs p n d bs" by (auto simp: belongs_def)
  next
    fix z assume "z \<in> set (todo_of (px_server p'))"
    then show "case z of (n, d) \<Rightarrow> belongs p n d [] \<and> (d = Upstream \<longrightarrow> view_after e (takes (px_Toxics p)) n = None)"
      using proxy_okD(4) [OF ok] none by (force simp: links_ok_def p')
  qed (use proxy_okD(4) [OF ok] in \<open>simp add: links_ok_def p'\<close>)
  moreover have "readers_ok p'" using proxy_okD(3) [OF ok] by (simp add: readers_ok_def p')
  ultimately show ?thesis using m(1,2) proxy_okD(5,6) [OF ok] by (auto simp: proxy_ok_def p')
qed

lemma read_ok:
  assumes ok: "proxy_ok p" and st: "proxy_step nt (PRead addr tm) p = Some (Fine p')"
  shows "proxy_ok p'"
proof -
  obtain u l bs e u' where u: "map_of (px_portToClient p) addr = Some u"
    and l: "map_of (coll_links (px_Toxics p)) (up_name addr) = Some l"
    and rd: "UDPReader_Read copy_buffer u = Returns bs e u'"
    and s: "if bs = [] then p' = p\<lparr>px_portToClient := AList.update addr u' (px_portToClient p)\<rparr>
        else on_toxics (CLink (up_name addr) (ReadChunk bs tm))
               (p\<lparr>px_portToClient := AList.update addr u' (px_portToClient p)\<rparr>) = Some (Fine p')"
    using st by (auto simp: Let_def split: option.splits read_result.splits if_splits)
  define p1 where "p1 = p\<lparr>px_portToClient := AList.update addr u' (px_portToClient p)\<rparr>"
  have "\<not> shut (incoming u)" using u proxy_okD(3) [OF ok] by (auto simp: readers_ok_def)
  with rd have un: "unread u = bs @ unread u'" and sh: "\<not> shut (incoming u')"
    by (auto simp: UDPReader_Read_def unread_def chan_recv_def split: list.splits if_splits)
  have lt: "takes (px_Toxics p) (up_name addr) \<noteq> None" using l by (simp add: takes_def)
  have m: "map_of (px_portToClient p1) = (map_of (px_portToClient p)) (addr \<mapsto> u')"
    by (simp add: p1_def update_conv')
  have b: "belongs p1 n d x" if "belongs p n d x" "n \<noteq> up_name addr" for n d x
    using that m by (auto simp: belongs_def p1_def)
  have b1: "belongs p1 (up_name addr) d (x @ bs)" if "belongs p (up_name addr) d x" for d x
    using that u m un by (auto simp: belongs_def p1_def)
  have lk: "takes (px_Toxics p) x = Some (d, y) \<Longrightarrow> belongs p x d y" for x d y
    using proxy_okD(4) [OF ok] unfolding links_ok_def by blast
  have todo: "belongs p1 n d [] \<and> (d = Upstream \<longrightarrow> takes (px_Toxics p) n = None \<and> n \<noteq> up_name addr)"
    if "(n, d) \<in> set (todo_of (px_server p))" for n d
  proof -
    have k: "belongs p n d []" "d = Upstream \<longrightarrow> takes (px_Toxics p) n = None"
      using proxy_okD(4) [OF ok] that unfolding links_ok_def by auto
    then have "n \<noteq> up_name addr" using lt by (cases "d = Upstream") (auto simp: belongs_def)
    with b k show ?thesis by blast
  qed
  have rk: "readers_ok p1" using proxy_okD(3) [OF ok] m sh by (auto simp: readers_ok_def p1_def split: if_splits)
  have finish: "proxy_ok (p1\<lparr>px_Toxics := c\<rparr>)" if c: "coll_ok c" "all_flowing c"
    "takes c = (takes (px_Toxics p)) (up_name addr := map_option (\<lambda>(d, x). (d, x @ bs)) (takes (px_Toxics p) (up_name addr)))" for c
  proof -
    have f: "belongs (p1\<lparr>px_Toxics := c\<rparr>) = belongs p1" by (rule belongs_frame) simp_all
    have "links_ok (p1\<lparr>px_Toxics := c\<rparr>)" unfolding links_ok_def f
    proof (intro conjI allI impI ballI)
      fix n d x assume "takes (px_Toxics (p1\<lparr>px_Toxics := c\<rparr>)) n = Some (d, x)"
      then show "belongs p1 n d x" using c(3) b b1 lk by (auto split: if_splits)
    next
      fix z assume "z \<in> set (todo_of (px_server (p1\<lparr>px_Toxics := c\<rparr>)))"
      then show "case z of (n, d) \<Rightarrow> belongs p1 n d [] \<and> (d = Upstream \<longrightarrow> takes (px_Toxics (p1\<lparr>px_Toxics := c\<rparr>)) n = None)"
        using todo [of "fst z" "snd z"] c(3) by (simp add: split_beta p1_def)
    qed (use proxy_okD(4) [OF ok] in \<open>simp add: links_ok_def p1_def\<close>)
    with c rk proxy_okD(5,6) [OF ok] show ?thesis by (auto simp: proxy_ok_def readers_ok_def p1_def)
  qed
  show ?thesis
  proof (cases "bs = []")
    case True
    have "takes (px_Toxics p) = (takes (px_Toxics p)) (up_name addr := map_option (\<lambda>(d, x). (d, x @ bs)) (takes (px_Toxics p) (up_name addr)))"
      using True by (auto simp: fun_eq_iff split_beta option.map_id0)
    from finish [OF proxy_okD(1,2) [OF ok] this] s True show ?thesis by (simp add: p1_def)
  next
    case False
    with s obtain c where "coll_step (CLink (up_name addr) (ReadChunk bs tm)) (px_Toxics p) = Some (Fine c)"
      "p' = p1\<lparr>px_Toxics := c\<rparr>" using on_toxics_Fine by (force simp: p1_def)
    with finish [of c] toxics_moved [OF proxy_okD(1,2) [OF ok], of _ c] show ?thesis by (simp add: read_bytes_def)
  qed
qed

lemma stop_frame:
  "belongs (close_listener p) = belongs p" "belongs (close_connections p) = belongs p"
  "belongs (RemoveConnection n p) = belongs p"
  "belongs (p\<lparr>px_Enabled := b\<rparr>) = belongs p" "belongs (p\<lparr>px_stopping := b\<rparr>) = belongs p"
  "belongs (p\<lparr>px_server := sv\<rparr>) = belongs p" "belongs (p\<lparr>px_listener := lst\<rparr>) = belongs p"
  "belongs (p\<lparr>px_Listen := a\<rparr>) = belongs p"
  by (rule belongs_frame; simp add: close_listener_def close_connections_def RemoveConnection_def)+

lemma proxy_step_ok:
  assumes ok: "proxy_ok p" and st: "proxy_step nt e p = Some (Fine p')"
  shows "proxy_ok p'"
proof (cases e)
  case (PDatagram addr d)
  with st server_round_ok [OF ok] show ?thesis by (auto split: if_splits)
next
  case PHanded
  with st obtain addr where "px_server p = Handing addr" "p' = p\<lparr>px_server := Reading\<rparr>"
    by (auto split: server_pc.splits option.splits if_splits)
  with ok show ?thesis by (auto simp: proxy_ok_def readers_ok_def links_ok_def stop_frame)
next
  case (PStartLink ds)
  with st start_link_ok [OF ok] show ?thesis by (auto split: server_pc.splits list.splits prod.splits)
next
  case (PRead addr tm)
  with st read_ok [OF ok] show ?thesis by blast
next
  case (PLink n a)
  with st obtain l where l: "map_of (coll_links (px_Toxics p)) n = Some l" "on_toxics (CLink n a) p = Some (Fine p')"
    and g: "\<not> (reads_source a \<and> link_direction l = Upstream)"
    by (auto split: option.splits if_splits)
  have "link_direction l = Upstream \<Longrightarrow> read_bytes a = []" using g by (cases a) (auto simp: read_bytes_def)
  then show ?thesis
    using l(1) by (intro toxics_step_ok [OF ok l(2)]) (auto simp: takes_def split: if_splits)
next
  case (PRemoveLink n)
  with st have s: "on_toxics (CRemoveLink n) (RemoveConnection n p) = Some (Fine p')" by simp
  have "proxy_ok (RemoveConnection n p)"
    using ok by (simp add: proxy_ok_def readers_ok_def links_ok_def stop_frame) (simp add: RemoveConnection_def)
  from toxics_step_ok [OF this s] show ?thesis by (fastforce split: if_splits)
next
  case (PRequest ev)
  with st have s: "on_toxics ev p = Some (Fine p')" "is_request ev" by (auto split: if_splits)
  then show ?thesis by (intro toxics_step_ok [OF ok s(1)]) (cases ev; simp)
next
  case PStart
  with st have p': "p' = snd (proxy_start nt p)" and ns: "\<not> px_stopping p" by (auto split: if_splits)
  show ?thesis
  proof (cases "px_Enabled p")
    case True
    with ok p' show ?thesis by (simp add: proxy_start_def)
  next
    case False
    with proxy_okD(5) [OF ok] ns have "px_server p = NotRunning" by blast
    with False ok ns p' show ?thesis
      by (auto simp: proxy_start_def proxy_listen_def proxy_ok_def readers_ok_def links_ok_def belongs_def
          split: sum.splits)
  qed
next
  case PStopBegin
  with st ok show ?thesis
    by (auto simp: proxy_ok_def readers_ok_def links_ok_def stop_frame close_listener_def split: if_splits)
next
  case PServerFails
  with st ok show ?thesis
    by (auto simp: proxy_ok_def readers_ok_def links_ok_def stop_frame split: if_splits)
next
  case PServerExit
  with st ok show ?thesis
    by (auto simp: proxy_ok_def readers_ok_def links_ok_def stop_frame split: if_splits)
next
  case PStopEnd
  with st have p': "p' = (close_connections p)\<lparr>px_stopping := False\<rparr>" "px_server p = NotRunning" by (auto split: if_splits)
  have "belongs p' = belongs p" unfolding p' by (simp add: stop_frame)
  with p' ok show ?thesis by (auto simp: proxy_ok_def readers_ok_def links_ok_def) (simp_all add: close_connections_def)
qed

lemma proxy_run_ok: "proxy_ok p \<Longrightarrow> proxy_run nt es p = Some (Fine p') \<Longrightarrow> proxy_ok p'"
proof (induction es arbitrary: p)
  case (Cons e es)
  then obtain p1 where "proxy_step nt e p = Some (Fine p1)" "proxy_run nt es p1 = Some (Fine p')"
    by (auto split: option.splits outcome.splits)
  with Cons proxy_step_ok show ?case by blast
qed simp

lemma NewProxy_ok: "proxy_ok (NewProxy name li up)"
  using NewToxicCollection_ok
  by (simp add: NewProxy_def proxy_ok_def readers_ok_def links_ok_def takes_def all_flowing_def
      NewToxicCollection_def datagrams_of_def)

lemma proxy_ok_data:
  assumes ok: "proxy_ok p" and l: "map_of (coll_links (px_Toxics p)) (up_name addr) = Some l"
  shows "subseq (delivered l) (datagrams_of addr (px_arrived p))"
proof -
  have t: "takes (px_Toxics p) (up_name addr) = Some (link_direction l, taken l)"
    using l by (simp add: takes_def)
  then have "belongs p (up_name addr) (link_direction l) (taken l)"
    using proxy_okD(4) [OF ok] unfolding links_ok_def by blast
  then obtain u where "taken l @ unread u = datagrams_of addr (px_arrived p)" by (auto simp: belongs_def)
  then have "prefix (taken l) (datagrams_of addr (px_arrived p))" by (metis prefixI)
  moreover have "flowing l"
    using proxy_okD(2) [OF ok] map_of_SomeD [OF l] by (force simp: all_flowing_def list_all_iff)
  then have "subseq (delivered l) (taken l)"
    unfolding flowing_def using subseq_drop_middle [of "delivered l" "in_flight l" "[]"] by simp
  ultimately show ?thesis using prefix_imp_subseq subseq_order.trans by blast
qed

text \<open>What reaches the upstream over the link of a client is a subsequence of what this client
  has sent, each datagram cut to 32 KiB: no byte of another client, none twice, none out of
  order, whatever is requested of the proxy and however its goroutines interleave.\<close>

theorem client_data_stays_apart:
  assumes "proxy_run nt es (NewProxy name li up) = Some (Fine p)"
    and "map_of (coll_links (px_Toxics p)) (up_name addr) = Some l"
  shows "subseq (delivered l) (datagrams_of addr (px_arrived p))"
  by (rule proxy_ok_data [OF proxy_run_ok [OF NewProxy_ok assms(1)] assms(2)])

subsection \<open>Clients that are never served\<close>

text \<open>The client has a reader, but no link that reads from it, and none is about to be started.\<close>

definition stranded :: "string \<Rightarrow> Proxy \<Rightarrow> bool" where
  "stranded addr p \<longleftrightarrow> map_of (px_portToClient p) addr \<noteq> None
     \<and> takes (px_Toxics p) (up_name addr) = None
     \<and> up_name addr \<notin> fst ` set (todo_of (px_server p))"

lemma toxics_none:
  assumes "proxy_ok p" and "on_toxics e p = Some (Fine p')" and "takes (px_Toxics p) n = None"
    and "\<And>m dir ds. e = CStartLink m dir ds \<Longrightarrow> m \<noteq> n"
  shows "takes (px_Toxics p') n = None \<and> px_portToClient p' = px_portToClient p \<and> px_server p' = px_server p
    \<and> px_arrived p' = px_arrived p \<and> px_stopping p' = px_stopping p \<and> px_Enabled p' = px_Enabled p"
proof -
  obtain c where c: "coll_step e (px_Toxics p) = Some (Fine c)" and p': "p' = p\<lparr>px_Toxics := c\<rparr>"
    using on_toxics_Fine [OF assms(2)] by auto
  have "takes c = view_after e (takes (px_Toxics p))"
    using toxics_moved(3) [OF proxy_okD(1,2) [OF assms(1)] c] .
  then show ?thesis using p' assms(3,4) by (cases e) auto
qed

lemma round_known:
  "server_round nt a d p = Fine p' \<Longrightarrow> map_of (px_portToClient p') a \<noteq> None
     \<and> (\<forall>b. map_of (px_portToClient p) b \<noteq> None \<longrightarrow> map_of (px_portToClient p') b \<noteq> None)
     \<and> px_Toxics p' = px_Toxics p
     \<and> (todo_of (px_server p') = [] \<or> map_of (px_portToClient p) a = None
          \<and> todo_of (px_server p') = [(up_name a, Upstream), (down_name a, Downstream)])"
  by (auto simp: server_round_def Let_def hand_over_def connect_client_def update_conv'
      split: option.splits outcome.splits if_splits)

lemma stranded_step:
  assumes ok: "proxy_ok p" and s: "stranded addr p" and st: "proxy_step nt e p = Some (Fine p')"
  shows "stranded addr p'"
proof (cases e)
  case (PDatagram a d)
  with st have r: "server_round nt a d p = Fine p'" by (auto split: if_splits)
  have "up_name addr \<notin> fst ` set (todo_of (px_server p'))"
    using round_known [OF r] s by (auto simp: stranded_def)
  with round_known [OF r] s show ?thesis by (auto simp: stranded_def)
next
  case (PStartLink ds)
  with st obtain n dir rest where sv: "px_server p = Starting ((n, dir) # rest)"
    and t: "on_toxics (CStartLink n dir ds) (p\<lparr>px_server := (if rest = [] then Reading else Starting rest)\<rparr>) = Some (Fine p')"
    by (auto split: server_pc.splits list.splits prod.splits)
  obtain c where c: "coll_step (CStartLink n dir ds) (px_Toxics p) = Some (Fine c)"
    and p': "p' = p\<lparr>px_server := (if rest = [] then Reading else Starting rest), px_Toxics := c\<rparr>"
    using on_toxics_Fine [OF t] by auto
  have "takes c = (takes (px_Toxics p)) (n \<mapsto> (dir, []))"
    using toxics_moved(3) [OF proxy_okD(1,2) [OF ok] c] by simp
  with s sv show ?thesis by (auto simp: stranded_def p')
next
  case (PRead a tm)
  with st obtain u u' bs where a: "map_of (px_portToClient p) a = Some u" "takes (px_Toxics p) (up_name a) \<noteq> None"
    and t: "p' = p\<lparr>px_portToClient := AList.update a u' (px_portToClient p)\<rparr>
      \<or> on_toxics (CLink (up_name a) (ReadChunk bs tm)) (p\<lparr>px_portToClient := AList.update a u' (px_portToClient p)\<rparr>) = Some (Fine p')"
    by (auto simp: Let_def takes_def split: option.splits read_result.splits if_splits)
  define p1 where "p1 = p\<lparr>px_portToClient := AList.update a u' (px_portToClient p)\<rparr>"
  have s1: "stranded addr p1" using s by (auto simp: stranded_def p1_def update_conv')
  from t show ?thesis
  proof
    assume "on_toxics (CLink (up_name a) (ReadChunk bs tm)) (p\<lparr>px_portToClient := AList.update a u' (px_portToClient p)\<rparr>) = Some (Fine p')"
    then obtain c where c: "coll_step (CLink (up_name a) (ReadChunk bs tm)) (px_Toxics p) = Some (Fine c)"
      and p': "p' = p1\<lparr>px_Toxics := c\<rparr>" using on_toxics_Fine by (force simp: p1_def)
    have "takes c (up_name addr) = None"
      using toxics_moved(3) [OF proxy_okD(1,2) [OF ok] c] s by (auto simp: stranded_def)
    with s1 show ?thesis by (simp add: stranded_def p')
  qed (use s1 in \<open>simp add: p1_def\<close>)
next
  case (PLink n a)
  with st have "on_toxics (CLink n a) p = Some (Fine p')" by (auto split: option.splits if_splits)
  from toxics_none [OF ok this] s show ?thesis by (auto simp: stranded_def)
next
  case (PRemoveLink n)
  with st have t: "on_toxics (CRemoveLink n) (RemoveConnection n p) = Some (Fine p')" by simp
  obtain c where c: "coll_step (CRemoveLink n) (px_Toxics p) = Some (Fine c)"
    and p': "p' = (RemoveConnection n p)\<lparr>px_Toxics := c\<rparr>"
    using on_toxics_Fine [OF t] by (auto simp: RemoveConnection_def)
  have "takes c (up_name addr) = None"
    using toxics_moved(3) [OF proxy_okD(1,2) [OF ok] c] s by (auto simp: stranded_def)
  with s show ?thesis by (simp add: stranded_def p' RemoveConnection_def)
next
  case (PRequest ev)
  with st have t: "on_toxics ev p = Some (Fine p')" "is_request ev" by (auto split: if_splits)
  from toxics_none [OF ok t(1)] t(2) s show ?thesis by (cases ev) (auto simp: stranded_def)
next
  case PStart
  with st s proxy_okD(5) [OF ok] show ?thesis
    by (auto simp: stranded_def proxy_start_def proxy_listen_def split: if_splits sum.splits)
qed (use st s in \<open>auto simp: stranded_def close_listener_def close_connections_def
      split: if_splits server_pc.splits option.splits\<close>)

text \<open>C14: A client for which no link could be started (the upstream did not resolve, or the socket
  could not be opened) is cut off for good: whatever happens later, even when the upstream
  comes back or the proxy is stopped and started again, no link is ever made for it.\<close>

theorem unconnected_client_cut_off:
  assumes "proxy_run nt es (NewProxy name li up) = Some (Fine p)" and "stranded addr p"
    and "proxy_run nt' es' p = Some (Fine p')"
  shows "map_of (px_portToClient p') addr \<noteq> None \<and> map_of (coll_links (px_Toxics p')) (up_name addr) = None"
proof -
  have "proxy_ok q \<Longrightarrow> stranded addr q \<Longrightarrow> proxy_run nt' es' q = Some (Fine p') \<Longrightarrow> stranded addr p'" for q
  proof (induction es' arbitrary: q)
    case (Cons e es')
    then obtain q1 where q: "proxy_step nt' e q = Some (Fine q1)" "proxy_run nt' es' q1 = Some (Fine p')"
      by (auto split: option.splits outcome.splits)
    from Cons.IH [OF proxy_step_ok [OF Cons.prems(1) q(1)] stranded_step [OF Cons.prems(1,2) q(1)] q(2)] show ?case .
  qed simp
  then have "stranded addr p'" using proxy_run_ok [OF NewProxy_ok assms(1)] assms(2,3) by blast
  then show ?thesis by (simp add: stranded_def takes_def)
qed

text \<open>The server goroutine is blocked in a send to the reader of such a client.\<close>

definition blocked_on :: "string \<Rightarrow> Proxy \<Rightarrow> bool" where
  "blocked_on addr p \<longleftrightarrow> px_server p = Handing addr
     \<and> (case map_of (px_portToClient p) addr of None \<Rightarrow> False | Some u \<Rightarrow> \<not> settled (incoming u))"

lemma blocked_step:
  assumes ok: "proxy_ok p" and s: "stranded addr p" and b: "blocked_on addr p"
    and st: "proxy_step nt e p = Some (Fine p')"
  shows "blocked_on addr p' \<and> px_arrived p' = px_arrived p \<and> (px_stopping p \<longrightarrow> px_stopping p')"
proof (cases e)
  case (PRead a tm)
  with st s have "a \<noteq> addr" by (auto simp: stranded_def takes_def split: option.splits)
  with PRead st b show ?thesis
    by (auto simp: Let_def blocked_on_def update_conv' dest!: on_toxics_Fine
        split: option.splits read_result.splits if_splits)
next
  case (PLink n a)
  with st b show ?thesis by (auto simp: blocked_on_def dest!: on_toxics_Fine split: option.splits if_splits)
next
  case (PRequest ev)
  with st b show ?thesis by (auto simp: blocked_on_def dest!: on_toxics_Fine split: option.splits if_splits)
next
  case (PRemoveLink n)
  with st b show ?thesis
    by (auto simp: blocked_on_def RemoveConnection_def dest!: on_toxics_Fine split: option.splits)
next
  case PStart
  with st b proxy_okD(5) [OF ok] show ?thesis
    by (auto simp: blocked_on_def proxy_start_def split: if_splits)
qed (use st b in \<open>auto simp: blocked_on_def close_listener_def split: if_splits option.splits\<close>)


subsection \<open>Witnesses\<close>

definition served_client :: "proxy_event list" where
  "served_client = [PStart, PDatagram ''c'' [7, 8], PStartLink (\<lambda>_. 0), PStartLink (\<lambda>_. 0), PRead ''c'' 0,
     PLink ''cupstream'' (StubAct 0 ARecv idle), PLink ''cupstream'' (StubAct 0 APost idle),
     PLink ''cupstream'' WriteChunk]"

definition delivered_on :: "string \<Rightarrow> Proxy outcome option \<Rightarrow> byte list option" where
  "delivered_on n r = (case r of Some (Fine p) \<Rightarrow> map_option delivered (map_of (coll_links (px_Toxics p)) n) | _ \<Rightarrow> None)"

lemma delivered_on_Some:
  "delivered_on n r = Some bs \<Longrightarrow> \<exists>p l. r = Some (Fine p) \<and> map_of (coll_links (px_Toxics p)) n = Some l \<and> delivered l = bs"
  by (auto simp: delivered_on_def split: option.splits outcome.splits)

lemma new_chains_eq: "new_chains = [[noop_wrapper], [noop_wrapper]]"
  by code_simp

lemmas run_defs = NewProxy_def proxy_start_def proxy_listen_def some_net_def server_round_def Let_def hand_over_def
  connect_client_def on_toxics_def up_name_def down_name_def lock_free_def all_idle_def NewToxicCollection_def
  new_chains_eq new_link_def NewToxicLink_def link_Start_def noop_wrapper_def NewToxicStub_def Run_def
  UDPReader_Read_def chan_recv_def copy_buffer_def ChanWriter_Write_def on_stub_def resume_def idle_def go_defs

lemma served_client_run:
  "delivered_on (up_name ''c'') (proxy_run some_net served_client (NewProxy ''p'' ''localhost:9'' ''up'')) = Some [7, 8]"
  by (simp add: run_defs served_client_def delivered_on_def)

theorem client_data_stays_apart_witness:
  "\<exists>p l. proxy_run some_net served_client (NewProxy ''p'' ''localhost:9'' ''up'') = Some (Fine p)
     \<and> map_of (coll_links (px_Toxics p)) (up_name ''c'') = Some l \<and> delivered l = [7, 8]
     \<and> subseq (delivered l) (datagrams_of ''c'' (px_arrived p))"
  using delivered_on_Some [OF served_client_run] client_data_stays_apart by blast

text \<open>A network on which the upstream does not resolve.\<close>

definition no_upstream :: net where
  "no_upstream = some_net\<lparr>resolve_udp := (\<lambda>a. None)\<rparr>"

definition waiting :: "string \<Rightarrow> nat \<Rightarrow> Proxy \<Rightarrow> bool" where
  "waiting addr n p \<longleftrightarrow> px_server p = Reading \<and> \<not> px_stopping p \<and> px_Toxics p = NewToxicCollection
     \<and> (case map_of (px_portToClient p) addr of None \<Rightarrow> False
        | Some u \<Rightarrow> \<not> shut (incoming u) \<and> capacity (incoming u) = 1000 \<and> length (queue (incoming u)) = n)"

lemma waiting_grows:
  assumes "waiting addr n p" and "n + k \<le> 1000"
  shows "\<exists>p'. proxy_run nt (replicate k (PDatagram addr d)) p = Some (Fine p') \<and> waiting addr (n + k) p'"
  using assms
proof (induction k arbitrary: n p)
  case (Suc k)
  then obtain u where u: "px_server p = Reading" "\<not> px_stopping p" "px_Toxics p = NewToxicCollection"
    "map_of (px_portToClient p) addr = Some u" "\<not> shut (incoming u)" "capacity (incoming u) = 1000"
    "length (queue (incoming u)) = n" by (auto simp: waiting_def split: option.splits)
  with Suc.prems obtain p1 where "proxy_step nt (PDatagram addr d) p = Some (Fine p1)" "waiting addr (Suc n) p1"
    by (auto simp: server_round_def Let_def hand_over_def chan_send_def settled_def waiting_def update_conv')
  with Suc.IH [of "Suc n" p1] Suc.prems show ?case by auto
qed simp

lemma blocked_after:
  obtains p where "proxy_run no_upstream (PStart # replicate 1001 (PDatagram ''c'' [1])) (NewProxy ''p'' ''localhost:9'' ''up'') = Some (Fine p)"
    "stranded ''c'' p" "blocked_on ''c'' p" "\<not> px_stopping p"
proof -
  let ?p0 = "NewProxy ''p'' ''localhost:9'' ''up''" and ?d = "PDatagram ''c'' [1]"
  obtain p1 where p1: "proxy_run no_upstream [PStart, ?d] ?p0 = Some (Fine p1)" "waiting ''c'' 1 p1"
    by (simp add: NewProxy_def proxy_start_def proxy_listen_def no_upstream_def some_net_def server_round_def
        hand_over_def chan_send_def settled_def make_chan_def connect_client_def waiting_def Let_def)
  obtain p2 where p2: "proxy_run no_upstream (replicate 999 ?d) p1 = Some (Fine p2)" "waiting ''c'' 1000 p2"
    using waiting_grows [OF p1(2), of 999] by auto
  then obtain p3 where p3: "proxy_run no_upstream [?d] p2 = Some (Fine p3)" "stranded ''c'' p3" "blocked_on ''c'' p3"
    "\<not> px_stopping p3"
    by (auto simp: server_round_def Let_def hand_over_def chan_send_def settled_def waiting_def update_conv'
        stranded_def blocked_on_def takes_def NewToxicCollection_def split: option.splits)
  have "PStart # replicate 1001 ?d = [PStart, ?d] @ (replicate 999 ?d @ [?d])"
    using replicate_app_Cons_same [of 999 ?d "[]"] by (simp add: numeral_eq_Suc)
  then have "proxy_run no_upstream (PStart # replicate 1001 ?d) ?p0 = Some (Fine p3)"
    using proxy_run_append [OF p1(1)] proxy_run_append [OF p2(1)] p3(1) by metis
  with p3 that show thesis by blast
qed

lemma stop_begins: "\<not> px_stopping p \<Longrightarrow> \<exists>p'. proxy_run nt [PStopBegin] p = Some (Fine p')"
  by (cases "px_Enabled p") simp_all

theorem unconnected_client_cut_off_witness:
  "\<exists>p p'. proxy_run no_upstream (PStart # replicate 1001 (PDatagram ''c'' [1])) (NewProxy ''p'' ''localhost:9'' ''up'') = Some (Fine p)
     \<and> proxy_run some_net [PStopBegin] p = Some (Fine p') \<and> map_of (px_portToClient p') ''c'' \<noteq> None"
proof -
  obtain p where p: "proxy_run no_upstream (PStart # replicate 1001 (PDatagram ''c'' [1])) (NewProxy ''p'' ''localhost:9'' ''up'') = Some (Fine p)"
    "stranded ''c'' p" "\<not> px_stopping p" by (rule blocked_after)
  obtain p' where "proxy_run some_net [PStopBegin] p = Some (Fine p')" using stop_begins [OF p(3)] by blast
  with p unconnected_client_cut_off [OF p(1,2)] show ?thesis by blast
qed


end
