(* ===== verification/CollectionRefine.thy ===== *)
theory CollectionRefine
  imports ProxyFlow
begin

text \<open>
  The collection with its running links (\<open>CollectionRun\<close>, \<open>Proxy\<close>) against the functions on its
  chains (\<open>Collection\<close>): whatever the goroutines do between the requests, the chains are those
  that the requests give when they are executed one after the other, each in one piece.
\<close>

text \<open>A request as a function of the chains; the steps of goroutines leave them alone.\<close>

fun chain_effect :: "coll_event \<Rightarrow> chains \<Rightarrow> chains option" where
  "chain_effect (CAddToxic w) chain = (case AddToxic w chain of Crash \<Rightarrow> None | Fine (r, chain') \<Rightarrow> Some chain')"
| "chain_effect (CUpdateToxicJson tx n body) chain = Some (snd (UpdateToxicJson tx n body chain))"
| "chain_effect (CRemoveToxic n) chain = Some (snd (RemoveToxic n chain))"
| "chain_effect CResetToxics chain = ResetToxics chain"
| "chain_effect _ chain = Some chain"

fun chain_effects :: "coll_event list \<Rightarrow> chains \<Rightarrow> chains option" where
  "chain_effects [] chain = Some chain"
| "chain_effects (e # es) chain = Option.bind (chain_effect e chain) (chain_effects es)"

text \<open>
  The chains as a request sees them that waits for the lock: while a reset is going on, those it
  will leave.
\<close>

definition chains_seen :: "ToxicCollection \<Rightarrow> chains" where
  "chains_seen c = (if resetting c then new_chains else coll_chains c)"

lemma started_chains:
  "start_on_links dir f chain c = Fine c' \<Longrightarrow> coll_chains c' = chain \<and> resetting c' = resetting c"
  by (auto simp: start_on_links_def split: outcome.splits)

text \<open>A reset ends when only the hidden toxics are left.\<close>

lemma reset_complete:
  assumes "chains_ok chain" and "next_reset chain = None"
  shows "chain = new_chains"
proof -
  obtain u d where c: "chain = [u, d]" "line_ok 0 u" "line_ok 1 d" using two_chains [OF assms(1)] .
  have "\<not> 1 < length u" "\<not> 1 < length d"
    using assms(2) c(1) by (auto simp: next_reset_def split: if_splits)
  with c(2,3) have "u = [noop_wrapper]" "d = [noop_wrapper]"
    by (cases u; cases d; auto simp: line_ok_def)+
  then show ?thesis by (simp add: c(1) new_chains_eq)
qed

lemma AddToxic_refused_chains: "AddToxic w chain = Fine (Inl e, chain') \<Longrightarrow> chain' = chain"
  by (auto simp: AddToxic_def Let_def split: if_splits prod.splits)

lemma coll_step_effect:
  assumes ok: "coll_ok c" and st: "coll_step e c = Some (Fine c')"
  shows "chain_effect e (chains_seen c) = Some (chains_seen c')"
proof (cases e)
  case (CAddToxic w)
  with st show ?thesis
    by (auto simp: chains_seen_def lock_free_def split: if_splits outcome.splits sum.splits
        dest: started_chains AddToxic_refused_chains)
next
  case (CUpdateToxicJson tx n body)
  with st show ?thesis
    by (auto simp: chains_seen_def lock_free_def split: if_splits sum.splits prod.splits dest: started_chains)
next
  case (CRemoveToxic n)
  with st show ?thesis
    by (auto simp: chains_seen_def lock_free_def RemoveToxic_def chainRemoveToxic_def
        split: if_splits option.splits dest: started_chains)
next
  case CResetToxics
  with st show ?thesis using ResetToxics_ends [OF coll_okD(1) [OF ok]]
    by (auto simp: chains_seen_def lock_free_def split: if_splits)
next
  case CResetNext
  with st show ?thesis using reset_complete [OF coll_okD(1) [OF ok]]
    by (auto simp: chains_seen_def chainRemoveToxic_def split: if_splits option.splits dest: started_chains)
qed (use st in \<open>auto simp: chains_seen_def split: if_splits option.splits outcome.splits\<close>)

lemma coll_run_effects:
  "coll_ok c \<Longrightarrow> coll_run es c = Some (Fine c') \<Longrightarrow> chain_effects es (chains_seen c) = Some (chains_seen c')"
proof (induction es arbitrary: c)
  case (Cons e es)
  then obtain c1 where s: "coll_step e c = Some (Fine c1)" "coll_run es c1 = Some (Fine c')"
    by (auto split: option.splits outcome.splits)
  with Cons.IH [OF coll_step_ok [OF Cons.prems(1) s(1)]] coll_step_effect [OF Cons.prems(1) s(1)]
  show ?case by simp
qed simp

text \<open>The same for a proxy: only its requests matter, without the rounds of a reset.\<close>

fun user_request :: "coll_event \<Rightarrow> bool" where
  "user_request CResetNext = False"
| "user_request e = is_request e"

fun toxic_requests_of :: "proxy_event list \<Rightarrow> coll_event list" where
  "toxic_requests_of [] = []"
| "toxic_requests_of (PRequest e # es) = (if user_request e then e # toxic_requests_of es else toxic_requests_of es)"
| "toxic_requests_of (_ # es) = toxic_requests_of es"

lemma no_user_request: "is_request e \<Longrightarrow> \<not> user_request e \<Longrightarrow> e = CResetNext"
  by (cases e) simp_all

lemma all_user_requests: "list_all user_request (toxic_requests_of es)"
  by (induction es rule: toxic_requests_of.induct) simp_all

lemma on_toxics_effect:
  assumes "coll_ok (px_Toxics p)" and "on_toxics e p = Some (Fine p')"
  shows "chain_effect e (chains_seen (px_Toxics p)) = Some (chains_seen (px_Toxics p'))"
  using on_toxics_Fine [OF assms(2)] coll_step_effect [OF assms(1)] by auto

lemma same_toxics [simp]:
  "px_Toxics (snd (proxy_start nt p)) = px_Toxics p"
  "px_Toxics (close_listener p) = px_Toxics p" "px_Toxics (close_connections p) = px_Toxics p"
  "px_Toxics (RemoveConnection n p) = px_Toxics p"
  by (simp_all add: proxy_start_def proxy_listen_def close_listener_def close_connections_def
      RemoveConnection_def split: sum.splits)

lemma round_toxics: "server_round nt addr d p = Fine p' \<Longrightarrow> px_Toxics p' = px_Toxics p"
  by (auto simp: server_round_def hand_over_def connect_client_def Let_def split: option.splits outcome.splits)

lemma proxy_step_effect:
  assumes ok: "coll_ok (px_Toxics p)" and st: "proxy_step nt e p = Some (Fine p')"
  shows "chain_effects (toxic_requests_of [e]) (chains_seen (px_Toxics p)) = Some (chains_seen (px_Toxics p'))"
proof (cases e)
  case (PDatagram addr d)
  with st show ?thesis by (auto dest: round_toxics split: if_splits)
next
  case PHanded
  with st show ?thesis by (auto split: server_pc.splits option.splits if_splits)
next
  case (PStartLink ds)
  with st obtain n dir sv where "on_toxics (CStartLink n dir ds) (p\<lparr>px_server := sv\<rparr>) = Some (Fine p')"
    by (auto split: server_pc.splits list.splits prod.splits)
  from on_toxics_effect [OF _ this] ok show ?thesis using PStartLink by simp
next
  case (PRead addr tm)
  with st obtain u' bs where "p' = p\<lparr>px_portToClient := AList.update addr u' (px_portToClient p)\<rparr>
      \<or> on_toxics (CLink (up_name addr) (ReadChunk bs tm))
           (p\<lparr>px_portToClient := AList.update addr u' (px_portToClient p)\<rparr>) = Some (Fine p')"
    by (auto simp: Let_def split: option.splits read_result.splits if_splits)
  with on_toxics_effect [of "p\<lparr>px_portToClient := AList.update addr u' (px_portToClient p)\<rparr>"
      "CLink (up_name addr) (ReadChunk bs tm)" p'] ok
  show ?thesis using PRead by auto
next
  case (PLink n a)
  with st have "on_toxics (CLink n a) p = Some (Fine p')" by (auto split: option.splits if_splits)
  from on_toxics_effect [OF ok this] show ?thesis using PLink by simp
next
  case (PRemoveLink n)
  with st have "on_toxics (CRemoveLink n) (RemoveConnection n p) = Some (Fine p')" by simp
  from on_toxics_effect [OF _ this] ok show ?thesis using PRemoveLink by simp
next
  case (PRequest ev)
  with st have r: "on_toxics ev p = Some (Fine p')" "is_request ev" by (auto split: if_splits)
  from on_toxics_effect [OF ok r(1)] no_user_request [OF r(2)] show ?thesis using PRequest by auto
qed (use st in \<open>auto split: if_splits\<close>)

lemma effects_append:
  "chain_effects (es @ fs) chain = Option.bind (chain_effects es chain) (chain_effects fs)"
  by (induction es arbitrary: chain) (auto simp: Option.bind_assoc intro!: Option.bind_cong)

lemma requests_Cons: "toxic_requests_of (e # es) = toxic_requests_of [e] @ toxic_requests_of es"
  by (cases e) simp_all

lemma requests_append: "toxic_requests_of (es @ fs) = toxic_requests_of es @ toxic_requests_of fs"
  by (induction es rule: toxic_requests_of.induct) simp_all

lemma proxy_run_effects:
  "proxy_ok p \<Longrightarrow> proxy_run nt es p = Some (Fine p') \<Longrightarrow>
     chain_effects (toxic_requests_of es) (chains_seen (px_Toxics p)) = Some (chains_seen (px_Toxics p'))"
proof (induction es arbitrary: p)
  case (Cons e es)
  then obtain p1 where s: "proxy_step nt e p = Some (Fine p1)" "proxy_run nt es p1 = Some (Fine p')"
    by (auto split: option.splits outcome.splits)
  from proxy_step_effect [OF proxy_okD(1) [OF Cons.prems(1)] s(1)]
    Cons.IH [OF proxy_step_ok [OF Cons.prems(1) s(1)] s(2)]
  show ?case by (subst requests_Cons) (simp add: effects_append)
qed simp

lemma interleaving_is_sequential:
  assumes "proxy_run nt es (NewProxy name listen upstream) = Some (Fine p)"
    and "\<not> resetting (px_Toxics p)"
  shows "chain_effects (toxic_requests_of es) new_chains = Some (coll_chains (px_Toxics p))"
  using proxy_run_effects [OF NewProxy_ok assms(1)] assms(2)
  by (simp add: chains_seen_def NewProxy_def NewToxicCollection_def)

subsection \<open>Every sequence of requests can happen\<close>

text \<open>On a proxy without clients no request has to wait for a link.\<close>

definition at_ease :: "Proxy \<Rightarrow> bool" where
  "at_ease p \<longleftrightarrow> coll_links (px_Toxics p) = [] \<and> \<not> resetting (px_Toxics p)"

definition with_chains :: "chains \<Rightarrow> Proxy \<Rightarrow> Proxy" where
  "with_chains chain p = p\<lparr>px_Toxics := (px_Toxics p)\<lparr>coll_chains := chain\<rparr>\<rparr>"

lemma with_chains_simps [simp]:
  "coll_chains (px_Toxics (with_chains chain p)) = chain"
  "coll_links (px_Toxics (with_chains chain p)) = coll_links (px_Toxics p)"
  "resetting (px_Toxics (with_chains chain p)) = resetting (px_Toxics p)"
  "with_chains c2 (with_chains chain p) = with_chains c2 p"
  by (simp_all add: with_chains_def)

lemma reset_rounds:
  assumes "coll_ok (px_Toxics p)" and "coll_links (px_Toxics p) = []" and "resetting (px_Toxics p)"
  shows "\<exists>es. toxic_requests_of es = [] \<and> proxy_run nt es p
     = Some (Fine (p\<lparr>px_Toxics := (px_Toxics p)\<lparr>coll_chains := new_chains, resetting := False\<rparr>\<rparr>))"
  using assms
proof (induction "length (concat (coll_chains (px_Toxics p)))" arbitrary: p rule: less_induct)
  case less
  let ?c = "px_Toxics p"
  note ok = coll_okD(1) [OF less.prems(1)]
  have idle: "all_idle ?c" using less.prems(2) by (simp add: all_idle_def)
  show ?case
  proof (cases "next_reset (coll_chains ?c)")
    case None
    with reset_complete [OF ok] idle less.prems have
      "proxy_run nt [PRequest CResetNext] p
         = Some (Fine (p\<lparr>px_Toxics := ?c\<lparr>coll_chains := new_chains, resetting := False\<rparr>\<rparr>))"
      by (simp add: on_toxics_def)
    then show ?thesis by (intro exI [of _ "[PRequest CResetNext]"]) simp
  next
    case (Some w)
    obtain n where f: "findToxicByName n (coll_chains ?c) = Some w" using next_reset_found [OF ok Some] .
    let ?p = "with_chains (chain_remove w (coll_chains ?c)) p"
    have st: "proxy_step nt (PRequest CResetNext) p = Some (Fine ?p)"
      using idle less.prems Some
      by (simp add: on_toxics_def chainRemoveToxic_def start_on_links_def with_chains_def)
    have ok': "coll_ok (px_Toxics ?p)"
      using coll_step_ok [OF less.prems(1), of CResetNext "px_Toxics ?p"] idle less.prems Some
      by (simp add: chainRemoveToxic_def start_on_links_def with_chains_def)
    have "length (concat (coll_chains (px_Toxics ?p))) < length (concat (coll_chains ?c))"
    proof -
      obtain u d where c: "coll_chains ?c = [u, d]" using two_chains [OF ok] .
      note at = found_at [OF ok f]
      have "unat (tw_Direction w) = 0 \<or> unat (tw_Direction w) = 1" using at(3) less_two by blast
      with at c show ?thesis by (auto simp: chain_remove_def Let_def)
    qed
    from less.hyps [OF this ok'] less.prems obtain es where
      "toxic_requests_of es = []" "proxy_run nt es ?p
         = Some (Fine (?p\<lparr>px_Toxics := (px_Toxics ?p)\<lparr>coll_chains := new_chains, resetting := False\<rparr>\<rparr>))"
      by auto
    with st show ?thesis
      by (intro exI [of _ "PRequest CResetNext # es"]) (simp add: with_chains_def del: proxy_step.simps)
  qed
qed

lemma request_happens:
  assumes ok: "proxy_ok p" and ease: "at_ease p" and u: "user_request e"
    and ef: "chain_effect e (coll_chains (px_Toxics p)) = Some chain"
  shows "\<exists>es. toxic_requests_of es = [e] \<and> proxy_run nt es p = Some (Fine (with_chains chain p))"
proof (cases "e = CResetToxics")
  case True
  let ?c = "px_Toxics p"
  have st: "proxy_step nt (PRequest e) p = Some (Fine (p\<lparr>px_Toxics := ?c\<lparr>resetting := True\<rparr>\<rparr>))"
    using ease True by (simp add: on_toxics_def lock_free_def all_idle_def at_ease_def)
  have "proxy_ok (p\<lparr>px_Toxics := ?c\<lparr>resetting := True\<rparr>\<rparr>)" by (rule proxy_step_ok [OF ok st])
  from reset_rounds [OF proxy_okD(1) [OF this], of nt] ease obtain es where
    es: "toxic_requests_of es = []" "proxy_run nt es (p\<lparr>px_Toxics := ?c\<lparr>resetting := True\<rparr>\<rparr>)
       = Some (Fine (p\<lparr>px_Toxics := ?c\<lparr>coll_chains := new_chains, resetting := False\<rparr>\<rparr>))"
    by (auto simp: at_ease_def)
  have "chain = new_chains" using ef True ResetToxics_ends [OF coll_okD(1) [OF proxy_okD(1) [OF ok]]] by simp
  then have "with_chains chain p = p\<lparr>px_Toxics := ?c\<lparr>coll_chains := new_chains, resetting := False\<rparr>\<rparr>"
    using ease by (cases "px_Toxics p") (simp add: with_chains_def at_ease_def)
  with st es True show ?thesis by (intro exI [of _ "PRequest e # es"]) (simp del: proxy_step.simps)
next
  case False
  let ?c = "px_Toxics p"
  have free: "lock_free ?c" using ease by (simp add: at_ease_def lock_free_def all_idle_def)
  have on: "start_on_links dir f ch ?c = Fine (?c\<lparr>coll_chains := ch\<rparr>)" for dir f ch
    using ease by (simp add: start_on_links_def at_ease_def)
  have same: "?c\<lparr>coll_chains := coll_chains ?c\<rparr> = ?c" by simp
  have "coll_step e ?c = Some (Fine (?c\<lparr>coll_chains := chain\<rparr>))"
    using False u ef free on
    by (cases e) (auto simp: RemoveToxic_def chainRemoveToxic_def dest: AddToxic_refused_chains
        split: outcome.splits sum.splits prod.splits option.splits)
  then have "proxy_run nt [PRequest e] p = Some (Fine (with_chains chain p))"
    using u by (cases e) (simp_all add: on_toxics_def with_chains_def)
  then show ?thesis using u by (intro exI [of _ "[PRequest e]"]) simp
qed

lemma requests_happen:
  "proxy_ok p \<Longrightarrow> at_ease p \<Longrightarrow> list_all user_request rs \<Longrightarrow> chain_effects rs (coll_chains (px_Toxics p)) = Some chain \<Longrightarrow>
     \<exists>es. toxic_requests_of es = rs \<and> proxy_run nt es p = Some (Fine (with_chains chain p))"
proof (induction rs arbitrary: p)
  case Nil
  then show ?case by (intro exI [of _ "[]"]) (simp add: with_chains_def)
next
  case (Cons e rs)
  then obtain chain1 where c1: "chain_effect e (coll_chains (px_Toxics p)) = Some chain1"
    "chain_effects rs chain1 = Some chain" by (auto simp: bind_eq_Some_conv)
  obtain es where es: "toxic_requests_of es = [e]" "proxy_run nt es p = Some (Fine (with_chains chain1 p))"
    using request_happens [OF Cons.prems(1,2) _ c1(1)] Cons.prems(3) by auto
  have "proxy_ok (with_chains chain1 p)" "at_ease (with_chains chain1 p)"
    using proxy_run_ok [OF Cons.prems(1) es(2)] Cons.prems(2) by (simp_all add: at_ease_def)
  from Cons.IH [OF this] Cons.prems(3) c1(2) obtain fs where
    "toxic_requests_of fs = rs" "proxy_run nt fs (with_chains chain1 p) = Some (Fine (with_chains chain p))"
    by auto
  with es proxy_run_append [OF es(2), of fs] requests_append show ?case
    by (intro exI [of _ "es @ fs"]) simp
qed

text \<open>C8: The concurrent proxy and the sequential requests are equivalent. The chains a proxy can have
  after some run in which it got a list of requests, when no reset is going on, are exactly those that
  the list gives when each request is executed in one piece on the chains alone. So nothing that the server
  loop, the links and their stubs do in between makes a difference, and no
  list of requests is ruled out.\<close>

theorem concurrent_equals_sequential:
  "(\<exists>es p. proxy_run nt es (NewProxy name listen upstream) = Some (Fine p) \<and> toxic_requests_of es = rs
      \<and> \<not> resetting (px_Toxics p) \<and> coll_chains (px_Toxics p) = chain)
   \<longleftrightarrow> list_all user_request rs \<and> chain_effects rs new_chains = Some chain"
proof
  assume "list_all user_request rs \<and> chain_effects rs new_chains = Some chain"
  then show "\<exists>es p. proxy_run nt es (NewProxy name listen upstream) = Some (Fine p) \<and> toxic_requests_of es = rs
      \<and> \<not> resetting (px_Toxics p) \<and> coll_chains (px_Toxics p) = chain"
    using requests_happen [OF NewProxy_ok, of name listen upstream rs chain nt]
    by (fastforce simp: at_ease_def NewProxy_def NewToxicCollection_def)
qed (use interleaving_is_sequential all_user_requests in blast)

end
