(* ===== verification/ProxyCollection.thy ===== *)
theory ProxyCollection
  imports Proxy ApiErrors
begin

text \<open>
  The set of proxies (\<open>proxy_collection.go\<close>). Proxies are shared by reference: the collection
  maps a name to the index of a proxy in a heap, and a request that was handed a reference sees
  what later requests do to the proxy. Every operation holds the lock of the collection from
  beginning to end, so it is a function of the state; \<open>Start\<close> and \<open>Stop\<close> are those of
  theory \<open>Proxy\<close>.
\<close>

record ProxyCollection =
  heap :: "Proxy list"
  proxies :: "(string \<times> nat) list"

definition NewProxyCollection :: ProxyCollection where
  "NewProxyCollection = \<lparr>heap = [], proxies = []\<rparr>"

definition alloc_proxy :: "Proxy \<Rightarrow> ProxyCollection \<Rightarrow> nat \<times> ProxyCollection" where
  "alloc_proxy p s = (length (heap s), s\<lparr>heap := heap s @ [p]\<rparr>)"

definition set_proxy :: "nat \<Rightarrow> Proxy \<Rightarrow> ProxyCollection \<Rightarrow> ProxyCollection" where
  "set_proxy r p s = s\<lparr>heap := (heap s)[r := p]\<rparr>"

definition Proxy_Start :: "net \<Rightarrow> nat \<Rightarrow> ProxyCollection \<Rightarrow> go_error option \<times> ProxyCollection" where
  "Proxy_Start nt r s = (case proxy_start nt (heap s ! r) of (e, p) \<Rightarrow> (e, set_proxy r p s))"

definition Proxy_Stop :: "nat \<Rightarrow> ProxyCollection \<Rightarrow> ProxyCollection" where
  "Proxy_Stop r s = set_proxy r (proxy_stop (heap s ! r)) s"

subsection \<open>Operations\<close>

definition enter :: "nat \<Rightarrow> ProxyCollection \<Rightarrow> ProxyCollection" where
  "enter r s = s\<lparr>proxies := AList.update (px_Name (heap s ! r)) r (proxies s)\<rparr>"

definition pc_Add :: "net \<Rightarrow> nat \<Rightarrow> bool \<Rightarrow> ProxyCollection \<Rightarrow> go_error option \<times> ProxyCollection" where
  "pc_Add nt r start s =
     (if map_of (proxies s) (px_Name (heap s ! r)) \<noteq> None then (Some (Api ErrProxyAlreadyExists), s)
      else if start then
        (case Proxy_Start nt r s of
           (Some e, s') \<Rightarrow> (Some e, s')
         | (None, s') \<Rightarrow> (None, enter r s'))
      else (None, enter r s))"

definition AddOrReplace :: "net \<Rightarrow> nat \<Rightarrow> bool \<Rightarrow> ProxyCollection \<Rightarrow> go_error option \<times> ProxyCollection" where
  "AddOrReplace nt r start s =
     (let proxy = heap s ! r;
          go_on = (\<lambda>s1. if start then
              (case Proxy_Start nt r s1 of
                 (Some e, s') \<Rightarrow> (Some e, s')
               | (None, s') \<Rightarrow> (None, enter r s'))
            else (None, enter r s1))
      in case map_of (proxies s) (px_Name proxy) of
           Some x \<Rightarrow>
             if px_Listen (heap s ! x) = px_Listen proxy \<and> px_Upstream (heap s ! x) = px_Upstream proxy
             then (None, s) else go_on (Proxy_Stop x s)
         | None \<Rightarrow> go_on s)"

definition getByName :: "string \<Rightarrow> ProxyCollection \<Rightarrow> ApiError + nat" where
  "getByName name s = (case map_of (proxies s) name of None \<Rightarrow> Inl ErrProxyNotFound | Some r \<Rightarrow> Inr r)"

definition pc_Get :: "string \<Rightarrow> ProxyCollection \<Rightarrow> ApiError + nat" where
  "pc_Get name s = getByName name s"

definition pc_Proxies :: "ProxyCollection \<Rightarrow> (string \<times> nat) list" where
  "pc_Proxies s = proxies s"

definition drop_proxy :: "nat \<Rightarrow> ProxyCollection \<Rightarrow> ProxyCollection" where
  "drop_proxy r s = (let s' = Proxy_Stop r s
     in s'\<lparr>proxies := AList.delete (px_Name (heap s' ! r)) (proxies s')\<rparr>)"

definition pc_Remove :: "string \<Rightarrow> ProxyCollection \<Rightarrow> ApiError option \<times> ProxyCollection" where
  "pc_Remove name s = (case getByName name s of
       Inl e \<Rightarrow> (Some e, s)
     | Inr r \<Rightarrow> (None, drop_proxy r s))"

definition pc_Clear :: "ProxyCollection \<Rightarrow> ProxyCollection" where
  "pc_Clear s = fold (\<lambda>(n, r). drop_proxy r) (proxies s) s"

subsection \<open>Populating from a list\<close>

text \<open>
  The fields of an entry; \<open>Logger\<close>, a pointer to a struct without exported fields, is one of them.
  The pointer \<open>Enabled\<close> is \<open>None\<close> when it is \<open>nil\<close>.
\<close>

record proxy_input =
  in_Name :: string
  in_Listen :: string
  in_Upstream :: string
  in_Enabled :: "bool option"

definition set_logger :: "json \<Rightarrow> bool" where
  "set_logger j = (case j of JNull \<Rightarrow> False | JObj kvs \<Rightarrow> False | _ \<Rightarrow> True)"

definition input_field :: "string \<Rightarrow> json \<Rightarrow> proxy_input \<Rightarrow> proxy_input \<times> bool" where
  "input_field k j i =
     (if key_is k ''name'' then map_prod (\<lambda>s. i\<lparr>in_Name := s\<rparr>) id (set_string j (in_Name i))
      else if key_is k ''listen'' then map_prod (\<lambda>s. i\<lparr>in_Listen := s\<rparr>) id (set_string j (in_Listen i))
      else if key_is k ''upstream'' then map_prod (\<lambda>s. i\<lparr>in_Upstream := s\<rparr>) id (set_string j (in_Upstream i))
      else if key_is k ''logger'' then (i, set_logger j)
      else if key_is k ''enabled'' then
        (case j of
           JNull \<Rightarrow> (i\<lparr>in_Enabled := None\<rparr>, False)
         | JBool b \<Rightarrow> (i\<lparr>in_Enabled := Some b\<rparr>, False)
         | _ \<Rightarrow> (i, True))
      else (i, False))"

definition no_input :: proxy_input where
  "no_input = \<lparr>in_Name = [], in_Listen = [], in_Upstream = [], in_Enabled = None\<rparr>"

definition decode_inputs :: "json \<Rightarrow> proxy_input list \<times> bool" where
  "decode_inputs j = (case j of
       JArr js \<Rightarrow> (map (\<lambda>x. fst (decode_struct input_field x no_input)) js,
                   list_ex (\<lambda>x. snd (decode_struct input_field x no_input)) js)
     | JNull \<Rightarrow> ([], False)
     | _ \<Rightarrow> ([], True))"

text \<open>The check of all entries before anything is created: the first field that is missing.\<close>

fun missing_field :: "nat \<Rightarrow> proxy_input list \<Rightarrow> string option" where
  "missing_field i [] = None"
| "missing_field i (x # xs) =
     (if in_Name x = [] then Some (''name at proxy '' @ decimal (Suc i))
      else if in_Upstream x = [] then Some (''upstream at proxy '' @ decimal (Suc i))
      else missing_field (Suc i) xs)"

fun populate :: "net \<Rightarrow> proxy_input list \<Rightarrow> ProxyCollection \<Rightarrow> nat list \<times> go_error option \<times> ProxyCollection" where
  "populate nt [] s = ([], None, s)"
| "populate nt (x # xs) s =
     (case alloc_proxy (NewProxy (in_Name x) (in_Listen x) (in_Upstream x)) s of (r, s1) \<Rightarrow>
        (case AddOrReplace nt r (in_Enabled x \<noteq> Some False) s1 of
           (Some e, s2) \<Rightarrow> ([], Some e, s2)
         | (None, s2) \<Rightarrow> (case populate nt xs s2 of (rs, e, s3) \<Rightarrow> (r # rs, e, s3))))"

definition PopulateJson ::
    "net \<Rightarrow> string \<Rightarrow> json option \<Rightarrow> ProxyCollection \<Rightarrow> nat list \<times> go_error option \<times> ProxyCollection" where
  "PopulateJson nt txt body s =
     (let bad = ([], map_option Api (joinError (Some (Other txt)) ErrBadRequestBody), s)
      in case body of
           None \<Rightarrow> bad
         | Some j \<Rightarrow> (case decode_inputs j of (inputs, e) \<Rightarrow>
             if e then bad
             else (case missing_field 0 inputs of
                 Some f \<Rightarrow> ([], map_option Api (joinError (Some (Other f)) ErrMissingField), s)
               | None \<Rightarrow> populate nt inputs s)))"

subsection \<open>The invariant\<close>

text \<open>Every name has its own proxy, which bears this name.\<close>

definition pcoll_ok :: "ProxyCollection \<Rightarrow> bool" where
  "pcoll_ok s \<longleftrightarrow> distinct (map fst (proxies s)) \<and> distinct (map snd (proxies s))
     \<and> (\<forall>(n, r) \<in> set (proxies s). r < length (heap s) \<and> px_Name (heap s ! r) = n)"

definition lookup_proxy :: "string \<Rightarrow> ProxyCollection \<Rightarrow> Proxy option" where
  "lookup_proxy n s = map_option (\<lambda>r. heap s ! r) (map_of (proxies s) n)"

lemma proxy_stop_fields [simp]:
  "px_Name (proxy_stop p) = px_Name p" "px_Listen (proxy_stop p) = px_Listen p"
  "px_Upstream (proxy_stop p) = px_Upstream p" "\<not> px_Enabled (proxy_stop p)"
  by (simp_all add: proxy_stop_def close_listener_def close_connections_def)

lemma proxy_start_fields:
  "proxy_start nt p = (e, p') \<Longrightarrow> px_Name p' = px_Name p \<and> px_Upstream p' = px_Upstream p
     \<and> (e = None \<longrightarrow> px_Enabled p') \<and> (px_Enabled p' \<longrightarrow> e = None \<or> px_Enabled p)"
  by (auto simp: proxy_start_def proxy_listen_def split: if_splits sum.splits)

text \<open>A reference of the collection, and one outside of it.\<close>

lemma pcoll_okD:
  assumes "pcoll_ok s" and "map_of (proxies s) n = Some r"
  shows "r < length (heap s)" and "px_Name (heap s ! r) = n"
    and "map_of (proxies s) m = Some r \<Longrightarrow> m = n"
proof -
  have at: "(k, x) \<in> set (proxies s) \<Longrightarrow> x < length (heap s) \<and> px_Name (heap s ! x) = k" for k x
    using assms(1) by (auto simp: pcoll_ok_def)
  from at [OF map_of_SomeD [OF assms(2)]] show "r < length (heap s)" "px_Name (heap s ! r) = n" by blast+
  assume "map_of (proxies s) m = Some r"
  with at [OF map_of_SomeD [OF this]] \<open>px_Name (heap s ! r) = n\<close> show "m = n" by simp
qed

lemma set_proxy_ok:
  assumes "pcoll_ok s" and "r < length (heap s)" and "px_Name p = px_Name (heap s ! r)"
  shows "pcoll_ok (set_proxy r p s)"
  using assms by (auto simp: pcoll_ok_def set_proxy_def nth_list_update)

definition fresh_ref :: "nat \<Rightarrow> ProxyCollection \<Rightarrow> bool" where
  "fresh_ref r s \<longleftrightarrow> r < length (heap s) \<and> r \<notin> snd ` set (proxies s)"

lemma alloc_fresh:
  assumes "pcoll_ok s" and "alloc_proxy p s = (r, s')"
  shows "pcoll_ok s'" and "fresh_ref r s'" and "heap s' ! r = p" and "proxies s' = proxies s"
    and "lookup_proxy n s' = lookup_proxy n s"
proof -
  have s': "s' = s\<lparr>heap := heap s @ [p]\<rparr>" "r = length (heap s)"
    using assms(2) by (auto simp: alloc_proxy_def)
  show "pcoll_ok s'" "fresh_ref r s'" using assms(1)
    by (auto simp: s' pcoll_ok_def fresh_ref_def nth_append)
  show "heap s' ! r = p" "proxies s' = proxies s" by (simp_all add: s')
  show "lookup_proxy n s' = lookup_proxy n s"
    using pcoll_okD(1) [OF assms(1), of n] by (cases "map_of (proxies s) n") (auto simp: s' lookup_proxy_def nth_append)
qed

lemma lookup_set_other:
  "fresh_ref r s \<Longrightarrow> lookup_proxy n (set_proxy r p s) = lookup_proxy n s"
proof -
  assume f: "fresh_ref r s"
  have "map_of (proxies s) n \<noteq> Some r" using f map_of_SomeD [of "proxies s" n r] by (force simp: fresh_ref_def)
  then show ?thesis by (cases "map_of (proxies s) n") (auto simp: lookup_proxy_def set_proxy_def)
qed

lemma in_update_snd:
  "x \<in> snd ` set (AList.update k v al) \<Longrightarrow> x = v \<or> x \<in> snd ` set al"
  by (induction al) (auto split: if_splits)

lemma distinct_snd_update:
  "distinct (map snd al) \<Longrightarrow> v \<notin> snd ` set al \<Longrightarrow> distinct (map snd (AList.update k v al))"
proof (induction al)
  case (Cons x al)
  then show ?case using in_update_snd [of "snd x" k v al] by (auto split: if_splits)
qed simp

lemma enter_ok:
  assumes "pcoll_ok s" and "fresh_ref r s"
  shows "pcoll_ok (enter r s)"
    and "lookup_proxy n (enter r s) = (if n = px_Name (heap s ! r) then Some (heap s ! r) else lookup_proxy n s)"
proof -
  show "pcoll_ok (enter r s)"
    using assms in_update [of "proxies s"] distinct_snd_update [of "proxies s" r]
    by (fastforce simp: pcoll_ok_def enter_def fresh_ref_def distinct_update)
  show "lookup_proxy n (enter r s) = (if n = px_Name (heap s ! r) then Some (heap s ! r) else lookup_proxy n s)"
    by (auto simp: lookup_proxy_def enter_def update_conv')
qed

lemma start_ok':
  assumes "pcoll_ok s" and "fresh_ref r s" and "Proxy_Start nt r s = (e, s')"
  shows "pcoll_ok s'" and "fresh_ref r s'" and "lookup_proxy n s' = lookup_proxy n s"
    and "proxies s' = proxies s" and "heap s' ! r = snd (proxy_start nt (heap s ! r))"
    and "e = fst (proxy_start nt (heap s ! r))" and "length (heap s') = length (heap s)"
proof -
  obtain p where p: "proxy_start nt (heap s ! r) = (e, p)" and s': "s' = set_proxy r p s"
    using assms(3) by (auto simp: Proxy_Start_def split: prod.splits)
  have n: "px_Name p = px_Name (heap s ! r)" using proxy_start_fields [OF p] by simp
  show "pcoll_ok s'" unfolding s' using set_proxy_ok [OF assms(1) _ n] assms(2) by (simp add: fresh_ref_def)
  show "fresh_ref r s'" "proxies s' = proxies s" "length (heap s') = length (heap s)"
    using assms(2) by (auto simp: s' set_proxy_def fresh_ref_def)
  show "lookup_proxy n s' = lookup_proxy n s" unfolding s' by (rule lookup_set_other [OF assms(2)])
  show "heap s' ! r = snd (proxy_start nt (heap s ! r))" "e = fst (proxy_start nt (heap s ! r))"
    using assms(2) p by (auto simp: s' set_proxy_def fresh_ref_def)
qed

lemma stop_ok:
  assumes "pcoll_ok s" and "map_of (proxies s) m = Some x"
  shows "pcoll_ok (Proxy_Stop x s)" and "proxies (Proxy_Stop x s) = proxies s"
    and "lookup_proxy n (Proxy_Stop x s) = (if n = m then map_option proxy_stop (lookup_proxy n s) else lookup_proxy n s)"
    and "fresh_ref r s \<Longrightarrow> fresh_ref r (Proxy_Stop x s) \<and> heap (Proxy_Stop x s) ! r = heap s ! r"
    and "length (heap (Proxy_Stop x s)) = length (heap s)"
proof -
  note x = pcoll_okD [OF assms]
  show "pcoll_ok (Proxy_Stop x s)" unfolding Proxy_Stop_def by (rule set_proxy_ok [OF assms(1) x(1)]) simp
  show "proxies (Proxy_Stop x s) = proxies s" "length (heap (Proxy_Stop x s)) = length (heap s)"
    by (simp_all add: Proxy_Stop_def set_proxy_def)
  show "lookup_proxy n (Proxy_Stop x s) = (if n = m then map_option proxy_stop (lookup_proxy n s) else lookup_proxy n s)"
    using assms(2) x(1) x(3) [of n] by (cases "map_of (proxies s) n")
      (auto simp: lookup_proxy_def Proxy_Stop_def set_proxy_def nth_list_update)
  assume f: "fresh_ref r s"
  have "x \<in> snd ` set (proxies s)" using map_of_SomeD [OF assms(2)] by force
  with f have "r \<noteq> x" by (auto simp: fresh_ref_def)
  with f show "fresh_ref r (Proxy_Stop x s) \<and> heap (Proxy_Stop x s) ! r = heap s ! r"
    by (simp add: fresh_ref_def Proxy_Stop_def set_proxy_def)
qed

lemma drop_ok:
  assumes "pcoll_ok s" and "map_of (proxies s) m = Some x"
  shows "pcoll_ok (drop_proxy x s)" and "proxies (drop_proxy x s) = AList.delete m (proxies s)"
    and "lookup_proxy n (drop_proxy x s) = (if n = m then None else lookup_proxy n s)"
proof -
  have nm: "px_Name (heap (Proxy_Stop x s) ! x) = m"
    using pcoll_okD [OF assms] by (simp add: Proxy_Stop_def set_proxy_def)
  then show p: "proxies (drop_proxy x s) = AList.delete m (proxies s)"
    by (simp add: drop_proxy_def Let_def stop_ok(2) [OF assms])
  show "pcoll_ok (drop_proxy x s)"
    using stop_ok(1,2) [OF assms] nm
    by (auto simp: pcoll_ok_def drop_proxy_def Let_def AList.delete_eq distinct_map_filter)
  have "lookup_proxy n (drop_proxy x s) = (if n = m then None else lookup_proxy n (Proxy_Stop x s))"
    using nm stop_ok(2) [OF assms] by (simp add: lookup_proxy_def drop_proxy_def Let_def AList.delete_conv')
  then show "lookup_proxy n (drop_proxy x s) = (if n = m then None else lookup_proxy n s)"
    using stop_ok(3) [OF assms] by simp
qed

subsection \<open>What the operations do\<close>

text \<open>Proxies by name: the requests that create disabled proxies and that remove proxies.\<close>

definition insert_proxy :: "net \<Rightarrow> Proxy \<Rightarrow> ProxyCollection \<Rightarrow> ProxyCollection" where
  "insert_proxy nt p s = (case alloc_proxy p s of (r, s') \<Rightarrow> snd (pc_Add nt r False s'))"

definition delete_proxy :: "string \<Rightarrow> ProxyCollection \<Rightarrow> ProxyCollection" where
  "delete_proxy n s = snd (pc_Remove n s)"

lemma lookup_none: "lookup_proxy n s = None \<longleftrightarrow> map_of (proxies s) n = None"
  by (simp add: lookup_proxy_def)

interpretation proxy_store: named_store pcoll_ok lookup_proxy px_Name "insert_proxy nt" delete_proxy for nt
proof unfold_locales
  fix s n and p :: Proxy
  assume ok: "pcoll_ok s" and new: "lookup_proxy (px_Name p) s = None"
  obtain r s' where a: "alloc_proxy p s = (r, s')" by (cases "alloc_proxy p s")
  note k = alloc_fresh [OF ok a]
  have "insert_proxy nt p s = enter r s'"
    using new k by (simp add: insert_proxy_def a pc_Add_def lookup_none)
  then show "pcoll_ok (insert_proxy nt p s)"
    "lookup_proxy n (insert_proxy nt p s) = (if n = px_Name p then Some p else lookup_proxy n s)"
    using enter_ok [OF k(1,2)] k(3,5) by simp_all
next
  fix s n m
  assume ok: "pcoll_ok s"
  show "pcoll_ok (delete_proxy n s)"
    using drop_ok [OF ok] ok by (simp add: delete_proxy_def pc_Remove_def getByName_def split: option.splits)
  show "lookup_proxy n (delete_proxy m s) = (if n = m then None else lookup_proxy n s)"
  proof (cases "map_of (proxies s) m")
    case None
    then show ?thesis by (simp add: delete_proxy_def pc_Remove_def getByName_def lookup_none)
  next
    case (Some x)
    with drop_ok(3) [OF ok Some, of n] show ?thesis by (simp add: delete_proxy_def pc_Remove_def getByName_def)
  qed
qed


lemma start_case:
  "(case Proxy_Start nt r s of (Some e, s') \<Rightarrow> (Some e, s') | (None, s') \<Rightarrow> (None, enter r s'))
    = (fst (Proxy_Start nt r s), if fst (Proxy_Start nt r s) = None then enter r (snd (Proxy_Start nt r s))
                                 else snd (Proxy_Start nt r s))"
  by (simp split: prod.splits option.splits)

lemma add_result:
  assumes ok: "pcoll_ok s" and f: "fresh_ref r s"
    and res: "(if st then (case Proxy_Start nt r s of (Some e, s') \<Rightarrow> (Some e, s') | (None, s') \<Rightarrow> (None, enter r s'))
          else (None, enter r s)) = (e, s')"
  shows "pcoll_ok s'" and "e = (if st then fst (proxy_start nt (heap s ! r)) else None)"
    and "lookup_proxy m s' = (if e = None \<and> m = px_Name (heap s ! r)
          then Some (if st then snd (proxy_start nt (heap s ! r)) else heap s ! r) else lookup_proxy m s)"
proof -
  have "pcoll_ok s' \<and> e = (if st then fst (proxy_start nt (heap s ! r)) else None)
      \<and> lookup_proxy m s' = (if e = None \<and> m = px_Name (heap s ! r)
          then Some (if st then snd (proxy_start nt (heap s ! r)) else heap s ! r) else lookup_proxy m s)"
  proof (cases st)
    case False
    with res enter_ok [OF ok f] show ?thesis by auto
  next
    case True
    obtain e1 s1 where s1: "Proxy_Start nt r s = (e1, s1)" by (cases "Proxy_Start nt r s")
    note k = start_ok' [OF ok f s1]
    have nm: "px_Name (snd (proxy_start nt (heap s ! r))) = px_Name (heap s ! r)"
      using proxy_start_fields [OF surjective_pairing] by blast
    have r: "e = e1" "s' = (if e1 = None then enter r s1 else s1)"
      using res True s1 by (auto split: option.splits)
    show ?thesis
    proof (cases e1)
      case None
      with enter_ok [OF k(1,2)] k(3,5,6) r True nm show ?thesis by auto
    next
      case (Some x)
      with k(1,3,6) r True show ?thesis by auto
    qed
  qed
  then show "pcoll_ok s'" "e = (if st then fst (proxy_start nt (heap s ! r)) else None)"
    "lookup_proxy m s' = (if e = None \<and> m = px_Name (heap s ! r)
          then Some (if st then snd (proxy_start nt (heap s ! r)) else heap s ! r) else lookup_proxy m s)"
    by blast+
qed

text \<open>\<open>Add\<close> refuses a name that is taken and changes nothing then. Otherwise the outcome is that
  of starting the proxy, if asked to: on success it is found under its name, started if so
  asked; on failure no name is affected.\<close>

theorem Add_result:
  assumes "pcoll_ok s" and "fresh_ref r s" and "pc_Add nt r st s = (e, s')"
  shows "if lookup_proxy (px_Name (heap s ! r)) s \<noteq> None then e = Some (Api ErrProxyAlreadyExists) \<and> s' = s
    else pcoll_ok s' \<and> e = (if st then fst (proxy_start nt (heap s ! r)) else None)
      \<and> (\<forall>m. lookup_proxy m s' = (if e = None \<and> m = px_Name (heap s ! r)
          then Some (if st then snd (proxy_start nt (heap s ! r)) else heap s ! r) else lookup_proxy m s))"
proof (cases "map_of (proxies s) (px_Name (heap s ! r))")
  case None
  with assms(3) have "(if st then (case Proxy_Start nt r s of (Some e, s') \<Rightarrow> (Some e, s') | (None, s') \<Rightarrow> (None, enter r s'))
      else (None, enter r s)) = (e, s')" by (simp add: pc_Add_def)
  from add_result [OF assms(1,2) this] None show ?thesis by (simp add: lookup_none)
next
  case (Some x)
  with assms(3) show ?thesis by (simp add: pc_Add_def lookup_proxy_def)
qed

lemma replaced:
  assumes "pcoll_ok s" and "fresh_ref r s" and "AddOrReplace nt r st s = (e, s')"
  shows "case lookup_proxy (px_Name (heap s ! r)) s of
      Some old \<Rightarrow>
        if px_Listen old = px_Listen (heap s ! r) \<and> px_Upstream old = px_Upstream (heap s ! r) then e = None \<and> s' = s
        else pcoll_ok s' \<and> e = (if st then fst (proxy_start nt (heap s ! r)) else None)
          \<and> (\<forall>m. lookup_proxy m s' = (if m = px_Name (heap s ! r)
                then Some (if e = None then (if st then snd (proxy_start nt (heap s ! r)) else heap s ! r) else proxy_stop old)
                else lookup_proxy m s))
    | None \<Rightarrow> pcoll_ok s' \<and> e = (if st then fst (proxy_start nt (heap s ! r)) else None)
          \<and> (\<forall>m. lookup_proxy m s' = (if e = None \<and> m = px_Name (heap s ! r)
                then Some (if st then snd (proxy_start nt (heap s ! r)) else heap s ! r) else lookup_proxy m s))"
proof (cases "map_of (proxies s) (px_Name (heap s ! r))")
  case None
  with assms(3) have "(if st then (case Proxy_Start nt r s of (Some e, s') \<Rightarrow> (Some e, s') | (None, s') \<Rightarrow> (None, enter r s'))
      else (None, enter r s)) = (e, s')" by (simp add: AddOrReplace_def Let_def)
  from add_result [OF assms(1,2) this] None show ?thesis by (simp add: lookup_proxy_def)
next
  case (Some x)
  note old = stop_ok [OF assms(1) Some]
  have lo: "lookup_proxy (px_Name (heap s ! r)) s = Some (heap s ! x)" using Some by (simp add: lookup_proxy_def)
  show ?thesis
  proof (cases "px_Listen (heap s ! x) = px_Listen (heap s ! r) \<and> px_Upstream (heap s ! x) = px_Upstream (heap s ! r)")
    case True
    with assms(3) Some lo show ?thesis by (simp add: AddOrReplace_def Let_def)
  next
    case False
    with assms(3) Some have "(if st then (case Proxy_Start nt r (Proxy_Stop x s) of (Some e, s') \<Rightarrow> (Some e, s') | (None, s') \<Rightarrow> (None, enter r s'))
        else (None, enter r (Proxy_Stop x s))) = (e, s')" by (auto simp: AddOrReplace_def Let_def)
    note k = add_result [OF old(1) conjunct1 [OF old(4) [OF assms(2)]] this]
    have "heap (Proxy_Stop x s) ! r = heap s ! r" using old(4) [OF assms(2)] by simp
    with k old(3) lo False show ?thesis by auto
  qed
qed

text \<open>C33: \<open>AddOrReplace\<close> leaves everything as it is when the proxy of that name has the same
  addresses. Otherwise the old proxy is stopped first; on success the new one has its name,
  and when the new one cannot be started the error is returned and the old one stays in
  the collection, stopped. Other names are never affected.\<close>

theorem AddOrReplace_result:
  assumes "pcoll_ok s" and "fresh_ref r s" and "AddOrReplace nt r st s = (e, s')"
  shows "case lookup_proxy (px_Name (heap s ! r)) s of
      Some old \<Rightarrow>
        if px_Listen old = px_Listen (heap s ! r) \<and> px_Upstream old = px_Upstream (heap s ! r) then e = None \<and> s' = s
        else pcoll_ok s' \<and> e = (if st then fst (proxy_start nt (heap s ! r)) else None)
          \<and> (\<forall>m. lookup_proxy m s' = (if m = px_Name (heap s ! r)
                then Some (if e = None then (if st then snd (proxy_start nt (heap s ! r)) else heap s ! r) else proxy_stop old)
                else lookup_proxy m s))
    | None \<Rightarrow> pcoll_ok s' \<and> e = (if st then fst (proxy_start nt (heap s ! r)) else None)
          \<and> (\<forall>m. lookup_proxy m s' = (if e = None \<and> m = px_Name (heap s ! r)
                then Some (if st then snd (proxy_start nt (heap s ! r)) else heap s ! r) else lookup_proxy m s))"
  by (rule replaced [OF assms])

lemma AddOrReplace_effect:
  assumes ok: "pcoll_ok s" and f: "fresh_ref r s" and ar: "AddOrReplace nt r st s = (e, s')"
  shows "pcoll_ok s' \<and> (\<forall>n. n \<noteq> px_Name (heap s ! r) \<longrightarrow> lookup_proxy n s' = lookup_proxy n s)
    \<and> (lookup_proxy (px_Name (heap s ! r)) s \<noteq> None \<or> e = None \<longrightarrow> lookup_proxy (px_Name (heap s ! r)) s' \<noteq> None)"
  using replaced [OF ok f ar] ok by (auto split: option.splits if_splits)

definition populate_valid :: "json option \<Rightarrow> bool" where
  "populate_valid body = (case body of None \<Rightarrow> False
     | Some j \<Rightarrow> \<not> snd (decode_inputs j) \<and> missing_field 0 (fst (decode_inputs j)) = None)"

lemma PopulateJson_invalid:
  "\<not> populate_valid body \<Longrightarrow>
     \<exists>e. PopulateJson nt tx body s = ([], Some (Api e), s) \<and> StatusCode e = 400"
  by (auto simp: populate_valid_def PopulateJson_def joinError_def go_defs Let_def split: option.splits prod.splits)

text \<open>A list that is no JSON, has a field of a wrong type or lacks the name or the upstream of
  any entry is answered with status 400 before anything has been created, replaced or stopped.\<close>

theorem invalid_list_changes_nothing:
  assumes "\<not> populate_valid body"
  shows "\<exists>e. PopulateJson nt txt body s = ([], Some (Api e), s) \<and> StatusCode e = 400"
  by (rule PopulateJson_invalid [OF assms])

lemma populate_ok:
  assumes "pcoll_ok s" and "populate nt xs s = (rs, e, s')"
  shows "pcoll_ok s' \<and> (\<forall>n. n \<notin> in_Name ` set xs \<longrightarrow> lookup_proxy n s' = lookup_proxy n s)
    \<and> (\<forall>n. lookup_proxy n s \<noteq> None \<longrightarrow> lookup_proxy n s' \<noteq> None)
    \<and> (e = None \<longrightarrow> length rs = length xs \<and> (\<forall>x \<in> set xs. lookup_proxy (in_Name x) s' \<noteq> None))"
  using assms
proof (induction xs arbitrary: s rs e s')
  case (Cons x xs)
  let ?p = "NewProxy (in_Name x) (in_Listen x) (in_Upstream x)"
  obtain r s1 where a: "alloc_proxy ?p s = (r, s1)" by (cases "alloc_proxy ?p s")
  obtain e2 s2 where ar: "AddOrReplace nt r (in_Enabled x \<noteq> Some False) s1 = (e2, s2)"
    by (cases "AddOrReplace nt r (in_Enabled x \<noteq> Some False) s1")
  note k = alloc_fresh [OF Cons.prems(1) a]
  have nm: "px_Name (heap s1 ! r) = in_Name x" by (simp add: k(3) NewProxy_def)
  have st: "pcoll_ok s2 \<and> (\<forall>n. n \<noteq> in_Name x \<longrightarrow> lookup_proxy n s2 = lookup_proxy n s)
      \<and> (lookup_proxy (in_Name x) s \<noteq> None \<or> e2 = None \<longrightarrow> lookup_proxy (in_Name x) s2 \<noteq> None)"
    using AddOrReplace_effect [OF k(1,2) ar] k(5) nm by metis
  show ?case
  proof (cases e2)
    case (Some y)
    with Cons.prems(2) a ar have r: "e = Some y" "s' = s2" by simp_all
    have "lookup_proxy n s2 \<noteq> None" if "lookup_proxy n s \<noteq> None" for n
      using st that by (cases "n = in_Name x") auto
    with st r show ?thesis by auto
  next
    case None
    obtain rs3 e3 s3 where p: "populate nt xs s2 = (rs3, e3, s3)" by (metis prod_cases3)
    with Cons.prems(2) a ar None have r: "e = e3" "s' = s3" "rs = r # rs3" by simp_all
    note IH = Cons.IH [OF conjunct1 [OF st] p]
    have x2: "lookup_proxy (in_Name x) s2 \<noteq> None" using st None by blast
    have "lookup_proxy n s2 \<noteq> None" if "lookup_proxy n s \<noteq> None" for n
      using st that x2 by (cases "n = in_Name x") auto
    with IH r st x2 show ?thesis by auto
  qed
qed simp

text \<open>C34: Populating keeps the collection well formed and never takes a proxy away from it, also when
  it fails half-way; names that are not in the list are not affected; and on success there is
  a proxy for every entry of the list.\<close>

theorem PopulateJson_result:
  assumes "pcoll_ok s" and "PopulateJson nt txt (Some j) s = (rs, e, s')"
  shows "pcoll_ok s'
    \<and> (\<forall>n. n \<notin> in_Name ` set (fst (decode_inputs j)) \<longrightarrow> lookup_proxy n s' = lookup_proxy n s)
    \<and> (\<forall>n. lookup_proxy n s \<noteq> None \<longrightarrow> lookup_proxy n s' \<noteq> None)
    \<and> (e = None \<longrightarrow> length rs = length (fst (decode_inputs j))
         \<and> (\<forall>x \<in> set (fst (decode_inputs j)). lookup_proxy (in_Name x) s' \<noteq> None))"
proof (cases "populate_valid (Some j)")
  case True
  with assms(2) have "populate nt (fst (decode_inputs j)) s = (rs, e, s')"
    by (auto simp: PopulateJson_def populate_valid_def Let_def split: option.splits prod.splits)
  from populate_ok [OF assms(1) this] show ?thesis .
next
  case False
  have "rs = [] \<and> s' = s \<and> e \<noteq> None"
    using assms(2) False
    by (auto simp: PopulateJson_def populate_valid_def Let_def joinError_def split: option.splits prod.splits if_splits)
  with assms(1) show ?thesis by auto
qed

text \<open>The list that asks for one proxy, in the form the client library sends it.\<close>

definition one_proxy :: "string \<Rightarrow> string \<Rightarrow> string \<Rightarrow> json" where
  "one_proxy n l u = JArr [JObj [(''name'', JStr n), (''listen'', JStr l), (''upstream'', JStr u), (''enabled'', JBool True)]]"

text \<open>Populating with a proxy that is there already, with the same addresses, leaves the
  collection alone, but the proxy reported back is not the one of the collection: it is a
  new one that was never started, reported as disabled and without toxics.\<close>

theorem unchanged_proxy_reported_disabled:
  assumes "pcoll_ok s" and "lookup_proxy n s = Some old" and "n \<noteq> []" and "px_Upstream old \<noteq> []"
  shows "\<exists>s'. PopulateJson nt txt (Some (one_proxy n (px_Listen old) (px_Upstream old))) s = ([length (heap s)], None, s')
    \<and> lookup_proxy n s' = Some old \<and> proxies s' = proxies s
    \<and> \<not> px_Enabled (heap s' ! length (heap s)) \<and> length (heap s) \<notin> snd ` set (proxies s')"
proof -
  let ?p = "NewProxy n (px_Listen old) (px_Upstream old)"
  obtain s1 where a: "alloc_proxy ?p s = (length (heap s), s1)" by (simp add: alloc_proxy_def)
  note k = alloc_fresh [OF assms(1) a]
  obtain x where x: "map_of (proxies s) n = Some x" "heap s ! x = old"
    using assms(2) by (auto simp: lookup_proxy_def)
  have "heap s1 ! x = old" using k(5) [of n] k(4) x assms(2) by (simp add: lookup_proxy_def)
  then have "AddOrReplace nt (length (heap s)) True s1 = (None, s1)"
    using x k(3,4) by (simp add: AddOrReplace_def Let_def NewProxy_def)
  moreover have "decode_inputs (one_proxy n (px_Listen old) (px_Upstream old))
      = ([\<lparr>in_Name = n, in_Listen = px_Listen old, in_Upstream = px_Upstream old, in_Enabled = Some True\<rparr>], False)"
    by (simp add: decode_inputs_def one_proxy_def decode_struct_def input_field_def no_input_def key_is_def
        ToLower_def lower_char_def Let_def)
  ultimately have "PopulateJson nt txt (Some (one_proxy n (px_Listen old) (px_Upstream old))) s
      = ([length (heap s)], None, s1)"
    using assms(3,4) a by (simp add: PopulateJson_def Let_def)
  with k(2-5) assms(2) show ?thesis by (auto simp: fresh_ref_def NewProxy_def)
qed

lemma fold_drop:
  assumes "pcoll_ok s" and "proxies s = xs"
  shows "proxies (fold (\<lambda>(n, r). drop_proxy r) xs s) = []"
  using assms
proof (induction xs arbitrary: s)
  case (Cons x xs)
  obtain n r where x: "x = (n, r)" by (cases x)
  have m: "map_of (proxies s) n = Some r" using Cons.prems x by simp
  have "n \<notin> fst ` set xs" using Cons.prems x by (auto simp: pcoll_ok_def)
  then have "AList.delete n (proxies s) = xs"
    using Cons.prems(2) x by (force simp: AList.delete_eq filter_id_conv)
  with drop_ok(1,2) [OF Cons.prems(1) m] Cons.IH [of "drop_proxy r s"] x show ?case by simp
qed simp

lemma Clear_empties: "pcoll_ok s \<Longrightarrow> proxies (pc_Clear s) = []"
  unfolding pc_Clear_def by (rule fold_drop) simp_all

subsection \<open>Witnesses\<close>

text \<open>A collection with one running proxy, and a second proxy not entered yet.\<close>

definition one_running :: ProxyCollection where
  "one_running = \<lparr>heap = [running_proxy, NewProxy ''p'' ''localhost:1'' ''up'', NewProxy ''q'' ''localhost:1'' ''up''],
     proxies = [(''p'', 0)]\<rparr>"

lemma running_fields:
  "px_Name running_proxy = ''p''" "px_Listen running_proxy = ''127:9''" "px_Upstream running_proxy = ''up''"
  "px_Enabled running_proxy"
  by (simp_all add: running_proxy_def proxy_start_def proxy_listen_def some_net_def NewProxy_def)

lemma one_running_ok:
  "pcoll_ok one_running" "fresh_ref 1 one_running" "fresh_ref 2 one_running"
  "lookup_proxy ''p'' one_running = Some running_proxy"
  by (simp_all add: one_running_def pcoll_ok_def fresh_ref_def lookup_proxy_def running_fields)

text \<open>A new proxy that cannot be started, under a new name and as a replacement.\<close>

theorem Add_result_witness:
  "fst (pc_Add some_net 2 True one_running) = Some (Other ''permission denied'')
   \<and> lookup_proxy ''q'' (snd (pc_Add some_net 2 True one_running)) = None"
proof -
  have "lookup_proxy ''q'' one_running = None" by (simp add: one_running_def lookup_proxy_def)
  with Add_result [OF one_running_ok(1,3) surjective_pairing, of some_net True] show ?thesis
    by (simp add: one_running_def NewProxy_def proxy_start_def proxy_listen_def some_net_def)
qed

theorem AddOrReplace_result_witness:
  "fst (AddOrReplace some_net 1 True one_running) = Some (Other ''permission denied'')
   \<and> lookup_proxy ''p'' (snd (AddOrReplace some_net 1 True one_running)) = Some (proxy_stop running_proxy)"
  using AddOrReplace_result [OF one_running_ok(1,2) surjective_pairing, of some_net True] one_running_ok(4) running_fields
  by (simp add: one_running_def NewProxy_def proxy_start_def proxy_listen_def some_net_def)

theorem invalid_list_changes_nothing_witness:
  "\<exists>e. PopulateJson some_net ''EOF'' None one_running = ([], Some (Api e), one_running) \<and> StatusCode e = 400"
  by (rule invalid_list_changes_nothing) (simp add: populate_valid_def)

theorem PopulateJson_result_witness:
  "pcoll_ok (snd (snd (PopulateJson some_net [] (Some (one_proxy ''r'' ''localhost:1'' ''up'')) one_running)))
   \<and> lookup_proxy ''p'' (snd (snd (PopulateJson some_net [] (Some (one_proxy ''r'' ''localhost:1'' ''up'')) one_running)))
      = Some running_proxy"
proof -
  have d: "decode_inputs (one_proxy ''r'' ''localhost:1'' ''up'')
      = ([\<lparr>in_Name = ''r'', in_Listen = ''localhost:1'', in_Upstream = ''up'', in_Enabled = Some True\<rparr>], False)"
    by (simp add: decode_inputs_def one_proxy_def decode_struct_def input_field_def no_input_def key_is_def
        ToLower_def lower_char_def Let_def)
  obtain rs e s' where "PopulateJson some_net [] (Some (one_proxy ''r'' ''localhost:1'' ''up'')) one_running = (rs, e, s')"
    by (metis prod_cases3)
  with PopulateJson_result [OF one_running_ok(1) this] one_running_ok(4) d show ?thesis by simp
qed

theorem unchanged_proxy_reported_disabled_witness:
  "\<exists>s'. PopulateJson some_net [] (Some (one_proxy ''p'' ''127:9'' ''up'')) one_running = ([3], None, s')
     \<and> lookup_proxy ''p'' s' = Some running_proxy \<and> \<not> px_Enabled (heap s' ! 3)"
  using unchanged_proxy_reported_disabled [OF one_running_ok(1,4), of some_net "[]"] running_fields
  by (auto simp: one_running_def eval_nat_numeral)

end
