(* ===== verification/Api.thy ===== *)
theory Api
  imports ProxyCollection Collection "HOL-Library.List_Lexorder" "HOL-Library.Char_ord"
begin

text \<open>
  The HTTP interface (\<open>api.go\<close>): routes, handlers and middlewares as functions from a request
  and the state to an answer and the state. Answers are JSON values. The handlers of toxics are
  modelled with what they do to the chains of a proxy; what the same requests do to its links,
  step by step, is theory \<open>CollectionRun\<close>.
\<close>

subsection \<open>Requests and answers\<close>

datatype http_method = GET | POST | PATCH | DELETE | OtherMethod

text \<open>
  The path is split at its slashes; \<open>rq_Body\<close> is \<open>None\<close> when the text is no JSON, and
  \<open>rq_Text\<close> is then the text of the decoder's error.
\<close>

record request =
  rq_Method :: http_method
  rq_Path :: "string list"
  rq_UserAgent :: string
  rq_Body :: "json option"
  rq_Text :: string

datatype body = JsonBody json | TextBody string | NoBody

record response =
  rs_Status :: nat
  rs_Type :: string
  rs_Body :: body

definition json_answer :: "nat \<Rightarrow> json \<Rightarrow> response" where
  "json_answer status j = \<lparr>rs_Status = status, rs_Type = ''application/json'', rs_Body = JsonBody j\<rparr>"

definition no_content :: response where
  "no_content = \<lparr>rs_Status = 204, rs_Type = [], rs_Body = NoBody\<rparr>"

text \<open>
  \<open>http.Error\<close> of Go's standard library: it replaces the content type that has been set, and
  adds a line feed to the text (not shown for JSON).
\<close>

definition http_Error :: "body \<Rightarrow> nat \<Rightarrow> response" where
  "http_Error b status = \<lparr>rs_Status = status, rs_Type = ''text/plain; charset=utf-8'', rs_Body = b\<rparr>"

definition encode_error :: "string \<Rightarrow> nat \<Rightarrow> (string \<times> json) list" where
  "encode_error msg status = [(''error'', JStr msg), (''status'', JInt (int status))]"

text \<open>\<open>apiError\<close>: the answer it has written, if there was an error.\<close>

definition apiError :: "go_error option \<Rightarrow> response option" where
  "apiError err = map_option (\<lambda>e. http_Error (JsonBody (JObj (encode_error (error_text e) (error_status e)))) (error_status e)) err"

definition refused :: "ApiError \<Rightarrow> response" where
  "refused e = the (apiError (Some (Api e)))"

subsection \<open>What is shown\<close>

definition encode_number :: "rat \<Rightarrow> json" where
  "encode_number x = (if snd (quotient_of x) = 1 then JInt (fst (quotient_of x)) else JFrac x)"

definition encode_wrapper :: "ToxicWrapper \<Rightarrow> json" where
  "encode_wrapper w = JObj [(''attributes'', encode_toxic (tw_Toxic w)), (''name'', JStr (tw_Name w)),
     (''type'', JStr (tw_Type w)), (''stream'', JStr (tw_Stream w)), (''toxicity'', encode_number (tw_Toxicity w))]"

definition chains_of :: "Proxy \<Rightarrow> chains" where
  "chains_of p = coll_chains (px_Toxics p)"

text \<open>The logger of a proxy has no exported fields, so it is shown as an empty object.\<close>

definition proxyWithToxics :: "Proxy \<Rightarrow> json" where
  "proxyWithToxics p = JObj [(''name'', JStr (px_Name p)), (''listen'', JStr (px_Listen p)),
     (''upstream'', JStr (px_Upstream p)), (''enabled'', JBool (px_Enabled p)), (''Logger'', JObj []),
     (''toxics'', JArr (map encode_wrapper (GetToxicArray (chains_of p))))]"

text \<open>A nil slice becomes \<open>null\<close>.\<close>

definition proxiesWithToxics :: "Proxy list \<Rightarrow> json" where
  "proxiesWithToxics ps = (if ps = [] then JNull else JArr (map proxyWithToxics ps))"

subsection \<open>Handlers of proxies\<close>

text \<open>
  Every handler gives an answer and the new state; \<open>None\<close> would be a handler that panics or
  never returns.
\<close>

definition ProxyIndex :: "ProxyCollection \<Rightarrow> (response \<times> ProxyCollection) option" where
  "ProxyIndex s = Some (json_answer 200 (JObj (map (\<lambda>(n, r). (n, proxyWithToxics (heap s ! r))) (sort_key fst (pc_Proxies s)))), s)"

definition set_chains :: "nat \<Rightarrow> chains \<Rightarrow> ProxyCollection \<Rightarrow> ProxyCollection" where
  "set_chains r chain s =
     set_proxy r ((heap s ! r)\<lparr>px_Toxics := (px_Toxics (heap s ! r))\<lparr>coll_chains := chain\<rparr>\<rparr>) s"

text \<open>\<open>order\<close> is the order in which the map of proxies is traversed.\<close>

fun reset_loop :: "net \<Rightarrow> (string \<times> nat) list \<Rightarrow> ProxyCollection \<Rightarrow> (go_error option \<times> ProxyCollection) option" where
  "reset_loop nt [] s = Some (None, s)"
| "reset_loop nt ((n, r) # order) s = (case Proxy_Start nt r s of (e, s1) \<Rightarrow>
     if e \<noteq> Some ErrProxyAlreadyStarted \<and> e \<noteq> None then Some (e, s1)
     else (case ResetToxics (chains_of (heap s1 ! r)) of
         None \<Rightarrow> None
       | Some chain \<Rightarrow> reset_loop nt order (set_chains r chain s1)))"

definition ResetState :: "net \<Rightarrow> (string \<times> nat) list \<Rightarrow> ProxyCollection \<Rightarrow> (response \<times> ProxyCollection) option" where
  "ResetState nt order s = map_option (\<lambda>(e, s'). (case apiError e of Some a \<Rightarrow> a | None \<Rightarrow> no_content, s'))
     (reset_loop nt order s)"

text \<open>Decoding into a proxy; its other exported fields are not decoded.\<close>

definition proxy_field :: "string \<Rightarrow> json \<Rightarrow> Proxy \<Rightarrow> Proxy \<times> bool" where
  "proxy_field k j p =
     (if key_is k ''name'' then map_prod (\<lambda>s. p\<lparr>px_Name := s\<rparr>) id (set_string j (px_Name p))
      else if key_is k ''listen'' then map_prod (\<lambda>s. p\<lparr>px_Listen := s\<rparr>) id (set_string j (px_Listen p))
      else if key_is k ''upstream'' then map_prod (\<lambda>s. p\<lparr>px_Upstream := s\<rparr>) id (set_string j (px_Upstream p))
      else if key_is k ''enabled'' then map_prod (\<lambda>b. p\<lparr>px_Enabled := b\<rparr>) id (set_bool j (px_Enabled p))
      else if key_is k ''logger'' then (p, set_logger j)
      else (p, False))"

definition bad_body :: "string \<Rightarrow> response" where
  "bad_body txt = refused (the (joinError (Some (Other txt)) ErrBadRequestBody))"

definition missing :: "string \<Rightarrow> response" where
  "missing field = refused (the (joinError (Some (Other field)) ErrMissingField))"

definition ProxyCreate :: "net \<Rightarrow> request \<Rightarrow> ProxyCollection \<Rightarrow> (response \<times> ProxyCollection) option" where
  "ProxyCreate nt rq s = Some (case rq_Body rq of
       None \<Rightarrow> (bad_body (rq_Text rq), s)
     | Some j \<Rightarrow>
         (case decode_struct proxy_field j ((NewProxy [] [] [])\<lparr>px_Enabled := True\<rparr>) of (input, e) \<Rightarrow>
            if e then (bad_body (rq_Text rq), s)
            else if px_Name input = [] then (missing ''name'', s)
            else if px_Upstream input = [] then (missing ''upstream'', s)
            else (case alloc_proxy (NewProxy (px_Name input) (px_Listen input) (px_Upstream input)) s of (r, s1) \<Rightarrow>
                (case pc_Add nt r (px_Enabled input) s1 of (err, s2) \<Rightarrow>
                   (case apiError err of
                      Some a \<Rightarrow> (a, s2)
                    | None \<Rightarrow> (json_answer 201 (proxyWithToxics (heap s2 ! r)), s2))))))"

definition Populate :: "net \<Rightarrow> request \<Rightarrow> ProxyCollection \<Rightarrow> (response \<times> ProxyCollection) option" where
  "Populate nt rq s = Some (case PopulateJson nt (rq_Text rq) (rq_Body rq) s of (rs, err, s') \<Rightarrow>
     (let shown = (''proxies'', proxiesWithToxics (map (\<lambda>r. heap s' ! r) rs))
      in (case err of
            None \<Rightarrow> json_answer 201 (JObj [shown])
          | Some e \<Rightarrow> json_answer (error_status e) (JObj (encode_error (error_text e) (error_status e) @ [shown])), s')))"

definition with_proxy :: "string \<Rightarrow> ProxyCollection \<Rightarrow> (nat \<Rightarrow> (response \<times> ProxyCollection) option)
    \<Rightarrow> (response \<times> ProxyCollection) option" where
  "with_proxy name s f = (case pc_Get name s of Inl e \<Rightarrow> Some (refused e, s) | Inr r \<Rightarrow> f r)"

definition ProxyShow :: "string \<Rightarrow> ProxyCollection \<Rightarrow> (response \<times> ProxyCollection) option" where
  "ProxyShow name s = with_proxy name s (\<lambda>r. Some (json_answer 200 (proxyWithToxics (heap s ! r)), s))"

definition ProxyUpdate :: "net \<Rightarrow> string \<Rightarrow> request \<Rightarrow> ProxyCollection \<Rightarrow> (response \<times> ProxyCollection) option" where
  "ProxyUpdate nt name rq s = with_proxy name s (\<lambda>r.
     let p = heap s ! r;
         defaults = (NewProxy [] (px_Listen p) (px_Upstream p))\<lparr>px_Enabled := px_Enabled p\<rparr>
     in Some (case rq_Body rq of
          None \<Rightarrow> (bad_body (rq_Text rq), s)
        | Some j \<Rightarrow>
            (case decode_struct proxy_field j defaults of (input, e) \<Rightarrow>
               if e then (bad_body (rq_Text rq), s)
               else (case Proxy_Update nt input p of (err, p') \<Rightarrow>
                   (case apiError err of
                      Some a \<Rightarrow> (a, set_proxy r p' s)
                    | None \<Rightarrow> (json_answer 200 (proxyWithToxics p'), set_proxy r p' s))))))"

definition ProxyDelete :: "string \<Rightarrow> ProxyCollection \<Rightarrow> (response \<times> ProxyCollection) option" where
  "ProxyDelete name s = Some (case pc_Remove name s of
       (Some e, s') \<Rightarrow> (refused e, s')
     | (None, s') \<Rightarrow> (no_content, s'))"

subsection \<open>Handlers of toxics\<close>

definition ToxicIndex :: "string \<Rightarrow> ProxyCollection \<Rightarrow> (response \<times> ProxyCollection) option" where
  "ToxicIndex name s = with_proxy name s (\<lambda>r.
     Some (json_answer 200 (JArr (map encode_wrapper (GetToxicArray (chains_of (heap s ! r))))), s))"

definition ToxicCreate :: "registry \<Rightarrow> string \<Rightarrow> request \<Rightarrow> ProxyCollection \<Rightarrow> (response \<times> ProxyCollection) option" where
  "ToxicCreate reg name rq s = with_proxy name s (\<lambda>r.
     (case AddToxicJson reg (rq_Text rq) (rq_Body rq) (chains_of (heap s ! r)) of
        Crash \<Rightarrow> None
      | Fine (Inl e, chain) \<Rightarrow> Some (refused e, set_chains r chain s)
      | Fine (Inr w, chain) \<Rightarrow> Some (json_answer 200 (encode_wrapper w), set_chains r chain s)))"

definition ToxicShow :: "string \<Rightarrow> string \<Rightarrow> ProxyCollection \<Rightarrow> (response \<times> ProxyCollection) option" where
  "ToxicShow name toxic_name s = with_proxy name s (\<lambda>r.
     (case findToxicByName toxic_name (chains_of (heap s ! r)) of
        None \<Rightarrow> Some (refused ErrToxicNotFound, s)
      | Some w \<Rightarrow> Some (json_answer 200 (encode_wrapper w), s)))"

definition ToxicUpdate :: "string \<Rightarrow> string \<Rightarrow> request \<Rightarrow> ProxyCollection \<Rightarrow> (response \<times> ProxyCollection) option" where
  "ToxicUpdate name toxic_name rq s = with_proxy name s (\<lambda>r.
     (case UpdateToxicJson (rq_Text rq) toxic_name (rq_Body rq) (chains_of (heap s ! r)) of
        (Inl e, chain) \<Rightarrow> Some (refused e, set_chains r chain s)
      | (Inr w, chain) \<Rightarrow> Some (json_answer 200 (encode_wrapper w), set_chains r chain s)))"

definition ToxicDelete :: "string \<Rightarrow> string \<Rightarrow> ProxyCollection \<Rightarrow> (response \<times> ProxyCollection) option" where
  "ToxicDelete name toxic_name s = with_proxy name s (\<lambda>r.
     (case RemoveToxic toxic_name (chains_of (heap s ! r)) of
        (Some e, chain) \<Rightarrow> Some (refused e, s)
      | (None, chain) \<Rightarrow> Some (no_content, set_chains r chain s)))"

text \<open>
  \<open>Version\<close>: the format is a raw string literal, so its last two characters are a backslash
  and the letter n (a quotation mark is written as its code).
\<close>

definition Version_string :: string where
  "Version_string = ''git''"

definition Version_body :: string where
  "Version_body = (let q = CHR 0x22 in
     ''{'' @ [q] @ ''version'' @ [q] @ '': '' @ [q] @ Version_string @ [q] @ ''}'' @ [CHR 0x5C, CHR ''n''])"

definition Version :: "ProxyCollection \<Rightarrow> (response \<times> ProxyCollection) option" where
  "Version s = Some (\<lparr>rs_Status = 200, rs_Type = ''application/json;charset=utf-8'', rs_Body = TextBody Version_body\<rparr>, s)"

subsection \<open>Routes and middlewares\<close>

datatype handler =
    HResetState
  | HProxyIndex
  | HProxyCreate
  | HPopulate
  | HProxyShow string
  | HProxyUpdate string
  | HProxyDelete string
  | HToxicIndex string
  | HToxicCreate string
  | HToxicShow string string
  | HToxicUpdate string string
  | HToxicDelete string string
  | HVersion
  | HMetrics

text \<open>
  The table of \<open>Routes\<close>: for a path, the handlers with their methods. A variable of a path
  stands for a part that is not empty.
\<close>

definition routes :: "bool \<Rightarrow> string list \<Rightarrow> (http_method list \<times> handler) list" where
  "routes metrics path = (case path of
       [a] \<Rightarrow>
         if a = ''reset'' then [([POST], HResetState)]
         else if a = ''proxies'' then [([GET], HProxyIndex), ([POST], HProxyCreate)]
         else if a = ''populate'' then [([POST], HPopulate)]
         else if a = ''version'' then [([GET], HVersion)]
         else if a = ''metrics'' \<and> metrics then [([GET, POST, PATCH, DELETE, OtherMethod], HMetrics)]
         else []
     | [a, p] \<Rightarrow>
         if a = ''proxies'' \<and> p \<noteq> []
         then [([GET], HProxyShow p), ([POST, PATCH], HProxyUpdate p), ([DELETE], HProxyDelete p)] else []
     | [a, p, b] \<Rightarrow>
         if a = ''proxies'' \<and> p \<noteq> [] \<and> b = ''toxics''
         then [([GET], HToxicIndex p), ([POST], HToxicCreate p)] else []
     | [a, p, b, t] \<Rightarrow>
         if a = ''proxies'' \<and> p \<noteq> [] \<and> b = ''toxics'' \<and> t \<noteq> []
         then [([GET], HToxicShow p t), ([POST, PATCH], HToxicUpdate p t), ([DELETE], HToxicDelete p t)] else []
     | _ \<Rightarrow> [])"

text \<open>No route for the path is a 404, none for the method a 405.\<close>

definition find_route :: "bool \<Rightarrow> http_method \<Rightarrow> string list \<Rightarrow> nat + handler" where
  "find_route metrics m path = (case find (\<lambda>(ms, h). m \<in> set ms) (routes metrics path) of
       Some (ms, h) \<Rightarrow> Inr h
     | None \<Rightarrow> Inl (if routes metrics path = [] then 404 else 405))"

text \<open>
  What the handlers depend on: the operating system, the registered toxic types, the metrics
  (their answer comes from the Prometheus library), the order in which a map is traversed, and
  whether a handler takes longer than the 25 seconds of \<open>timeoutMiddleware\<close>.
\<close>

record api_env =
  ae_net :: net
  ae_registry :: registry
  ae_metrics :: bool
  ae_metrics_text :: string
  ae_order :: "(string \<times> nat) list \<Rightarrow> (string \<times> nat) list"
  ae_slow :: bool

fun dispatch :: "api_env \<Rightarrow> request \<Rightarrow> handler \<Rightarrow> ProxyCollection \<Rightarrow> (response \<times> ProxyCollection) option" where
  "dispatch ae rq HResetState s = ResetState (ae_net ae) (ae_order ae (pc_Proxies s)) s"
| "dispatch ae rq HProxyIndex s = ProxyIndex s"
| "dispatch ae rq HProxyCreate s = ProxyCreate (ae_net ae) rq s"
| "dispatch ae rq HPopulate s = Populate (ae_net ae) rq s"
| "dispatch ae rq (HProxyShow p) s = ProxyShow p s"
| "dispatch ae rq (HProxyUpdate p) s = ProxyUpdate (ae_net ae) p rq s"
| "dispatch ae rq (HProxyDelete p) s = ProxyDelete p s"
| "dispatch ae rq (HToxicIndex p) s = ToxicIndex p s"
| "dispatch ae rq (HToxicCreate p) s = ToxicCreate (ae_registry ae) p rq s"
| "dispatch ae rq (HToxicShow p t) s = ToxicShow p t s"
| "dispatch ae rq (HToxicUpdate p t) s = ToxicUpdate p t rq s"
| "dispatch ae rq (HToxicDelete p t) s = ToxicDelete p t s"
| "dispatch ae rq HVersion s = Version s"
| "dispatch ae rq HMetrics s = Some (\<lparr>rs_Status = 200, rs_Type = ''text/plain'', rs_Body = TextBody (ae_metrics_text ae)\<rparr>, s)"

definition stopBrowsersMiddleware ::
    "(ProxyCollection \<Rightarrow> (response \<times> ProxyCollection) option) \<Rightarrow> request \<Rightarrow> ProxyCollection \<Rightarrow> (response \<times> ProxyCollection) option" where
  "stopBrowsersMiddleware nxt rq s =
     (if prefix ''Mozilla/'' (rq_UserAgent rq) then Some (http_Error (TextBody ''User agent not allowed'') 403, s)
      else nxt s)"

text \<open>
  A handler that has timed out goes on in the background. For an empty message the answer is
  a text of Go's standard library.
\<close>

definition timeoutMiddleware ::
    "bool \<Rightarrow> (ProxyCollection \<Rightarrow> (response \<times> ProxyCollection) option) \<Rightarrow> ProxyCollection \<Rightarrow> (response \<times> ProxyCollection) option" where
  "timeoutMiddleware slow nxt s =
     (if slow then Some (\<lparr>rs_Status = 503, rs_Type = [],
        rs_Body = TextBody ''<html><head><title>Timeout</title></head><body><h1>Timeout</h1></body></html>''\<rparr>, case nxt s of Some (a, s') \<Rightarrow> s' | None \<Rightarrow> s)
      else nxt s)"

definition serve :: "api_env \<Rightarrow> request \<Rightarrow> ProxyCollection \<Rightarrow> (response \<times> ProxyCollection) option" where
  "serve ae rq s = (case find_route (ae_metrics ae) (rq_Method rq) (rq_Path rq) of
       Inl status \<Rightarrow> Some (\<lparr>rs_Status = status, rs_Type = [], rs_Body = NoBody\<rparr>, s)
     | Inr h \<Rightarrow> stopBrowsersMiddleware (timeoutMiddleware (ae_slow ae) (dispatch ae rq h)) rq s)"

end
