(* ===== verification/ApiFlow.thy ===== *)
theory ApiFlow
  imports Api "HOL-Library.Multiset"
begin

text \<open>
  What the HTTP interface guarantees: every request is answered, with a known status, and keeps
  the proxies and their chains well formed; which requests change nothing; what a reset
  leaves; and what has been created is shown until it is deleted.
\<close>

subsection \<open>The invariant of the server\<close>

definition heap_ok :: "ProxyCollection \<Rightarrow> bool" where
  "heap_ok s \<longleftrightarrow> list_all (\<lambda>p. chains_ok (chains_of p)) (heap s)"

definition api_ok :: "ProxyCollection \<Rightarrow> bool" where
  "api_ok s \<longleftrightarrow> pcoll_ok s \<and> heap_ok s"

lemma heap_okD: "heap_ok s \<Longrightarrow> r < length (heap s) \<Longrightarrow> chains_ok (chains_of (heap s ! r))"
  by (auto simp: heap_ok_def list_all_length)

lemma heap_ok_set_proxy: "heap_ok s \<Longrightarrow> chains_ok (chains_of p) \<Longrightarrow> heap_ok (set_proxy r p s)"
  using set_update_subset_insert [of "heap s" r p] by (auto simp: heap_ok_def set_proxy_def list_all_iff)

lemma chains_same [simp]:
  "chains_of (proxy_stop p) = chains_of p"
  "chains_of (snd (proxy_start nt p)) = chains_of p"
  "chains_of (snd (Proxy_Update nt i p)) = chains_of p"
  by (auto simp: chains_of_def proxy_stop_def close_listener_def close_connections_def proxy_start_def
      proxy_listen_def Proxy_Update_def Let_def split: sum.splits)

lemma heap_ok_enter [simp]: "heap_ok (enter r s) = heap_ok s"
  by (simp add: heap_ok_def enter_def)

lemma heap_ok_alloc: "heap_ok s \<Longrightarrow> alloc_proxy (NewProxy n l u) s = (r, s') \<Longrightarrow> heap_ok s'"
  using new_chains_ok
  by (auto simp: heap_ok_def alloc_proxy_def chains_of_def NewProxy_def NewToxicCollection_def)

lemma heap_ok_Start:
  "heap_ok s \<Longrightarrow> r < length (heap s) \<Longrightarrow> heap_ok (snd (Proxy_Start nt r s))"
  by (simp add: Proxy_Start_def split_beta heap_ok_set_proxy heap_okD)

lemma heap_ok_Stop: "heap_ok s \<Longrightarrow> r < length (heap s) \<Longrightarrow> heap_ok (Proxy_Stop r s)"
  by (simp add: Proxy_Stop_def heap_ok_set_proxy heap_okD)

lemma heap_ok_add:
  assumes "heap_ok s" and "r < length (heap s)"
  shows "heap_ok (snd (case Proxy_Start nt r s of (Some e, s') \<Rightarrow> (Some e, s') | (None, s') \<Rightarrow> (None, enter r s')))"
  using heap_ok_Start [OF assms] by (simp add: start_case)

lemma heap_ok_Add: "heap_ok s \<Longrightarrow> r < length (heap s) \<Longrightarrow> heap_ok (snd (pc_Add nt r st s))"
  using heap_ok_add [of s r nt] by (simp add: pc_Add_def)

lemma heap_ok_AddOrReplace:
  assumes "pcoll_ok s" and "heap_ok s" and "r < length (heap s)"
  shows "heap_ok (snd (AddOrReplace nt r st s))"
proof (cases "map_of (proxies s) (px_Name (heap s ! r))")
  case None
  then show ?thesis using heap_ok_add [OF assms(2,3), of nt] assms(2) by (simp add: AddOrReplace_def Let_def)
next
  case (Some x)
  have s: "heap_ok (Proxy_Stop x s)" "r < length (heap (Proxy_Stop x s))"
    using heap_ok_Stop [OF assms(2)] pcoll_okD(1) [OF assms(1) Some] assms(3)
    by (simp_all add: Proxy_Stop_def set_proxy_def)
  then show ?thesis using Some assms(2) heap_ok_add [OF s, of nt] by (simp add: AddOrReplace_def Let_def)
qed

lemma api_ok_parts: "api_ok s \<Longrightarrow> pcoll_ok s" "api_ok s \<Longrightarrow> heap_ok s" "pcoll_ok s \<Longrightarrow> heap_ok s \<Longrightarrow> api_ok s"
  by (simp_all add: api_ok_def)

lemma api_ok_new: "api_ok NewProxyCollection"
  by (simp add: api_ok_def heap_ok_def pcoll_ok_def NewProxyCollection_def)

text \<open>A new proxy is put into the heap, and added.\<close>

lemma api_ok_alloc:
  "api_ok s \<Longrightarrow> alloc_proxy (NewProxy n l u) s = (r, s') \<Longrightarrow> api_ok s' \<and> fresh_ref r s' \<and> r < length (heap s')"
  using alloc_fresh(1,2) [of s "NewProxy n l u" r s'] heap_ok_alloc [of s n l u r s']
  by (auto simp: api_ok_def fresh_ref_def)

lemma api_ok_Add:
  assumes "api_ok s" and "fresh_ref r s"
  shows "api_ok (snd (pc_Add nt r st s))"
proof -
  have "r < length (heap s)" using assms(2) by (simp add: fresh_ref_def)
  then have "heap_ok (snd (pc_Add nt r st s))" using assms(1) by (simp add: heap_ok_Add api_ok_def)
  moreover have "pcoll_ok (snd (pc_Add nt r st s))"
    using add_result(1) [OF _ _ surjective_pairing, of s r st nt] assms by (simp add: pc_Add_def api_ok_def)
  ultimately show ?thesis by (simp add: api_ok_def)
qed

lemma api_ok_populate:
  "api_ok s \<Longrightarrow> populate nt xs s = (rs, e, s') \<Longrightarrow> api_ok s'"
proof (induction xs arbitrary: s rs e s')
  case (Cons x xs)
  obtain r s1 where a: "alloc_proxy (NewProxy (in_Name x) (in_Listen x) (in_Upstream x)) s = (r, s1)"
    by (cases "alloc_proxy (NewProxy (in_Name x) (in_Listen x) (in_Upstream x)) s")
  note k = api_ok_alloc [OF Cons.prems(1) a]
  obtain e2 s2 where ar: "AddOrReplace nt r (in_Enabled x \<noteq> Some False) s1 = (e2, s2)"
    by (cases "AddOrReplace nt r (in_Enabled x \<noteq> Some False) s1")
  have "api_ok s2"
    using AddOrReplace_effect [OF _ _ ar] heap_ok_AddOrReplace [of s1 r nt "in_Enabled x \<noteq> Some False"] k ar
    by (auto simp: api_ok_def)
  then show ?case using Cons.prems(2) a ar Cons.IH [of s2] by (auto split: option.splits prod.splits)
qed simp

lemma set_chains_ok:
  assumes "api_ok s" and "r < length (heap s)" and "chains_ok chain"
  shows "api_ok (set_chains r chain s)"
proof -
  have "chains_of ((heap s ! r)\<lparr>px_Toxics := (px_Toxics (heap s ! r))\<lparr>coll_chains := chain\<rparr>\<rparr>) = chain"
    by (simp add: chains_of_def)
  then show ?thesis
    using assms set_proxy_ok [of s r] heap_ok_set_proxy [of s] by (simp add: api_ok_def set_chains_def)
qed

lemma set_chains_at:
  "r < length (heap s) \<Longrightarrow> heap (set_chains r chain s) ! k
     = (if k = r then (heap s ! r)\<lparr>px_Toxics := (px_Toxics (heap s ! r))\<lparr>coll_chains := chain\<rparr>\<rparr> else heap s ! k)"
  "proxies (set_chains r chain s) = proxies s" "length (heap (set_chains r chain s)) = length (heap s)"
  by (auto simp: set_chains_def set_proxy_def)

text \<open>The loop over all proxies of \<open>ResetState\<close>.\<close>

lemma Proxy_Start_api:
  assumes "api_ok s" and "r < length (heap s)" and "Proxy_Start nt r s = (e, s')"
  shows "api_ok s'" and "proxies s' = proxies s" and "length (heap s') = length (heap s)"
    and "heap s' ! k = (if k = r then snd (proxy_start nt (heap s ! r)) else heap s ! k)"
    and "e = fst (proxy_start nt (heap s ! r))"
proof -
  have s': "s' = set_proxy r (snd (proxy_start nt (heap s ! r))) s"
    and e: "e = fst (proxy_start nt (heap s ! r))"
    using assms(3) by (simp_all add: Proxy_Start_def split_beta)
  have "px_Name (snd (proxy_start nt (heap s ! r))) = px_Name (heap s ! r)"
    using proxy_start_fields [OF surjective_pairing] by blast
  then show "api_ok s'"
    unfolding s' using assms(1,2) set_proxy_ok heap_ok_set_proxy heap_okD by (simp add: api_ok_def)
  show "proxies s' = proxies s" "length (heap s') = length (heap s)"
    "heap s' ! k = (if k = r then snd (proxy_start nt (heap s ! r)) else heap s ! k)"
    using assms(2) by (auto simp: s' set_proxy_def)
  show "e = fst (proxy_start nt (heap s ! r))" by (rule e)
qed

lemma started_enabled:
  "fst (proxy_start nt p) = None \<or> fst (proxy_start nt p) = Some ErrProxyAlreadyStarted
     \<Longrightarrow> px_Enabled (snd (proxy_start nt p))"
  by (auto simp: proxy_start_def proxy_listen_def ErrProxyAlreadyStarted_def split: if_splits sum.splits)

lemma start_error:
  "fst (proxy_start nt p) = Some e \<Longrightarrow> e \<noteq> ErrProxyAlreadyStarted
     \<Longrightarrow> \<not> px_Enabled p \<and> (\<exists>t. listen_packet nt (px_Listen p) = Inl t \<and> e = Other t)"
  by (auto simp: proxy_start_def proxy_listen_def split: if_splits sum.splits)

lemma reset_loop_result:
  assumes "api_ok s" and "\<forall>(n, r) \<in> set xs. r < length (heap s)" and "distinct (map snd xs)"
  shows "\<exists>e s'. reset_loop nt xs s = Some (e, s') \<and> api_ok s' \<and> proxies s' = proxies s
    \<and> length (heap s') = length (heap s)
    \<and> (\<forall>k. k \<notin> snd ` set xs \<longrightarrow> heap s' ! k = heap s ! k)
    \<and> (e = None \<longrightarrow> (\<forall>(n, r) \<in> set xs. px_Enabled (heap s' ! r) \<and> chains_of (heap s' ! r) = new_chains))
    \<and> (\<forall>x. e = Some x \<longrightarrow> (\<exists>(n, r) \<in> set xs. \<not> px_Enabled (heap s ! r)
          \<and> (\<exists>t. listen_packet nt (px_Listen (heap s ! r)) = Inl t \<and> x = Other t)))"
  using assms
proof (induction xs arbitrary: s)
  case (Cons x xs)
  obtain n r where x: "x = (n, r)" by (cases x)
  obtain e s1 where st: "Proxy_Start nt r s = (e, s1)" by (cases "Proxy_Start nt r s")
  have r: "r < length (heap s)" using Cons.prems(2) x by simp
  note k = Proxy_Start_api [OF Cons.prems(1) r st]
  show ?case
  proof (cases "e \<noteq> Some ErrProxyAlreadyStarted \<and> e \<noteq> None")
    case True
    then obtain y where y: "e = Some y" "y \<noteq> ErrProxyAlreadyStarted" by auto
    have "\<not> px_Enabled (heap s ! r) \<and> (\<exists>t. listen_packet nt (px_Listen (heap s ! r)) = Inl t \<and> y = Other t)"
      using start_error [of nt "heap s ! r" y] k(5) y by simp
    then show ?thesis using k(1-4) y x st by (auto simp: image_iff)
  next
    case False
    let ?c = "chains_of (heap s1 ! r)"
    let ?s2 = "set_chains r new_chains s1"
    have r1: "r < length (heap s1)" using r k(3) by simp
    have "chains_ok ?c" using heap_okD [OF api_ok_parts(2) [OF k(1)] r1] .
    then have step: "reset_loop nt (x # xs) s = reset_loop nt xs ?s2"
      using False st x ResetToxics_ends by auto
    have ok: "api_ok ?s2" by (rule set_chains_ok [OF k(1) r1 new_chains_ok])
    note at = set_chains_at(1) [OF r1, of new_chains] set_chains_at(2,3) [of r new_chains s1]
    have en: "px_Enabled (heap ?s2 ! r) \<and> chains_of (heap ?s2 ! r) = new_chains"
      using at(1) [of r] k(4) [of r] started_enabled [of nt "heap s ! r"] False k(5)
      by (auto simp: chains_of_def)
    have xs: "\<forall>(n, r) \<in> set xs. r < length (heap ?s2)" "distinct (map snd xs)" "r \<notin> snd ` set xs"
      using Cons.prems(2,3) at(3) k(3) x by auto
    have same: "q \<noteq> r \<Longrightarrow> heap ?s2 ! q = heap s ! q" for q using at(1) [of q] k(4) [of q] by simp
    obtain e' s' where IH: "reset_loop nt xs ?s2 = Some (e', s')" "api_ok s'" "proxies s' = proxies ?s2"
      "length (heap s') = length (heap ?s2)"
      "\<And>q. q \<notin> snd ` set xs \<Longrightarrow> heap s' ! q = heap ?s2 ! q"
      "e' = None \<Longrightarrow> \<forall>(n, r) \<in> set xs. px_Enabled (heap s' ! r) \<and> chains_of (heap s' ! r) = new_chains"
      "\<And>y. e' = Some y \<Longrightarrow> \<exists>(n, r) \<in> set xs. \<not> px_Enabled (heap ?s2 ! r)
          \<and> (\<exists>t. listen_packet nt (px_Listen (heap ?s2 ! r)) = Inl t \<and> y = Other t)"
      using Cons.IH [OF ok xs(1,2)] by blast
    have rest: "heap s' ! q = heap s ! q" if "q \<notin> snd ` set (x # xs)" for q
      using that IH(5) [of q] same [of q] x by auto
    have done_: "\<forall>(n, q) \<in> set (x # xs). px_Enabled (heap s' ! q) \<and> chains_of (heap s' ! q) = new_chains"
      if "e' = None" using IH(6) [OF that] IH(5) [OF xs(3)] en x by auto
    have failed: "\<exists>(n, q) \<in> set (x # xs). \<not> px_Enabled (heap s ! q)
          \<and> (\<exists>t. listen_packet nt (px_Listen (heap s ! q)) = Inl t \<and> y = Other t)" if y: "e' = Some y" for y
    proof -
      obtain m q where mq: "(m, q) \<in> set xs" "\<not> px_Enabled (heap ?s2 ! q)"
        "\<exists>t. listen_packet nt (px_Listen (heap ?s2 ! q)) = Inl t \<and> y = Other t"
        using IH(7) [OF y] by blast
      then have "q \<noteq> r" using xs(3) by force
      with mq same [of q] show ?thesis by auto
    qed
    have "proxies s' = proxies s" "length (heap s') = length (heap s)" using IH(3,4) at(2,3) k(2,3) by simp_all
    note heap' = this
    show ?thesis
    proof (intro exI conjI)
      show "reset_loop nt (x # xs) s = Some (e', s')" using step IH(1) by simp
      show "\<forall>k. k \<notin> snd ` set (x # xs) \<longrightarrow> heap s' ! k = heap s ! k" using rest by blast
      show "e' = None \<longrightarrow> (\<forall>(n, r) \<in> set (x # xs). px_Enabled (heap s' ! r) \<and> chains_of (heap s' ! r) = new_chains)"
        using done_ by blast
      show "\<forall>y. e' = Some y \<longrightarrow> (\<exists>(n, r) \<in> set (x # xs). \<not> px_Enabled (heap s ! r)
          \<and> (\<exists>t. listen_packet nt (px_Listen (heap s ! r)) = Inl t \<and> y = Other t))"
        using failed by blast
    qed (use IH(2) heap' in simp_all)
  qed
qed simp

subsection \<open>Answers\<close>

lemma start_status: "fst (proxy_start nt p) = Some e \<Longrightarrow> error_status e = 500"
  by (auto simp: proxy_start_def proxy_listen_def ErrProxyAlreadyStarted_def split: if_splits sum.splits)

lemma Add_status: "pc_Add nt r st s = (Some e, s') \<Longrightarrow> error_status e = 409 \<or> error_status e = 500"
  using start_status [of nt "heap s ! r" e]
  by (auto simp: pc_Add_def start_case Proxy_Start_def api_error_defs split_beta
      split: if_splits option.splits)

lemma AddOrReplace_status: "AddOrReplace nt r st s = (Some e, s') \<Longrightarrow> error_status e = 500"
  by (auto simp: AddOrReplace_def Let_def start_case Proxy_Start_def split_beta
      split: if_splits option.splits intro: start_status)

lemma populate_status: "populate nt xs s = (rs, Some e, s') \<Longrightarrow> error_status e = 500"
  by (induction xs arbitrary: s rs s') (auto split: prod.splits option.splits dest: AddOrReplace_status)

lemma refused_simps [simp]:
  "rs_Status (refused e) = StatusCode e" "rs_Type (refused e) = ''text/plain; charset=utf-8''"
  by (simp_all add: refused_def apiError_def http_Error_def)

lemma bad_body_status [simp]: "rs_Status (bad_body t) = 400" "rs_Status (missing f) = 400"
  by (simp_all add: bad_body_def missing_def joinError_def api_error_defs)

lemma plain_answers [simp]:
  "rs_Type (bad_body t) = ''text/plain; charset=utf-8''" "rs_Type (missing f) = ''text/plain; charset=utf-8''"
  by (simp_all add: bad_body_def missing_def)

lemma answer_simps [simp]:
  "rs_Status (json_answer n j) = n" "rs_Body (json_answer n j) = JsonBody j" "rs_Status no_content = 204"
  "rs_Body no_content = NoBody"
  by (simp_all add: json_answer_def no_content_def)

lemma apiError_simps [simp]:
  "apiError None = None"
  "apiError (Some e) = Some (http_Error (JsonBody (JObj (encode_error (error_text e) (error_status e)))) (error_status e))"
  "rs_Status (http_Error b n) = n" "rs_Type (http_Error b n) = ''text/plain; charset=utf-8''" "rs_Body (http_Error b n) = b"
  by (simp_all add: apiError_def http_Error_def)

definition known_status :: "nat \<Rightarrow> bool" where
  "known_status n \<longleftrightarrow> n \<in> {200, 201, 204, 400, 403, 404, 405, 409, 500, 503}"

lemma AddToxic_refused: "AddToxic w chain = Fine (Inl e, chain') \<Longrightarrow> chain' = chain \<and> StatusCode e = 409"
  by (auto simp: AddToxic_def Let_def api_error_defs split: if_splits prod.splits)

lemma AddToxicJson_refused:
  assumes "AddToxicJson reg txt body chain = Fine (Inl e, chain')"
  shows "chain' = chain \<and> (StatusCode e = 400 \<or> StatusCode e = 409)"
  using assms by (cases rule: AddToxicJson_cases)
    (auto simp: joinError_def api_error_defs dest: AddToxic_refused [OF sym])

lemma set_chains_same: "r < length (heap s) \<Longrightarrow> set_chains r (chains_of (heap s ! r)) s = s"
  by (simp add: set_chains_def set_proxy_def chains_of_def)

text \<open>What every handler does: it answers, with a known status, and keeps the invariant.\<close>

definition answers :: "(response \<times> ProxyCollection) option \<Rightarrow> bool" where
  "answers r = (case r of None \<Rightarrow> False | Some (a, s) \<Rightarrow> known_status (rs_Status a) \<and> api_ok s)"

lemma answers_Some [simp]: "answers (Some (a, s)) \<longleftrightarrow> known_status (rs_Status a) \<and> api_ok s"
  by (simp add: answers_def)

lemma known_statuses [simp]:
  "known_status 200" "known_status 201" "known_status 204" "known_status 400" "known_status 403" "known_status 404"
  "known_status 405" "known_status 409" "known_status 500" "known_status 503"
  by (simp_all add: known_status_def)

lemma known_not_found [simp]: "known_status (StatusCode ErrProxyNotFound)" "known_status (StatusCode ErrToxicNotFound)"
  by (simp_all add: api_error_defs)

lemma with_proxy_answers:
  assumes "api_ok s" and "\<And>r. r < length (heap s) \<Longrightarrow> chains_ok (chains_of (heap s ! r)) \<Longrightarrow> answers (f r)"
  shows "answers (with_proxy name s f)"
  using assms pcoll_okD(1) [of s name] heap_okD [of s]
  by (auto simp: with_proxy_def pc_Get_def getByName_def api_ok_def split: option.splits)

lemma ResetState_effect:
  assumes "api_ok s" and "mset order = mset (pc_Proxies s)"
  shows "\<exists>a s'. ResetState nt order s = Some (a, s') \<and> api_ok s' \<and> proxies s' = proxies s
    \<and> (a = no_content \<and> (\<forall>(n, r) \<in> set (proxies s). px_Enabled (heap s' ! r) \<and> chains_of (heap s' ! r) = new_chains)
      \<or> rs_Status a = 500 \<and> (\<exists>(n, r) \<in> set (proxies s). \<not> px_Enabled (heap s ! r)
          \<and> (\<exists>t. listen_packet nt (px_Listen (heap s ! r)) = Inl t)))"
proof -
  have o: "set order = set (proxies s)" using mset_eq_setD [OF assms(2)] by (simp add: pc_Proxies_def)
  have "mset (map snd order) = mset (map snd (proxies s))" using assms(2) by (simp add: pc_Proxies_def)
  then have d: "distinct (map snd order)"
    using mset_eq_imp_distinct_iff assms(1) unfolding api_ok_def pcoll_ok_def by blast
  have k: "\<forall>(n, r) \<in> set order. r < length (heap s)"
    using assms(1) o by (auto simp: api_ok_def pcoll_ok_def)
  obtain e s' where r: "reset_loop nt order s = Some (e, s')" "api_ok s'" "proxies s' = proxies s"
    and good: "e = None \<longrightarrow> (\<forall>(n, r) \<in> set order. px_Enabled (heap s' ! r) \<and> chains_of (heap s' ! r) = new_chains)"
    and bad: "\<forall>x. e = Some x \<longrightarrow> (\<exists>(n, r) \<in> set order. \<not> px_Enabled (heap s ! r)
          \<and> (\<exists>t. listen_packet nt (px_Listen (heap s ! r)) = Inl t \<and> x = Other t))"
    using reset_loop_result [OF assms(1) k d, of nt] by blast
  show ?thesis
  proof (cases e)
    case None
    with r good o show ?thesis by (simp add: ResetState_def)
  next
    case (Some x)
    with bad o obtain n q t where q: "(n, q) \<in> set (proxies s)" "\<not> px_Enabled (heap s ! q)"
      "listen_packet nt (px_Listen (heap s ! q)) = Inl t" "x = Other t" by blast
    from Some r q(4) have "ResetState nt order s = Some (http_Error (JsonBody (JObj (encode_error t 500))) 500, s')"
      by (simp add: ResetState_def)
    with r q show ?thesis by fastforce
  qed
qed

lemma ResetState_answers:
  assumes "api_ok s" and "mset order = mset (pc_Proxies s)"
  shows "answers (ResetState nt order s)"
  using ResetState_effect [OF assms, of nt] by auto

lemma ProxyCreate_answers: "api_ok s \<Longrightarrow> answers (ProxyCreate nt rq s)"
proof -
  assume ok: "api_ok s"
  have "known_status (rs_Status a) \<and> api_ok s2"
    if "alloc_proxy (NewProxy n l u) s = (r, s1)" "pc_Add nt r st s1 = (err, s2)"
      "a = (case apiError err of Some a \<Rightarrow> a | None \<Rightarrow> json_answer 201 j)" for n l u r s1 st err s2 a j
  proof -
    have "api_ok s2" using api_ok_alloc [OF ok that(1)] api_ok_Add [of s1 r nt st] that(2) by simp
    moreover have "known_status (rs_Status a)"
      using that(3) Add_status [of nt r st s1 _ s2] that(2) by (cases err) (auto simp: known_status_def)
    ultimately show ?thesis by simp
  qed
  from this [OF _ _ refl] ok show ?thesis
    by (fastforce simp: ProxyCreate_def split: option.splits prod.splits)
qed

lemma PopulateJson_status:
  "PopulateJson nt txt body s = (rs, Some e, s') \<Longrightarrow> error_status e = 400 \<or> error_status e = 500"
  by (auto simp: PopulateJson_def Let_def joinError_def api_error_defs
      split: option.splits prod.splits if_splits dest: populate_status)

lemma api_ok_PopulateJson:
  assumes "api_ok s" and "PopulateJson nt tx body s = (rs, err, s')"
  shows "api_ok s'"
  using assms(2) assms(1) api_ok_populate [OF assms(1), of nt _ rs err s']
  by (auto simp: PopulateJson_def Let_def split: option.splits prod.splits if_splits)

lemma Populate_answers: "api_ok s \<Longrightarrow> answers (Populate nt rq s)"
proof -
  assume ok: "api_ok s"
  obtain rs err s' where p: "PopulateJson nt (rq_Text rq) (rq_Body rq) s = (rs, err, s')" by (metis prod_cases3)
  have "api_ok s'" by (rule api_ok_PopulateJson [OF ok p])
  then show ?thesis using p PopulateJson_status [of nt "rq_Text rq" "rq_Body rq" s rs _ s']
    by (auto simp: Populate_def Let_def known_status_def split: option.splits)
qed

lemma ProxyUpdate_answers: "api_ok s \<Longrightarrow> answers (ProxyUpdate nt name rq s)"
  unfolding ProxyUpdate_def Let_def
proof (rule with_proxy_answers, assumption)
  fix r
  assume ok: "api_ok s" "r < length (heap s)" "chains_ok (chains_of (heap s ! r))"
  let ?p = "heap s ! r"
  have up: "known_status (rs_Status a) \<and> api_ok (set_proxy r p' s)"
    if "Proxy_Update nt i ?p = (err, p')" "a = (case apiError err of Some a \<Rightarrow> a | None \<Rightarrow> json_answer 200 j)"
    for i err p' a j
  proof -
    have "chains_of p' = chains_of ?p" using chains_same(3) [of nt i ?p] that(1) by simp
    moreover have "px_Name p' = px_Name ?p"
      using that(1) proxy_start_fields [of nt]
      by (auto simp: Proxy_Update_def Let_def split: if_splits dest!: proxy_start_fields)
    moreover have "error_status e = 500" if "err = Some e" for e
      using \<open>Proxy_Update nt i ?p = (err, p')\<close> that start_status [of nt]
      by (auto simp: Proxy_Update_def Let_def split: if_splits dest!: arg_cong [of _ _ fst])
    ultimately show ?thesis
      using that(2) ok set_proxy_ok [of s r p'] heap_ok_set_proxy [of s p' r]
      by (cases err) (auto simp: api_ok_def)
  qed
  from up [OF _ refl] ok
  show "answers (Some (case rq_Body rq of None \<Rightarrow> (bad_body (rq_Text rq), s)
      | Some j \<Rightarrow> (case decode_struct proxy_field j ((NewProxy [] (px_Listen ?p) (px_Upstream ?p))\<lparr>px_Enabled := px_Enabled ?p\<rparr>) of
          (input, e) \<Rightarrow> if e then (bad_body (rq_Text rq), s)
            else (case Proxy_Update nt input ?p of (err, p') \<Rightarrow>
              (case apiError err of Some a \<Rightarrow> (a, set_proxy r p' s)
               | None \<Rightarrow> (json_answer 200 (proxyWithToxics p'), set_proxy r p' s))))))"
    by (fastforce split: option.splits prod.splits)
qed

lemma ProxyDelete_answers: "api_ok s \<Longrightarrow> answers (ProxyDelete name s)"
proof (cases "map_of (proxies s) name")
  case (Some r)
  assume ok: "api_ok s"
  have "heap_ok (drop_proxy r s)"
    using heap_ok_Stop [of s r] ok pcoll_okD(1) [OF _ Some]
    by (simp add: drop_proxy_def Let_def heap_ok_def api_ok_def)
  then show ?thesis
    using drop_ok(1) [OF _ Some] ok Some by (simp add: ProxyDelete_def pc_Remove_def getByName_def api_ok_def)
qed (simp add: ProxyDelete_def pc_Remove_def getByName_def)

lemma ToxicCreate_answers: "api_ok s \<Longrightarrow> answers (ToxicCreate reg name rq s)"
  unfolding ToxicCreate_def
proof (rule with_proxy_answers, assumption)
  fix r
  assume ok: "api_ok s" "r < length (heap s)" "chains_ok (chains_of (heap s ! r))"
  from AddToxicJson_effect [OF ok(3) refl, of reg "rq_Text rq" "rq_Body rq"] ok
  show "answers (case AddToxicJson reg (rq_Text rq) (rq_Body rq) (chains_of (heap s ! r)) of Crash \<Rightarrow> None
      | Fine (Inl e, chain) \<Rightarrow> Some (refused e, set_chains r chain s)
      | Fine (Inr w, chain) \<Rightarrow> Some (json_answer 200 (encode_wrapper w), set_chains r chain s))"
    by (elim disjE exE conjE) (auto simp: set_chains_same set_chains_ok)
qed

lemma UpdateToxicJson_status:
  "UpdateToxicJson txt t body chain = (Inl e, chain') \<Longrightarrow> StatusCode e = 400 \<or> StatusCode e = 404 \<and> chain' = chain"
  by (erule UpdateToxicJson_cases) (auto simp: joinError_def api_error_defs)

lemma ToxicUpdate_answers: "api_ok s \<Longrightarrow> answers (ToxicUpdate name t rq s)"
  unfolding ToxicUpdate_def
proof (rule with_proxy_answers, assumption)
  fix r
  assume ok: "api_ok s" "r < length (heap s)" "chains_ok (chains_of (heap s ! r))"
  obtain x chain where u: "UpdateToxicJson (rq_Text rq) t (rq_Body rq) (chains_of (heap s ! r)) = (x, chain)"
    by (cases "UpdateToxicJson (rq_Text rq) t (rq_Body rq) (chains_of (heap s ! r))")
  have "chains_ok chain" using UpdateToxicJson_effect [OF ok(3) u] by blast
  with u ok show "answers (case UpdateToxicJson (rq_Text rq) t (rq_Body rq) (chains_of (heap s ! r)) of
        (Inl e, chain) \<Rightarrow> Some (refused e, set_chains r chain s)
      | (Inr w, chain) \<Rightarrow> Some (json_answer 200 (encode_wrapper w), set_chains r chain s))"
    using UpdateToxicJson_status [of "rq_Text rq" t "rq_Body rq" _ _ chain]
    by (cases x) (auto simp: set_chains_ok known_status_def)
qed

lemma ToxicDelete_answers: "api_ok s \<Longrightarrow> answers (ToxicDelete name t s)"
  unfolding ToxicDelete_def
proof (rule with_proxy_answers, assumption)
  fix r
  assume ok: "api_ok s" "r < length (heap s)" "chains_ok (chains_of (heap s ! r))"
  obtain x chain where u: "RemoveToxic t (chains_of (heap s ! r)) = (x, chain)"
    by (cases "RemoveToxic t (chains_of (heap s ! r))")
  with RemoveToxic_effect [OF ok(3), of t] ok
  show "answers (case RemoveToxic t (chains_of (heap s ! r)) of
        (Some e, chain) \<Rightarrow> Some (refused e, s) | (None, chain) \<Rightarrow> Some (no_content, set_chains r chain s))"
    by (cases x) (auto simp: set_chains_ok split: if_splits)
qed

lemma dispatch_answers:
  assumes "api_ok s" and "\<And>xs. mset (ae_order ae xs) = mset xs"
  shows "answers (dispatch ae rq h s)"
  using assms(1) ResetState_answers [OF assms(1,2)]
  by (cases h) (simp_all add: ProxyIndex_def ProxyShow_def ToxicIndex_def ToxicShow_def Version_def ProxyCreate_answers
      Populate_answers ProxyUpdate_answers ProxyDelete_answers ToxicCreate_answers ToxicUpdate_answers
      ToxicDelete_answers with_proxy_answers split: option.split)

lemma serve_answers:
  assumes "api_ok s" and "\<And>xs. mset (ae_order ae xs) = mset xs"
  shows "answers (serve ae rq s)"
proof (cases "find_route (ae_metrics ae) (rq_Method rq) (rq_Path rq)")
  case (Inl n)
  then have "n = 404 \<or> n = 405" by (auto simp: find_route_def split: option.splits if_splits)
  with Inl assms(1) show ?thesis by (auto simp: serve_def)
next
  case (Inr h)
  obtain a s' where "dispatch ae rq h s = Some (a, s')" "known_status (rs_Status a)" "api_ok s'"
    using dispatch_answers [OF assms, of rq h] by (auto simp: answers_def split: option.splits)
  with Inr assms(1) show ?thesis by (simp add: serve_def stopBrowsersMiddleware_def timeoutMiddleware_def)
qed

text \<open>A sequence of requests, with the environment of each.\<close>

fun api_run :: "(api_env \<times> request) list \<Rightarrow> ProxyCollection \<Rightarrow> (response list \<times> ProxyCollection) option" where
  "api_run [] s = Some ([], s)"
| "api_run ((ae, rq) # rqs) s = (case serve ae rq s of
       None \<Rightarrow> None
     | Some (a, s') \<Rightarrow> map_option (map_prod ((#) a) id) (api_run rqs s'))"

lemma api_run_answers:
  "api_ok s \<Longrightarrow> \<forall>(ae, rq) \<in> set rqs. \<forall>xs. mset (ae_order ae xs) = mset xs \<Longrightarrow>
     \<exists>as s'. api_run rqs s = Some (as, s') \<and> length as = length rqs \<and> list_all (\<lambda>a. known_status (rs_Status a)) as \<and> api_ok s'"
proof (induction rqs arbitrary: s)
  case (Cons x rqs)
  obtain ae rq where x: "x = (ae, rq)" by (cases x)
  have "answers (serve ae rq s)" using serve_answers [OF Cons.prems(1)] Cons.prems(2) x by simp
  then obtain a s1 where s1: "serve ae rq s = Some (a, s1)" "known_status (rs_Status a)" "api_ok s1"
    by (auto simp: answers_def split: option.splits)
  obtain as s' where "api_run rqs s1 = Some (as, s')" "length as = length rqs"
    "list_all (\<lambda>a. known_status (rs_Status a)) as" "api_ok s'"
    using Cons.IH [OF s1(3)] Cons.prems(2) by auto
  with s1 x show ?case by simp
qed simp

text \<open>C11: Every sequence of requests to a new server is answered, each with a status the program
  documents, and at the end every name still belongs to one proxy with well-formed chains: the
  handlers' own code neither panics nor loops, whatever the requests are and whatever the
  operating system does. (The waits of a request for running links, and for a server
  goroutine that is blocked, are those of \<open>CollectionRun\<close> and \<open>ProxyFlow\<close>.)\<close>

theorem server_always_answers:
  assumes "\<forall>(ae, rq) \<in> set rqs. \<forall>xs. mset (ae_order ae xs) = mset xs"
  shows "\<exists>as s'. api_run rqs NewProxyCollection = Some (as, s') \<and> length as = length rqs
    \<and> list_all (\<lambda>a. known_status (rs_Status a)) as \<and> api_ok s'"
  by (rule api_run_answers [OF api_ok_new assms])

subsection \<open>Which requests change something\<close>

lemma with_proxy_Some:
  assumes "with_proxy name s f = Some (a, s')"
  obtains (unknown) "pc_Get name s = Inl ErrProxyNotFound" "a = refused ErrProxyNotFound" "s' = s"
  | (known) r where "map_of (proxies s) name = Some r" "f r = Some (a, s')"
  using assms by (auto simp: with_proxy_def pc_Get_def getByName_def split: option.splits)

lemma find_route_GET:
  "find_route m GET path = Inr h \<Longrightarrow> h \<in> {HProxyIndex, HVersion, HMetrics}
     \<or> (\<exists>p t. h \<in> {HProxyShow p, HToxicIndex p, HToxicShow p t})"
  by (auto simp: find_route_def routes_def split: list.splits if_splits option.splits)

lemma dispatch_GET:
  assumes "find_route m GET path = Inr h" and "dispatch ae rq h s = Some (a, s')"
  shows "s' = s"
  using find_route_GET [OF assms(1)] assms(2)
  by (auto simp: ProxyIndex_def Version_def ProxyShow_def ToxicIndex_def ToxicShow_def
      elim!: with_proxy_Some split: option.splits)

lemma apiError_status: "apiError err = Some a \<Longrightarrow> \<exists>e. err = Some e \<and> rs_Status a = error_status e"
  by (cases err) auto

lemma Update_status: "Proxy_Update nt i p = (Some e, p') \<Longrightarrow> error_status e = 500"
  by (auto simp: Proxy_Update_def Let_def split: if_splits dest!: arg_cong [of _ _ fst] intro: start_status)

lemma dispatch_not_found:
  assumes "dispatch ae rq h s = Some (a, s')" and "rs_Status a \<in> {403, 404, 405}" and "api_ok s"
    and "\<And>xs. mset (ae_order ae xs) = mset xs"
  shows "s' = s"
proof (cases h)
  case HResetState
  with assms ResetState_effect [OF assms(3,4), of "ae_net ae"] show ?thesis by auto
next
  case HProxyCreate
  with assms(1,2) show ?thesis
    by (auto simp: ProxyCreate_def split: option.splits prod.splits if_splits dest!: apiError_status Add_status)
next
  case HPopulate
  obtain rs err t where p: "PopulateJson (ae_net ae) (rq_Text rq) (rq_Body rq) s = (rs, err, t)" by (metis prod_cases3)
  with PopulateJson_status [of "ae_net ae" "rq_Text rq" "rq_Body rq" s rs _ t] HPopulate assms(1,2) show ?thesis
    by (cases err) (auto simp: Populate_def Let_def)
next
  case (HProxyUpdate n)
  with assms(1,2) show ?thesis
    by (auto simp: ProxyUpdate_def Let_def elim!: with_proxy_Some
        split: option.splits prod.splits if_splits dest!: apiError_status Update_status)
next
  case (HProxyDelete n)
  with assms(1,2) show ?thesis
    by (auto simp: ProxyDelete_def pc_Remove_def split: sum.splits)
next
  case (HToxicCreate n)
  with assms(1) have "ToxicCreate (ae_registry ae) n rq s = Some (a, s')" by simp
  then show ?thesis unfolding ToxicCreate_def
  proof (cases rule: with_proxy_Some)
    case (known r)
    then show ?thesis using assms(2)
      by (auto split: outcome.splits prod.splits sum.splits dest: AddToxicJson_refused)
  qed
next
  case (HToxicUpdate n t)
  with assms(1) have "ToxicUpdate n t rq s = Some (a, s')" by simp
  then show ?thesis unfolding ToxicUpdate_def
  proof (cases rule: with_proxy_Some)
    case (known r)
    have "r < length (heap s)" using pcoll_okD(1) [OF api_ok_parts(1) [OF assms(3)] known(1)] .
    with known assms(2) show ?thesis
      by (auto split: prod.splits sum.splits dest!: UpdateToxicJson_status simp: set_chains_same)
  qed
next
  case (HToxicDelete n t)
  with assms(1) have "ToxicDelete n t s = Some (a, s')" by simp
  then show ?thesis unfolding ToxicDelete_def
    by (cases rule: with_proxy_Some) (use assms(2) in \<open>auto split: prod.splits option.splits\<close>)
qed (use assms(1) in \<open>auto simp: ProxyIndex_def Version_def ProxyShow_def ToxicIndex_def ToxicShow_def
      elim!: with_proxy_Some split: option.splits\<close>)

text \<open>C35: A GET request, a request of a browser, and every request answered with 403, 404 or 405
  leave the state exactly as it was; the answer to a browser is 403 unless there is no
  such route.\<close>

theorem harmless_requests:
  assumes "api_ok s" and "\<And>xs. mset (ae_order ae xs) = mset xs" and "serve ae rq s = Some (a, s')"
    and "rq_Method rq = GET \<or> prefix ''Mozilla/'' (rq_UserAgent rq) \<or> rs_Status a \<in> {403, 404, 405}"
  shows "s' = s \<and> (prefix ''Mozilla/'' (rq_UserAgent rq) \<longrightarrow> rs_Status a \<in> {403, 404, 405})"
proof (cases "find_route (ae_metrics ae) (rq_Method rq) (rq_Path rq)")
  case (Inl n)
  then have "n = 404 \<or> n = 405" by (auto simp: find_route_def split: option.splits if_splits)
  with Inl assms(3) show ?thesis by (auto simp: serve_def)
next
  case (Inr h)
  show ?thesis
  proof (cases "prefix ''Mozilla/'' (rq_UserAgent rq)")
    case True
    with Inr assms(3) show ?thesis by (auto simp: serve_def stopBrowsersMiddleware_def)
  next
    case False
    obtain b t where d: "dispatch ae rq h s = Some (b, t)" "known_status (rs_Status b)"
      using dispatch_answers [OF assms(1,2), of rq h] by (auto simp: answers_def split: option.splits)
    have at: "s' = t" "a = b \<or> rs_Status a = 503"
      using False Inr d assms(3) by (auto simp: serve_def stopBrowsersMiddleware_def timeoutMiddleware_def split: if_splits)
    from assms(4) False consider "rq_Method rq = GET" | "rs_Status b \<in> {403, 404, 405}" using at(2) by auto
    then have "t = s"
    proof cases
      case 1
      with Inr dispatch_GET d(1) show ?thesis by metis
    next
      case 2
      show ?thesis by (rule dispatch_not_found [OF d(1) 2 assms(1,2)])
    qed
    with at False show ?thesis by simp
  qed
qed

subsection \<open>Resetting\<close>

text \<open>C36: A reset answered with 204 leaves every proxy enabled and without toxics; otherwise it is
  answered with 500, because some disabled proxy could not listen. It never adds, removes
  or renames a proxy.\<close>

theorem ResetState_result:
  assumes "api_ok s" and "mset order = mset (pc_Proxies s)" and "ResetState nt order s = Some (a, s')"
  shows "(\<forall>n. lookup_proxy n s' = None \<longleftrightarrow> lookup_proxy n s = None)
    \<and> (rs_Status a = 204 \<longrightarrow> (\<forall>n p. lookup_proxy n s' = Some p \<longrightarrow> px_Enabled p \<and> chains_of p = new_chains))
    \<and> (rs_Status a \<noteq> 204 \<longrightarrow> rs_Status a = 500 \<and> (\<exists>n p t. lookup_proxy n s = Some p \<and> \<not> px_Enabled p
          \<and> listen_packet nt (px_Listen p) = Inl t))"
proof -
  have eq: "proxies s' = proxies s"
    and c: "a = no_content \<and> (\<forall>(n, r) \<in> set (proxies s). px_Enabled (heap s' ! r) \<and> chains_of (heap s' ! r) = new_chains)
      \<or> rs_Status a = 500 \<and> (\<exists>(n, r) \<in> set (proxies s). \<not> px_Enabled (heap s ! r)
          \<and> (\<exists>t. listen_packet nt (px_Listen (heap s ! r)) = Inl t))"
    using ResetState_effect [OF assms(1,2), of nt] assms(3) by auto
  have d: "distinct (map fst (proxies s))" using assms(1) by (simp add: api_ok_def pcoll_ok_def)
  from c show ?thesis
  proof (elim disjE conjE)
    assume "a = no_content"
      and all: "\<forall>(n, r) \<in> set (proxies s). px_Enabled (heap s' ! r) \<and> chains_of (heap s' ! r) = new_chains"
    moreover have "px_Enabled p \<and> chains_of p = new_chains" if l: "lookup_proxy n s' = Some p" for n p
    proof -
      obtain r where r: "map_of (proxies s) n = Some r" "p = heap s' ! r" using l eq by (auto simp: lookup_proxy_def)
      from map_of_SomeD [OF r(1)] all r(2) show ?thesis by auto
    qed
    ultimately show ?thesis using eq by (simp add: lookup_proxy_def)
  next
    assume st: "rs_Status a = 500" and "\<exists>(n, r) \<in> set (proxies s). \<not> px_Enabled (heap s ! r)
          \<and> (\<exists>t. listen_packet nt (px_Listen (heap s ! r)) = Inl t)"
    then obtain n r t where "(n, r) \<in> set (proxies s)" "\<not> px_Enabled (heap s ! r)"
      "listen_packet nt (px_Listen (heap s ! r)) = Inl t" by blast
    then have "lookup_proxy n s = Some (heap s ! r)" "\<not> px_Enabled (heap s ! r)"
      "listen_packet nt (px_Listen (heap s ! r)) = Inl t"
      using d by (simp_all add: lookup_proxy_def)
    with st eq show ?thesis by (auto simp: lookup_proxy_def)
  qed
qed

subsection \<open>What has been created is shown, until it is deleted\<close>

lemma lookup_Some:
  assumes "lookup_proxy n s = Some p"
  obtains r where "map_of (proxies s) n = Some r" "heap s ! r = p"
  using assms by (auto simp: lookup_proxy_def)

lemma ProxyShow_known: "lookup_proxy n s = Some p \<Longrightarrow> ProxyShow n s = Some (json_answer 200 (proxyWithToxics p), s)"
  by (auto elim!: lookup_Some simp: ProxyShow_def with_proxy_def pc_Get_def getByName_def)

lemma ProxyShow_unknown: "lookup_proxy n s = None \<Longrightarrow> ProxyShow n s = Some (refused ErrProxyNotFound, s)"
  by (simp add: lookup_none ProxyShow_def with_proxy_def pc_Get_def getByName_def)

lemma ProxyDelete_known:
  assumes "pcoll_ok s" and "lookup_proxy n s = Some p"
  shows "\<exists>t. ProxyDelete n s = Some (no_content, t) \<and> (\<forall>m. lookup_proxy m t = (if m = n then None else lookup_proxy m s))"
proof -
  obtain r where r: "map_of (proxies s) n = Some r" using assms(2) by (auto elim: lookup_Some)
  with drop_ok(3) [OF assms(1) r] show ?thesis by (simp add: ProxyDelete_def pc_Remove_def getByName_def)
qed

text \<open>C37: A proxy that has been created (status 201) had a free name; showing it gives the body of
  that answer, with no toxics in it; deleting it is answered with 204, then it
  is not found, and every other proxy is as it was before the creation.\<close>

theorem created_proxy_is_shown:
  assumes "api_ok s" and "ProxyCreate nt rq s = Some (a, s')" and "rs_Status a = 201"
  shows "\<exists>p s2. rs_Body a = JsonBody (proxyWithToxics p) \<and> chains_of p = new_chains
    \<and> lookup_proxy (px_Name p) s = None
    \<and> ProxyShow (px_Name p) s' = Some (json_answer 200 (proxyWithToxics p), s')
    \<and> ProxyDelete (px_Name p) s' = Some (no_content, s2)
    \<and> ProxyShow (px_Name p) s2 = Some (refused ErrProxyNotFound, s2)
    \<and> (\<forall>m. lookup_proxy m s2 = lookup_proxy m s)"
proof -
  obtain n l u r s1 st err where a: "alloc_proxy (NewProxy n l u) s = (r, s1)" and add: "pc_Add nt r st s1 = (err, s')"
    and ans: "a = (case apiError err of Some a \<Rightarrow> a | None \<Rightarrow> json_answer 201 (proxyWithToxics (heap s' ! r)))"
    using assms(2,3) by (auto simp: ProxyCreate_def split: option.splits prod.splits if_splits)
  have err: "err = None" using ans assms(3) Add_status [of nt r st s1 _ s'] add by (cases err) auto
  note ok = api_ok_parts(1) [OF assms(1)]
  note k = alloc_fresh [OF ok a]
  have n: "px_Name (heap s1 ! r) = n" by (simp add: k(3) NewProxy_def)
  have free: "map_of (proxies s1) n = None" using add err n by (auto simp: pc_Add_def split: if_splits)
  have r: "(if st then (case Proxy_Start nt r s1 of (Some e, s') \<Rightarrow> (Some e, s') | (None, s') \<Rightarrow> (None, enter r s'))
      else (None, enter r s1)) = (None, s')" using add err free n by (simp add: pc_Add_def)
  let ?p = "if st then snd (proxy_start nt (heap s1 ! r)) else heap s1 ! r"
  have l': "lookup_proxy m s' = (if m = n then Some ?p else lookup_proxy m s)" for m
    using add_result(3) [OF k(1,2) r, of m] n k(5) by simp
  have p: "px_Name ?p = n" using n proxy_start_fields [OF surjective_pairing, of nt "heap s1 ! r"] by simp
  have "chains_of (heap s1 ! r) = new_chains" by (simp add: k(3) chains_of_def NewProxy_def NewToxicCollection_def)
  then have c: "chains_of ?p = new_chains" by simp
  have hp: "heap s' ! r = ?p"
    using r start_ok'(5) [OF k(1,2) surjective_pairing, of nt] by (auto simp: start_case enter_def split: if_splits)
  have "lookup_proxy n s = None" using free k(4) by (simp add: lookup_none)
  moreover obtain t where "ProxyDelete n s' = Some (no_content, t)"
    "\<forall>m. lookup_proxy m t = (if m = n then None else lookup_proxy m s')"
    using ProxyDelete_known [of s' n ?p] l' [of n] add_result(1) [OF k(1,2) r] by auto
  moreover have "rs_Body a = JsonBody (proxyWithToxics ?p)" using ans err hp by simp
  ultimately show ?thesis
    using ProxyShow_known [of n s' ?p] ProxyShow_unknown [of n t] l' p c by (intro exI [of _ ?p] exI [of _ t]) auto
qed

lemma encode_view: "view_toxic v = view_toxic w \<Longrightarrow> encode_wrapper v = encode_wrapper w"
  by (simp add: view_toxic_def encode_wrapper_def)

lemma set_chains_handlers:
  assumes "map_of (proxies s) name = Some r" and "r < length (heap s)"
  shows "ToxicShow name t (set_chains r chain s) = Some (case findToxicByName t chain of
           None \<Rightarrow> (refused ErrToxicNotFound, set_chains r chain s)
         | Some w \<Rightarrow> (json_answer 200 (encode_wrapper w), set_chains r chain s))"
    and "fst (RemoveToxic t chain) = None \<Longrightarrow> ToxicDelete name t (set_chains r chain s)
         = Some (no_content, set_chains r (snd (RemoveToxic t chain)) s)"
proof -
  have c: "chains_of (heap (set_chains r chain s) ! r) = chain" for chain
    using set_chains_at(1) [OF assms(2)] by (simp add: chains_of_def)
  have g: "pc_Get name (set_chains r chain s) = Inr r" for chain
    using assms(1) by (simp add: pc_Get_def getByName_def set_chains_at(2))
  show "ToxicShow name t (set_chains r chain s) = Some (case findToxicByName t chain of
           None \<Rightarrow> (refused ErrToxicNotFound, set_chains r chain s)
         | Some w \<Rightarrow> (json_answer 200 (encode_wrapper w), set_chains r chain s))"
    by (simp add: ToxicShow_def with_proxy_def g c split: option.split)
  have "set_chains r c2 (set_chains r chain s) = set_chains r c2 s" for c2
    using set_chains_at(1) [OF assms(2), of chain r] by (simp add: set_chains_def set_proxy_def)
  then show "fst (RemoveToxic t chain) = None \<Longrightarrow> ToxicDelete name t (set_chains r chain s)
         = Some (no_content, set_chains r (snd (RemoveToxic t chain)) s)"
    by (cases "RemoveToxic t chain") (simp add: ToxicDelete_def with_proxy_def g c)
qed

text \<open>A toxic that has been created (status 200) had a free name; showing it by that name gives
  the body of that answer; deleting it is answered with 204, and then it is not found.\<close>

theorem created_toxic_is_shown:
  assumes "api_ok s" and "ToxicCreate reg name rq s = Some (a, s')" and "rs_Status a = 200"
  shows "\<exists>w s2. rs_Body a = JsonBody (encode_wrapper w)
    \<and> ToxicShow name (tw_Name w) s = Some (refused ErrToxicNotFound, s)
    \<and> ToxicShow name (tw_Name w) s' = Some (json_answer 200 (encode_wrapper w), s')
    \<and> ToxicDelete name (tw_Name w) s' = Some (no_content, s2)
    \<and> ToxicShow name (tw_Name w) s2 = Some (refused ErrToxicNotFound, s2)"
  using assms(2) unfolding ToxicCreate_def
proof (cases rule: with_proxy_Some)
  case unknown
  with assms(3) show ?thesis by (simp add: api_error_defs)
next
  case (known r)
  let ?c = "chains_of (heap s ! r)"
  have r: "r < length (heap s)" using pcoll_okD(1) [OF api_ok_parts(1) [OF assms(1)] known(1)] .
  have ok: "chains_ok ?c" using heap_okD [OF api_ok_parts(2) [OF assms(1)] r] .
  obtain w chain where add: "AddToxicJson reg (rq_Text rq) (rq_Body rq) ?c = Fine (Inr w, chain)"
    and ans: "a = json_answer 200 (encode_wrapper w)" "s' = set_chains r chain s"
    using known(2) assms(3) by (auto split: outcome.splits prod.splits sum.splits dest!: AddToxicJson_refused)
  have n: "show_toxic (tw_Name w) ?c = None" "show_toxic (tw_Name w) chain = Some (view_toxic w)" "chains_ok chain"
    using AddToxicJson_effect [OF ok add] by auto
  obtain v where v: "findToxicByName (tw_Name w) chain = Some v" "view_toxic v = view_toxic w"
    using n(2) by (auto simp: show_toxic_def)
  have "show_toxic (tw_Name w) (snd (RemoveToxic (tw_Name w) chain)) = None"
    and rm: "fst (RemoveToxic (tw_Name w) chain) = None"
    using RemoveToxic_effect [OF n(3), of "tw_Name w"] n(2) by simp_all
  then have gone: "findToxicByName (tw_Name w) (snd (RemoveToxic (tw_Name w) chain)) = None"
    by (simp add: show_toxic_def)
  have "ToxicShow name (tw_Name w) s = Some (refused ErrToxicNotFound, s)"
    using known(1) n(1) by (simp add: ToxicShow_def with_proxy_def pc_Get_def getByName_def show_toxic_def)
  then show ?thesis
    using set_chains_handlers [OF known(1) r] v encode_view [OF v(2)] rm gone ans by (intro exI [of _ w]) auto
qed

subsection \<open>Error answers\<close>

definition plain_error :: "response \<Rightarrow> bool" where
  "plain_error a \<longleftrightarrow> rs_Type a = ''text/plain; charset=utf-8'' \<and> (\<exists>j. rs_Body a = JsonBody j)"

lemma plain_errors [simp]:
  "plain_error (refused e)" "plain_error (bad_body t)" "plain_error (missing f)"
  "apiError err = Some a \<Longrightarrow> plain_error a"
  by (simp_all add: plain_error_def bad_body_def missing_def refused_def) (cases err; auto)

lemma ResetState_plain: "ResetState nt order s = Some (a, s') \<Longrightarrow> 400 \<le> rs_Status a \<Longrightarrow> plain_error a"
  by (auto simp: ResetState_def split: option.splits)

lemma ProxyCreate_plain: "ProxyCreate nt rq s = Some (a, s') \<Longrightarrow> 400 \<le> rs_Status a \<Longrightarrow> plain_error a"
  by (auto simp: ProxyCreate_def split: option.splits prod.splits if_splits)

lemma ProxyUpdate_plain: "ProxyUpdate nt n rq s = Some (a, s') \<Longrightarrow> 400 \<le> rs_Status a \<Longrightarrow> plain_error a"
  by (auto simp: ProxyUpdate_def Let_def elim!: with_proxy_Some split: option.splits prod.splits if_splits)

lemma toxic_plain:
  "ToxicCreate reg n rq s = Some (a, s') \<Longrightarrow> 400 \<le> rs_Status a \<Longrightarrow> plain_error a"
  "ToxicUpdate n t rq s = Some (a, s') \<Longrightarrow> 400 \<le> rs_Status a \<Longrightarrow> plain_error a"
  "ToxicDelete n t s = Some (a, s') \<Longrightarrow> 400 \<le> rs_Status a \<Longrightarrow> plain_error a"
  "ToxicShow n t s = Some (a, s') \<Longrightarrow> 400 \<le> rs_Status a \<Longrightarrow> plain_error a"
  by (auto simp: ToxicCreate_def ToxicUpdate_def ToxicDelete_def ToxicShow_def elim!: with_proxy_Some
      split: option.splits prod.splits sum.splits outcome.splits)

text \<open>Every error answer of a handler, other than \<open>Populate\<close>, is a JSON object that is
  announced as plain text: \<open>apiError\<close> sets the content type to JSON, and \<open>http.Error\<close>
  replaces it.\<close>

theorem errors_are_plain_text:
  assumes "dispatch ae rq h s = Some (a, s')" and "h \<noteq> HPopulate" and "400 \<le> rs_Status a"
  shows "rs_Type a = ''text/plain; charset=utf-8'' \<and> (\<exists>j. rs_Body a = JsonBody j)"
proof -
  have "plain_error a"
    using assms ResetState_plain ProxyCreate_plain ProxyUpdate_plain toxic_plain
    by (cases h) (auto simp: ProxyIndex_def Version_def ProxyShow_def ToxicIndex_def ProxyDelete_def
        elim!: with_proxy_Some split: option.splits prod.splits)
  then show ?thesis by (simp add: plain_error_def)
qed

subsection \<open>Witnesses\<close>

definition some_env :: api_env where
  "some_env = \<lparr>ae_net = some_net, ae_registry = ToxicRegistry, ae_metrics = False, ae_metrics_text = [],
     ae_order = id, ae_slow = False\<rparr>"

definition some_request :: "http_method \<Rightarrow> string list \<Rightarrow> json option \<Rightarrow> request" where
  "some_request m path j = \<lparr>rq_Method = m, rq_Path = path, rq_UserAgent = ''curl'', rq_Body = j, rq_Text = ''EOF''\<rparr>"

lemma some_env_order: "mset (ae_order some_env xs) = mset xs"
  by (simp add: some_env_def)

lemma running_chains: "chains_of running_proxy = new_chains"
  by (simp add: running_proxy_def chains_of_def proxy_start_def proxy_listen_def some_net_def NewProxy_def
      NewToxicCollection_def)

lemma one_running_api: "api_ok one_running"
  using one_running_ok(1) running_chains new_chains_ok
  by (simp add: api_ok_def heap_ok_def one_running_def) (simp add: chains_of_def NewProxy_def NewToxicCollection_def)

theorem server_always_answers_witness:
  "\<exists>as s'. api_run [(some_env, some_request POST [''reset''] None), (some_env, some_request GET [''proxies''] None)]
       NewProxyCollection = Some (as, s') \<and> length as = 2 \<and> api_ok s'"
  using server_always_answers [of "[(some_env, some_request POST [''reset''] None), (some_env, some_request GET [''proxies''] None)]"]
    some_env_order by auto

theorem harmless_requests_witness:
  "\<exists>a. serve some_env (some_request GET [''proxies''] None) one_running = Some (a, one_running)"
proof -
  obtain a s' where "serve some_env (some_request GET [''proxies''] None) one_running = Some (a, s')"
    using serve_answers [OF one_running_api some_env_order, of "some_request GET [''proxies''] None"]
    by (auto simp: answers_def split: option.splits)
  with harmless_requests [OF one_running_api some_env_order this] show ?thesis by (simp add: some_request_def)
qed

theorem ResetState_result_witness:
  "\<exists>a s'. ResetState some_net (proxies one_running) one_running = Some (a, s') \<and> lookup_proxy ''p'' s' \<noteq> None"
proof -
  have o: "mset (proxies one_running) = mset (pc_Proxies one_running)" by (simp add: pc_Proxies_def)
  obtain a s' where r: "ResetState some_net (proxies one_running) one_running = Some (a, s')"
    using ResetState_effect [OF one_running_api o, of some_net] by blast
  have "lookup_proxy ''p'' s' \<noteq> None" using ResetState_result [OF one_running_api o r] one_running_ok(4) by simp
  with r show ?thesis by blast
qed

definition create_r :: request where
  "create_r = some_request POST [''proxies'']
     (Some (JObj [(''name'', JStr ''r''), (''listen'', JStr ''localhost:9''), (''upstream'', JStr ''up'')]))"

lemma create_r_status: "map_option (\<lambda>(a, s). rs_Status a) (ProxyCreate some_net create_r one_running) = Some 201"
  by (simp add: ProxyCreate_def create_r_def some_request_def decode_struct_def proxy_field_def key_is_def
      ToLower_def lower_char_def Let_def alloc_proxy_def pc_Add_def Proxy_Start_def proxy_start_def proxy_listen_def
      some_net_def NewProxy_def one_running_def set_proxy_def)

theorem created_proxy_is_shown_witness:
  "\<exists>a s' p. ProxyCreate some_net create_r one_running = Some (a, s')
     \<and> ProxyShow (px_Name p) s' = Some (json_answer 200 (proxyWithToxics p), s') \<and> rs_Body a = JsonBody (proxyWithToxics p)"
proof -
  obtain a s' where c: "ProxyCreate some_net create_r one_running = Some (a, s')" "rs_Status a = 201"
    using create_r_status by auto
  from created_proxy_is_shown [OF one_running_api c] c(1) show ?thesis by blast
qed

definition create_toxic :: request where
  "create_toxic = (some_request POST [''proxies'', ''p'', ''toxics''] (Some small_toxicity))\<lparr>rq_Text := []\<rparr>"

theorem created_toxic_is_shown_witness:
  "\<exists>a s' w. ToxicCreate ToxicRegistry ''p'' create_toxic one_running = Some (a, s')
     \<and> ToxicShow ''p'' (tw_Name w) s' = Some (json_answer 200 (encode_wrapper w), s')"
proof -
  obtain a s' where c: "ToxicCreate ToxicRegistry ''p'' create_toxic one_running = Some (a, s')" "rs_Status a = 200"
    using running_chains created_Some [OF small_toxicity_created]
    by (auto simp: ToxicCreate_def with_proxy_def pc_Get_def getByName_def one_running_def create_toxic_def some_request_def)
  from created_toxic_is_shown [OF one_running_api c] c(1) show ?thesis by blast
qed

theorem errors_are_plain_text_witness:
  "\<exists>a. ProxyShow ''q'' one_running = Some (a, one_running) \<and> rs_Type a = ''text/plain; charset=utf-8''"
proof -
  have u: "ProxyShow ''q'' one_running = Some (refused ErrProxyNotFound, one_running)"
    by (rule ProxyShow_unknown) (simp add: one_running_def lookup_proxy_def)
  then have "dispatch some_env create_r (HProxyShow ''q'') one_running = Some (refused ErrProxyNotFound, one_running)" by simp
  from errors_are_plain_text [OF this] u show ?thesis by (simp add: api_error_defs)
qed

end
