(* ===== verification/System.thy ===== *)
theory System
  imports CollectionRefine ApiFlow
begin

text \<open>
  The whole server: the collection of proxies, the goroutines of every proxy and of its links, and
  requests that arrive while they run. A request that does not touch the toxics is executed in
  one piece, as in \<open>Api\<close>; one for a toxic takes the lock of the toxics of its proxy and goes on with
  the steps of the links; a reset goes over the proxies one by one, and other requests
  can be executed between its rounds.
\<close>

subsection \<open>State\<close>

text \<open>
  Where a running \<open>ResetState\<close> stands: before \<open>Start\<close> of the next proxy, before \<open>ResetToxics\<close> of a
  proxy, or in it.
\<close>

datatype reset_pc =
    RStart "nat list"
  | RToxics nat "nat list"
  | RWait nat "nat list"

record System =
  sy_proxies :: ProxyCollection
  sy_resets :: "reset_pc list"

definition NewServer :: System where
  "NewServer = \<lparr>sy_proxies = NewProxyCollection, sy_resets = []\<rparr>"

subsection \<open>Requests\<close>

text \<open>The first part of \<open>AddToxicJson\<close>, which needs no lock: the wrapper to be added.\<close>

definition decode_toxic :: "registry \<Rightarrow> string \<Rightarrow> json option \<Rightarrow> ApiError + ToxicWrapper" where
  "decode_toxic reg txt body =
     (let bad = Inl (the (joinError (Some (Other txt)) ErrBadRequestBody));
          w0 = \<lparr>tw_Toxic = NoopToxic, tw_Name = [], tw_Type = [], tw_Stream = ''downstream'',
                tw_Toxicity = 1, tw_Direction = 0, tw_Index = 0, tw_BufferSize = 0\<rparr>
      in case body of None \<Rightarrow> bad
       | Some j \<Rightarrow>
           (let ((w, held), e) = decode_struct wrapper_field j (w0, True)
            in if e then bad
               else (let (dir, err) = ParseDirection (tw_Stream w); w1 = w\<lparr>tw_Direction := dir\<rparr>
                     in if err \<noteq> None then Inl ErrInvalidStream
                        else (case New reg w1 of
                            (None, w2) \<Rightarrow> Inl ErrInvalidToxicType
                          | (Some t, w2) \<Rightarrow>
                              (let ((t', held'), e') = decode_struct attributes_field j (t, True)
                               in if e' then bad else Inr (w2\<lparr>tw_Toxic := t'\<rparr>))))))"

lemma AddToxicJson_decode:
  "AddToxicJson reg tx body chain = (case decode_toxic reg tx body of
       Inl e \<Rightarrow> Fine (Inl e, chain)
     | Inr w \<Rightarrow> AddToxic w chain)"
  by (auto simp: AddToxicJson_def decode_toxic_def Let_def split_beta split: option.splits)

lemma decode_toxic_direction:
  "decode_toxic reg tx body = Inr w \<Longrightarrow> unat (tw_Direction w) < 2"
  using ParseDirection_ok
  by (auto simp: decode_toxic_def New_def Let_def split_beta split: option.splits if_splits)

text \<open>One step of a goroutine of the proxy with reference \<open>r\<close>.\<close>

definition on_proxy :: "net \<Rightarrow> nat \<Rightarrow> proxy_event \<Rightarrow> System \<Rightarrow> System outcome option" where
  "on_proxy nt r e s =
     (if r < length (heap (sy_proxies s))
      then map_option (\<lambda>x. case x of
          Crash \<Rightarrow> Crash
        | Fine p \<Rightarrow> Fine (s\<lparr>sy_proxies := set_proxy r p (sy_proxies s)\<rparr>)) (proxy_step nt e (heap (sy_proxies s) ! r))
      else None)"

text \<open>What the goroutines of a proxy do by themselves; a \<open>stop\<close> and a \<open>start\<close> belong to requests.\<close>

fun by_itself :: "proxy_event \<Rightarrow> bool" where
  "by_itself (PRequest e) \<longleftrightarrow> (case e of CResetNext \<Rightarrow> True | _ \<Rightarrow> False)"
| "by_itself PStart \<longleftrightarrow> False"
| "by_itself PStopBegin \<longleftrightarrow> False"
| "by_itself PServerExit \<longleftrightarrow> False"
| "by_itself PStopEnd \<longleftrightarrow> False"
| "by_itself _ \<longleftrightarrow> True"

text \<open>
  \<open>stop\<close> waits until the server goroutine of the proxy is back in \<open>ReadFrom\<close>: a request can be
  finished only when every server goroutine it has ended or replaced was there.
\<close>

definition stops_over :: "ProxyCollection \<Rightarrow> ProxyCollection \<Rightarrow> bool" where
  "stops_over s s' = list_all (\<lambda>r. px_server (heap s' ! r) = px_server (heap s ! r)
     \<or> px_server (heap s ! r) = Reading \<or> px_server (heap s ! r) = NotRunning) [0..<length (heap s)]"

definition toxic_step :: "net \<Rightarrow> string \<Rightarrow> (ApiError + coll_event) \<Rightarrow> System \<Rightarrow> System outcome option" where
  "toxic_step nt name e s = (case pc_Get name (sy_proxies s) of
       Inl err \<Rightarrow> Some (Fine s)
     | Inr r \<Rightarrow> (case e of Inl err \<Rightarrow> Some (Fine s) | Inr ev \<Rightarrow> on_proxy nt r (PRequest ev) s))"

fun handle :: "api_env \<Rightarrow> request \<Rightarrow> handler \<Rightarrow> System \<Rightarrow> System outcome option" where
  "handle ae rq HResetState s =
     Some (Fine (s\<lparr>sy_resets := sy_resets s @ [RStart (map snd (ae_order ae (pc_Proxies (sy_proxies s))))]\<rparr>))"
| "handle ae rq (HToxicCreate n) s =
     toxic_step (ae_net ae) n (map_sum id CAddToxic (decode_toxic (ae_registry ae) (rq_Text rq) (rq_Body rq))) s"
| "handle ae rq (HToxicUpdate n t) s = toxic_step (ae_net ae) n (Inr (CUpdateToxicJson (rq_Text rq) t (rq_Body rq))) s"
| "handle ae rq (HToxicDelete n t) s = toxic_step (ae_net ae) n (Inr (CRemoveToxic t)) s"
| "handle ae rq h s = (case dispatch ae rq h (sy_proxies s) of
       None \<Rightarrow> Some Crash
     | Some (a, s') \<Rightarrow> if stops_over (sy_proxies s) s' then Some (Fine (s\<lparr>sy_proxies := s'\<rparr>)) else None)"

text \<open>One step of the loop of a running \<open>ResetState\<close>; with an error it returns.\<close>

definition reset_step :: "net \<Rightarrow> nat \<Rightarrow> System \<Rightarrow> System outcome option" where
  "reset_step nt i s =
     (if i < length (sy_resets s)
      then (case sy_resets s ! i of
          RStart [] \<Rightarrow> None
        | RStart (r # rs) \<Rightarrow>
            (if r < length (heap (sy_proxies s)) then
              (case Proxy_Start nt r (sy_proxies s) of (e, s') \<Rightarrow>
                Some (Fine \<lparr>sy_proxies = s', sy_resets = (sy_resets s)[i :=
                  (if e \<noteq> Some ErrProxyAlreadyStarted \<and> e \<noteq> None then RStart [] else RToxics r rs)]\<rparr>))
             else None)
        | RToxics r rs \<Rightarrow> on_proxy nt r (PRequest CResetToxics) (s\<lparr>sy_resets := (sy_resets s)[i := RWait r rs]\<rparr>)
        | RWait r rs \<Rightarrow>
            (if resetting (px_Toxics (heap (sy_proxies s) ! r)) then None
             else Some (Fine (s\<lparr>sy_resets := (sy_resets s)[i := RStart rs]\<rparr>))))
      else None)"

datatype sys_event =
    SGoroutine nat proxy_event
  | SRequest request
  | SReset nat

fun sys_step :: "api_env \<Rightarrow> sys_event \<Rightarrow> System \<Rightarrow> System outcome option" where
  "sys_step ae (SGoroutine r e) s = (if by_itself e then on_proxy (ae_net ae) r e s else None)"
| "sys_step ae (SRequest rq) s = (case find_route (ae_metrics ae) (rq_Method rq) (rq_Path rq) of
       Inl status \<Rightarrow> Some (Fine s)
     | Inr h \<Rightarrow> if prefix ''Mozilla/'' (rq_UserAgent rq) then Some (Fine s) else handle ae rq h s)"
| "sys_step ae (SReset i) s = reset_step (ae_net ae) i s"

text \<open>The environment can be another one at each step.\<close>

fun sys_run :: "(api_env \<times> sys_event) list \<Rightarrow> System \<Rightarrow> System outcome option" where
  "sys_run [] s = Some (Fine s)"
| "sys_run ((ae, e) # es) s = (case sys_step ae e s of
       Some (Fine s') \<Rightarrow> sys_run es s'
     | r \<Rightarrow> r)"

subsection \<open>The invariant\<close>

text \<open>A proxy between two requests.\<close>

definition good :: "Proxy \<Rightarrow> bool" where
  "good p \<longleftrightarrow> proxy_ok p \<and> \<not> px_stopping p"

fun reset_refs :: "reset_pc \<Rightarrow> nat list" where
  "reset_refs (RStart rs) = rs"
| "reset_refs (RToxics r rs) = r # rs"
| "reset_refs (RWait r rs) = r # rs"

definition sys_ok :: "System \<Rightarrow> bool" where
  "sys_ok s \<longleftrightarrow> pcoll_ok (sy_proxies s) \<and> list_all good (heap (sy_proxies s))
     \<and> list_all (\<lambda>x. list_all (\<lambda>r. r < length (heap (sy_proxies s))) (reset_refs x)) (sy_resets s)"

text \<open>What a predicate on proxies must satisfy so that no request that leaves the toxics alone breaks it.\<close>

locale proxy_property =
  fixes P :: "Proxy \<Rightarrow> bool"
  assumes new: "P (NewProxy n l u)"
    and start: "P p \<Longrightarrow> P (snd (proxy_start nt p))"
    and stop: "P p \<Longrightarrow> P (proxy_stop p)"
    and move: "P p \<Longrightarrow> \<not> px_Enabled p \<Longrightarrow> P (p\<lparr>px_Listen := l, px_Upstream := u\<rparr>)"
begin

lemma at: "list_all P (heap s) \<Longrightarrow> r < length (heap s) \<Longrightarrow> P (heap s ! r)"
  by (simp add: list_all_length)

lemma set_at: "list_all P (heap s) \<Longrightarrow> P p \<Longrightarrow> list_all P (heap (set_proxy r p s))"
  using set_update_subset_insert [of "heap s" r p] by (auto simp: set_proxy_def list_all_iff)

lemma enter: "list_all P (heap (enter r s)) = list_all P (heap s)"
  by (simp add: enter_def)

lemma alloc: "list_all P (heap s) \<Longrightarrow> alloc_proxy (NewProxy n l u) s = (r, s') \<Longrightarrow> list_all P (heap s') \<and> r < length (heap s')"
  using new by (auto simp: alloc_proxy_def)

lemma starts:
  assumes "list_all P (heap s)" and "r < length (heap s)"
  shows "list_all P (heap (snd (Proxy_Start nt r s)))"
  using set_at [OF assms(1) start [OF at [OF assms]]] by (simp add: Proxy_Start_def split_beta)

lemma stops: "list_all P (heap s) \<Longrightarrow> r < length (heap s) \<Longrightarrow> list_all P (heap (Proxy_Stop r s))"
  by (simp add: Proxy_Stop_def set_at stop at)

lemma started:
  assumes "list_all P (heap s)" and "r < length (heap s)"
  shows "list_all P (heap (snd (case Proxy_Start nt r s of (Some e, s') \<Rightarrow> (Some e, s') | (None, s') \<Rightarrow> (None, enter r s'))))"
  using starts [OF assms] by (simp add: start_case enter)

lemma adds: "list_all P (heap s) \<Longrightarrow> r < length (heap s) \<Longrightarrow> list_all P (heap (snd (pc_Add nt r st s)))"
  using started [of s r nt] by (simp add: pc_Add_def enter)

lemma replaces:
  assumes "pcoll_ok s" and "list_all P (heap s)" and "r < length (heap s)"
  shows "list_all P (heap (snd (AddOrReplace nt r st s)))"
proof (cases "map_of (proxies s) (px_Name (heap s ! r))")
  case None
  then show ?thesis using started [OF assms(2,3), of nt] assms(2) by (simp add: AddOrReplace_def Let_def enter)
next
  case (Some x)
  have s: "list_all P (heap (Proxy_Stop x s))" "r < length (heap (Proxy_Stop x s))"
    using stops [OF assms(2)] pcoll_okD(1) [OF assms(1) Some] assms(3) by (simp_all add: Proxy_Stop_def set_proxy_def)
  then show ?thesis using Some assms(2) started [OF s, of nt] by (simp add: AddOrReplace_def Let_def enter)
qed

lemma populates:
  "pcoll_ok s \<Longrightarrow> list_all P (heap s) \<Longrightarrow> populate nt xs s = (rs, e, s') \<Longrightarrow> list_all P (heap s')"
proof (induction xs arbitrary: s rs e s')
  case (Cons x xs)
  obtain r s1 where a: "alloc_proxy (NewProxy (in_Name x) (in_Listen x) (in_Upstream x)) s = (r, s1)"
    by (cases "alloc_proxy (NewProxy (in_Name x) (in_Listen x) (in_Upstream x)) s")
  note k = alloc_fresh(1,2) [OF Cons.prems(1) a] alloc [OF Cons.prems(2) a]
  obtain e2 s2 where ar: "AddOrReplace nt r (in_Enabled x \<noteq> Some False) s1 = (e2, s2)"
    by (cases "AddOrReplace nt r (in_Enabled x \<noteq> Some False) s1")
  have "pcoll_ok s2" "list_all P (heap s2)"
    using AddOrReplace_effect [OF k(1,2) ar] replaces [OF k(1), of r nt "in_Enabled x \<noteq> Some False"] k(3) ar by auto
  with Cons.prems(3) a ar Cons.IH [of s2] show ?case by (auto split: option.splits prod.splits)
qed simp

lemma populates_json:
  assumes "pcoll_ok s" and "list_all P (heap s)"
  shows "list_all P (heap (snd (snd (PopulateJson nt tx body s))))"
  using populates [OF assms, of nt "fst (decode_inputs (the body))"] assms(2)
  by (cases "populate nt (fst (decode_inputs (the body))) s") (auto simp: PopulateJson_def Let_def split_beta split: option.splits)

lemma creates:
  assumes "list_all P (heap s)" and "ProxyCreate nt rq s = Some (a, s')"
  shows "list_all P (heap s')"
proof -
  have "s' = s \<or> (\<exists>n l u r s1 st. alloc_proxy (NewProxy n l u) s = (r, s1) \<and> s' = snd (pc_Add nt r st s1))"
    using assms(2)
    by (auto simp: ProxyCreate_def Let_def split: option.splits prod.splits if_splits) (metis snd_conv)+
  with assms(1) alloc adds show ?thesis by blast
qed

lemma updates:
  assumes "P p"
  shows "P (snd (Proxy_Update nt i p))"
proof -
  let ?p = "if px_Listen i \<noteq> px_Listen p \<or> px_Upstream i \<noteq> px_Upstream p
      then (proxy_stop p)\<lparr>px_Listen := px_Listen i, px_Upstream := px_Upstream i\<rparr> else p"
  have "P ?p" using move [OF stop [OF assms]] assms by simp
  with start stop show ?thesis unfolding Proxy_Update_def Let_def by simp
qed

text \<open>The handlers that \<open>handle\<close> executes in one piece.\<close>

lemma dispatch_keeps:
  assumes ok: "pcoll_ok s" and P: "list_all P (heap s)" and d: "dispatch ae rq h s = Some (a, s')"
    and h: "h \<noteq> HResetState" "\<And>n. h \<noteq> HToxicCreate n" "\<And>n t. h \<noteq> HToxicUpdate n t" "\<And>n t. h \<noteq> HToxicDelete n t"
  shows "list_all P (heap s')"
proof (cases h)
  case HProxyCreate
  with d creates [OF P] show ?thesis by simp
next
  case HPopulate
  with d populates_json [OF ok P] show ?thesis by (auto simp: Populate_def Let_def split_beta)
next
  case (HProxyUpdate n)
  with d P show ?thesis using set_at [OF P updates [OF at [OF P]]] pcoll_okD(1) [OF ok]
    by (fastforce simp: ProxyUpdate_def with_proxy_def pc_Get_def getByName_def Let_def split_beta
        split: option.splits if_splits)
next
  case (HProxyDelete n)
  with d P show ?thesis using stops [OF P] pcoll_okD(1) [OF ok]
    by (auto simp: ProxyDelete_def pc_Remove_def getByName_def drop_proxy_def Let_def split: option.splits)
qed (use h d P in \<open>auto simp: ProxyIndex_def ProxyShow_def ToxicIndex_def ToxicShow_def Version_def with_proxy_def
      split: sum.splits option.splits\<close>)

end

subsection \<open>References stay valid\<close>

lemma length_ops [simp]:
  "length (heap (set_proxy r p s)) = length (heap s)"
  "length (heap (snd (Proxy_Start nt r s))) = length (heap s)"
  "length (heap (Proxy_Stop r s)) = length (heap s)"
  "length (heap (enter r s)) = length (heap s)"
  "length (heap (drop_proxy r s)) = length (heap s)"
  by (simp_all add: set_proxy_def Proxy_Start_def Proxy_Stop_def enter_def drop_proxy_def Let_def split_beta)

lemma length_add [simp]:
  "length (heap (snd (pc_Add nt r st s))) = length (heap s)"
  "length (heap (snd (AddOrReplace nt r st s))) = length (heap s)"
  by (simp_all add: pc_Add_def AddOrReplace_def Let_def start_case split: option.split)

lemma length_alloc: "alloc_proxy p s = (r, s') \<Longrightarrow> length (heap s') = Suc (length (heap s))"
  by (auto simp: alloc_proxy_def)

lemma length_populate: "populate nt xs s = (rs, e, s') \<Longrightarrow> length (heap s) \<le> length (heap s')"
proof (induction xs arbitrary: s rs e s')
  case (Cons x xs)
  obtain r s1 where a: "alloc_proxy (NewProxy (in_Name x) (in_Listen x) (in_Upstream x)) s = (r, s1)"
    by (cases "alloc_proxy (NewProxy (in_Name x) (in_Listen x) (in_Upstream x)) s")
  obtain e2 s2 where ar: "AddOrReplace nt r (in_Enabled x \<noteq> Some False) s1 = (e2, s2)"
    by (cases "AddOrReplace nt r (in_Enabled x \<noteq> Some False) s1")
  have "length (heap s2) = Suc (length (heap s))" using length_add(2) [of nt r "in_Enabled x \<noteq> Some False" s1] ar length_alloc [OF a] by simp
  with Cons.prems a ar Cons.IH [of s2] show ?case by (fastforce split: option.splits prod.splits)
qed simp

lemma length_PopulateJson: "length (heap s) \<le> length (heap (snd (snd (PopulateJson nt tx body s))))"
  using length_populate [of nt "fst (decode_inputs (the body))" s]
  by (cases "populate nt (fst (decode_inputs (the body))) s") (auto simp: PopulateJson_def Let_def split_beta split: option.splits)

lemma dispatch_length:
  assumes d: "dispatch ae rq h s = Some (a, s')"
    and h: "h \<noteq> HResetState" "\<And>n. h \<noteq> HToxicCreate n" "\<And>n t. h \<noteq> HToxicUpdate n t" "\<And>n t. h \<noteq> HToxicDelete n t"
  shows "length (heap s) \<le> length (heap s')"
proof (cases h)
  case HProxyCreate
  with d have "s' = s \<or> (\<exists>n l u r s1 st. alloc_proxy (NewProxy n l u) s = (r, s1) \<and> s' = snd (pc_Add (ae_net ae) r st s1))"
    by (auto simp: ProxyCreate_def Let_def split: option.splits prod.splits if_splits) (metis snd_conv)+
  with length_alloc show ?thesis by fastforce
next
  case HPopulate
  with d length_PopulateJson [of s] show ?thesis by (auto simp: Populate_def Let_def split_beta)
next
  case (HProxyUpdate n)
  with d show ?thesis
    by (auto simp: ProxyUpdate_def with_proxy_def Let_def split_beta split: sum.splits option.splits if_splits)
next
  case (HProxyDelete n)
  with d show ?thesis by (auto simp: ProxyDelete_def pc_Remove_def split: sum.splits)
qed (use h d in \<open>auto simp: ProxyIndex_def ProxyShow_def ToxicIndex_def ToxicShow_def Version_def with_proxy_def
      split: sum.splits option.splits\<close>)

subsection \<open>Every step keeps the invariant\<close>

lemma good_stop: "good p \<Longrightarrow> good (proxy_stop p)"
  by (auto simp: good_def proxy_ok_def readers_ok_def links_ok_def proxy_stop_def stop_frame)
    (auto simp: close_listener_def close_connections_def)

lemma good_start: "good p \<Longrightarrow> good (snd (proxy_start nt p))"
proof -
  assume g: "good p"
  then have "proxy_ok (snd (proxy_start nt p))" using proxy_step_ok [of p nt PStart] by (simp add: good_def)
  with g show ?thesis by (auto simp: good_def proxy_start_def proxy_listen_def split: sum.splits)
qed

lemma on_toxics_stopping: "on_toxics e p = Some (Fine p') \<Longrightarrow> px_stopping p' = px_stopping p"
  using on_toxics_Fine by fastforce

lemma good_step: "good p \<Longrightarrow> proxy_step nt e p = Some (Fine p') \<Longrightarrow> by_itself e \<or> (\<exists>ev. e = PRequest ev) \<Longrightarrow> good p'"
  using proxy_step_ok [of p nt e p']
  by (cases e) (auto simp: good_def server_round_def hand_over_def connect_client_def RemoveConnection_def Let_def
      dest!: on_toxics_stopping
      split: if_splits option.splits outcome.splits server_pc.splits list.splits prod.splits read_result.splits)

interpretation proxies_good: proxy_property good
proof unfold_locales
  show "good (NewProxy n l u)" for n l u using NewProxy_ok by (simp add: good_def) (simp add: NewProxy_def)
  show "good (p\<lparr>px_Listen := l, px_Upstream := u\<rparr>)" if "good p" "\<not> px_Enabled p" for p l u
    using that by (auto simp: good_def proxy_ok_def readers_ok_def links_ok_def belongs_def)
qed (simp_all add: good_stop good_start)

end
