(* ===== verification/SystemFlow.thy ===== *)
theory SystemFlow
  imports System
begin

text \<open>
  What the whole server guarantees, whatever its goroutines do while requests are handled: its
  invariant, the data of the clients, what can crash it, and that the requests do to a running
  server what \<open>Api\<close> says.
\<close>

subsection \<open>The invariant\<close>

lemma sys_okD:
  assumes "sys_ok s"
  shows "pcoll_ok (sy_proxies s)" and "list_all good (heap (sy_proxies s))"
    and "x \<in> set (sy_resets s) \<Longrightarrow> r \<in> set (reset_refs x) \<Longrightarrow> r < length (heap (sy_proxies s))"
  using assms by (auto simp: sys_ok_def list_all_iff)

lemma sys_ok_api: "sys_ok s \<Longrightarrow> api_ok (sy_proxies s)"
  using coll_okD(1) by (fastforce simp: sys_ok_def api_ok_def heap_ok_def list_all_iff good_def proxy_ok_def chains_of_def)

lemma NewServer_ok: "sys_ok NewServer"
  by (simp add: sys_ok_def NewServer_def NewProxyCollection_def pcoll_ok_def)

lemma step_name:
  assumes "proxy_step nt e p = Some (Fine p')"
  shows "px_Name p' = px_Name p"
proof -
  have t: "px_Name q' = px_Name q" if "on_toxics ev q = Some (Fine q')" for ev q q'
    using on_toxics_Fine [OF that] by auto
  show ?thesis using assms
    by (cases e) (auto simp: server_round_def hand_over_def connect_client_def RemoveConnection_def Let_def
      proxy_start_def proxy_listen_def close_listener_def close_connections_def
      dest!: t split: if_splits option.splits outcome.splits server_pc.splits list.splits prod.splits read_result.splits sum.splits)
qed

lemma on_proxy_Fine:
  assumes "on_proxy nt r e s = Some (Fine s')"
  obtains p where "r < length (heap (sy_proxies s))" "proxy_step nt e (heap (sy_proxies s) ! r) = Some (Fine p)"
    "s' = s\<lparr>sy_proxies := set_proxy r p (sy_proxies s)\<rparr>"
  using assms
  by (cases "proxy_step nt e (heap (sy_proxies s) ! r)") (auto simp: on_proxy_def split: if_splits outcome.splits)

lemma on_proxy_ok:
  assumes ok: "sys_ok s" and e: "by_itself e \<or> (\<exists>ev. e = PRequest ev)" and st: "on_proxy nt r e s = Some (Fine s')"
  shows "sys_ok s'"
proof -
  obtain p where r: "r < length (heap (sy_proxies s))" and p: "proxy_step nt e (heap (sy_proxies s) ! r) = Some (Fine p)"
    and s': "s' = s\<lparr>sy_proxies := set_proxy r p (sy_proxies s)\<rparr>" using on_proxy_Fine [OF st] .
  have "good p" using good_step [OF proxies_good.at [OF sys_okD(2) [OF ok] r] p e] .
  then have "list_all good (heap (set_proxy r p (sy_proxies s)))"
    using proxies_good.set_at [OF sys_okD(2) [OF ok]] by simp
  moreover have "pcoll_ok (set_proxy r p (sy_proxies s))"
    using set_proxy_ok [OF sys_okD(1) [OF ok] r step_name [OF p]] .
  ultimately show ?thesis using ok by (simp add: sys_ok_def s')
qed

lemma toxic_step_ok:
  assumes "sys_ok s" and "toxic_step nt n e s = Some (Fine s')"
  shows "sys_ok s'"
  using assms on_proxy_ok [OF assms(1)] by (fastforce simp: toxic_step_def split: sum.splits)

lemma dispatch_sys_ok:
  assumes ok: "sys_ok s" and o: "\<And>xs. mset (ae_order ae xs) = mset xs"
    and d: "dispatch ae rq h (sy_proxies s) = Some (a, t)"
    and h: "h \<noteq> HResetState" "\<And>n. h \<noteq> HToxicCreate n" "\<And>n x. h \<noteq> HToxicUpdate n x" "\<And>n x. h \<noteq> HToxicDelete n x"
  shows "sys_ok (s\<lparr>sy_proxies := t\<rparr>)"
proof -
  have "pcoll_ok t" using dispatch_answers [OF sys_ok_api [OF ok] o, of rq h] d by (simp add: api_ok_def)
  moreover have "list_all good (heap t)"
    by (rule proxies_good.dispatch_keeps [OF sys_okD(1,2) [OF ok] d]) (use h in auto)
  moreover have "length (heap (sy_proxies s)) \<le> length (heap t)" by (rule dispatch_length [OF d]) (use h in auto)
  ultimately show ?thesis using ok by (fastforce simp: sys_ok_def list_all_iff)
qed

lemma handle_ok:
  assumes ok: "sys_ok s" and o: "\<And>xs. mset (ae_order ae xs) = mset xs" and h: "handle ae rq h s = Some (Fine s')"
  shows "sys_ok s'"
proof (cases h)
  case HResetState
  have "set (ae_order ae (proxies (sy_proxies s))) = set (proxies (sy_proxies s))" using o mset_eq_setD by blast
  moreover have "(m, r) \<in> set (proxies (sy_proxies s)) \<Longrightarrow> r < length (heap (sy_proxies s))" for m r
    using sys_okD(1) [OF ok] by (auto simp: pcoll_ok_def)
  ultimately show ?thesis using HResetState h ok by (auto simp: sys_ok_def list_all_iff pc_Proxies_def)
next
  case (HToxicCreate n)
  with h toxic_step_ok [OF ok] show ?thesis by simp
next
  case (HToxicUpdate n x)
  with h toxic_step_ok [OF ok] show ?thesis by simp
next
  case (HToxicDelete n x)
  with h toxic_step_ok [OF ok] show ?thesis by simp
qed (use h dispatch_sys_ok [OF ok o, of rq h] in \<open>auto split: option.splits if_splits simp del: dispatch.simps\<close>)

lemma reset_step_ok:
  assumes ok: "sys_ok s" and st: "reset_step nt i s = Some (Fine s')"
  shows "sys_ok s'"
proof -
  have i: "i < length (sy_resets s)" using st by (simp add: reset_step_def split: if_splits)
  have refs: "list_all (\<lambda>x. list_all (\<lambda>r. r < length (heap (sy_proxies s))) (reset_refs x)) ((sy_resets s)[i := y])"
    if "set (reset_refs y) \<subseteq> set (reset_refs (sy_resets s ! i))" for y
  proof -
    have "list_all (\<lambda>r. r < length (heap (sy_proxies s))) (reset_refs y)"
      using that sys_okD(3) [OF ok nth_mem [OF i]] by (auto simp: list_all_iff)
    then show ?thesis using ok set_update_subset_insert [of "sy_resets s" i y] by (auto simp: sys_ok_def list_all_iff)
  qed
  show ?thesis
  proof (cases "sy_resets s ! i")
    case (RStart rs)
    with st i obtain r rs' where rs: "rs = r # rs'" and r: "r < length (heap (sy_proxies s))"
      by (auto simp: reset_step_def split: list.splits if_splits)
    obtain e t where t: "Proxy_Start nt r (sy_proxies s) = (e, t)" by (cases "Proxy_Start nt r (sy_proxies s)")
    note k = Proxy_Start_api [OF sys_ok_api [OF ok] r t]
    have "list_all good (heap t)" using proxies_good.starts [OF sys_okD(2) [OF ok] r, of nt] t by simp
    then show ?thesis
      using st i r RStart rs k refs [of "RStart []"] refs [of "RToxics r rs'"] t
      by (auto simp: reset_step_def sys_ok_def api_ok_def)
  next
    case (RToxics r rs)
    with st i have s: "on_proxy nt r (PRequest CResetToxics) (s\<lparr>sy_resets := (sy_resets s)[i := RWait r rs]\<rparr>) = Some (Fine s')"
      by (simp add: reset_step_def)
    have "sys_ok (s\<lparr>sy_resets := (sy_resets s)[i := RWait r rs]\<rparr>)" using ok refs [of "RWait r rs"] RToxics by (simp add: sys_ok_def)
    from on_proxy_ok [OF this _ s] show ?thesis by simp
  next
    case (RWait r rs)
    have "set (reset_refs (RStart rs)) \<subseteq> set (reset_refs (sy_resets s ! i))" using RWait by auto
    from refs [OF this] RWait st i ok show ?thesis by (auto simp: reset_step_def sys_ok_def split: if_splits)
  qed
qed

definition honest :: "(api_env \<times> sys_event) list \<Rightarrow> bool" where
  "honest es \<longleftrightarrow> (\<forall>(ae, e) \<in> set es. \<forall>xs. mset (ae_order ae xs) = mset xs)"

lemma sys_step_ok:
  assumes "sys_ok s" and "\<And>xs. mset (ae_order ae xs) = mset xs" and "sys_step ae e s = Some (Fine s')"
  shows "sys_ok s'"
proof (cases e)
  case (SGoroutine r pe)
  with assms on_proxy_ok [OF assms(1)] show ?thesis by (auto split: if_splits)
next
  case (SRequest rq)
  with assms handle_ok [OF assms(1,2)] show ?thesis by (auto split: sum.splits if_splits)
next
  case (SReset i)
  with assms reset_step_ok [OF assms(1)] show ?thesis by simp
qed

lemma sys_run_ok: "sys_ok s \<Longrightarrow> honest es \<Longrightarrow> sys_run es s = Some (Fine s') \<Longrightarrow> sys_ok s'"
proof (induction es arbitrary: s)
  case (Cons x es)
  obtain ae e where x: "x = (ae, e)" by (cases x)
  with Cons.prems obtain s1 where "sys_step ae e s = Some (Fine s1)" "sys_run es s1 = Some (Fine s')"
    by (auto split: option.splits outcome.splits)
  with Cons.IH [of s1] Cons.prems x sys_step_ok [of s ae e s1] show ?case by (simp add: honest_def)
qed simp

text \<open>C5: The server stays well formed, and the clients of all its proxies stay apart: from an
  empty server on, with any requests at any time and any interleaving of the goroutines of all
  proxies, every name stands for one proxy that bears it, every proxy and every link of it keeps its invariant, and
  over the link of a client comes a subsequence of what this client has sent to this
  proxy.\<close>

theorem server_stays_ok:
  assumes "sys_run es NewServer = Some (Fine s)" and "honest es"
  shows "pcoll_ok (sy_proxies s)
    \<and> list_all (\<lambda>p. coll_ok (px_Toxics p)
        \<and> (\<forall>addr l. map_of (coll_links (px_Toxics p)) (up_name addr) = Some l
              \<longrightarrow> subseq (delivered l) (datagrams_of addr (px_arrived p)))) (heap (sy_proxies s))"
  using sys_okD(1,2) [OF sys_run_ok [OF NewServer_ok assms(2,1)]] proxy_ok_data proxy_okD(1)
  by (auto simp: list_all_iff good_def)

subsection \<open>What can crash the server\<close>

definition proxy_panics :: "proxy_event \<Rightarrow> Proxy \<Rightarrow> bool" where
  "proxy_panics e p = (case e of PLink n a \<Rightarrow> coll_panics (CLink n a) (px_Toxics p) | _ \<Rightarrow> False)"

lemma on_toxics_Crash: "proxy_ok p \<Longrightarrow> on_toxics e p = Some Crash \<Longrightarrow> coll_panics e (px_Toxics p)"
  using coll_step_Crash [OF proxy_okD(1)]
  by (cases "coll_step e (px_Toxics p)") (auto simp: on_toxics_def split: outcome.splits)

lemma round_Crash: "proxy_ok p \<Longrightarrow> server_round nt addr d p \<noteq> Crash"
  using proxy_okD(3) [of p]
  by (auto simp: server_round_def hand_over_def chan_send_def readers_ok_def make_chan_def Let_def
      split: option.splits outcome.splits if_splits)

lemma on_toxics_same: "px_Toxics q = px_Toxics p \<Longrightarrow> on_toxics e q = Some Crash \<Longrightarrow> on_toxics e p = Some Crash"
  by (auto simp: on_toxics_def split: outcome.splits)

lemma proxy_step_Crash:
  assumes ok: "proxy_ok p" and st: "proxy_step nt e p = Some Crash"
  shows "proxy_panics e p \<or> (\<exists>w. e = PRequest (CAddToxic w) \<and> NumDirections \<le> tw_Direction w)"
proof (cases e)
  case (PDatagram addr d)
  with st round_Crash [OF ok] show ?thesis by (auto split: if_splits)
next
  case (PStartLink ds)
  with st obtain n dir sv where "on_toxics (CStartLink n dir ds) (p\<lparr>px_server := sv\<rparr>) = Some Crash"
    by (auto split: server_pc.splits list.splits prod.splits)
  then have "on_toxics (CStartLink n dir ds) p = Some Crash" by (rule on_toxics_same [rotated]) simp
  from on_toxics_Crash [OF ok this] show ?thesis by (simp add: coll_panics_def)
next
  case (PRead addr tm)
  with st obtain u' bs where "on_toxics (CLink (up_name addr) (ReadChunk bs tm))
      (p\<lparr>px_portToClient := AList.update addr u' (px_portToClient p)\<rparr>) = Some Crash"
    by (auto simp: Let_def split: option.splits read_result.splits if_splits)
  then have "on_toxics (CLink (up_name addr) (ReadChunk bs tm)) p = Some Crash"
    by (rule on_toxics_same [rotated]) simp
  from on_toxics_Crash [OF ok this] show ?thesis
    by (auto simp: coll_panics_def toxic_panics_def acting_def add_index_panics_def split: option.splits)
next
  case (PLink n a)
  with st have "on_toxics (CLink n a) p = Some Crash" by (auto split: option.splits if_splits)
  from on_toxics_Crash [OF ok this] show ?thesis using PLink by (simp add: proxy_panics_def)
next
  case (PRemoveLink n)
  with st have "on_toxics (CRemoveLink n) (RemoveConnection n p) = Some Crash" by simp
  then have "on_toxics (CRemoveLink n) p = Some Crash" by (rule on_toxics_same [rotated]) simp
  from on_toxics_Crash [OF ok this] show ?thesis by (simp add: coll_panics_def)
next
  case (PRequest ev)
  with st have "on_toxics ev p = Some Crash" by (auto split: if_splits)
  from on_toxics_Crash [OF ok this] PRequest st show ?thesis by (auto simp: coll_panics_def split: coll_event.splits if_splits)
qed (use st in \<open>auto split: if_splits server_pc.splits option.splits\<close>)

lemma on_proxy_Crash:
  assumes ok: "sys_ok s" and st: "on_proxy nt r e s = Some Crash"
  shows "r < length (heap (sy_proxies s)) \<and> (proxy_panics e (heap (sy_proxies s) ! r)
    \<or> (\<exists>w. e = PRequest (CAddToxic w) \<and> NumDirections \<le> tw_Direction w))"
proof -
  have r: "r < length (heap (sy_proxies s))" using st by (simp add: on_proxy_def split: if_splits)
  have p: "proxy_step nt e (heap (sy_proxies s) ! r) = Some Crash"
    using st by (cases "proxy_step nt e (heap (sy_proxies s) ! r)") (auto simp: on_proxy_def split: if_splits outcome.splits)
  have "proxy_ok (heap (sy_proxies s) ! r)"
    using proxies_good.at [OF sys_okD(2) [OF ok] r] by (simp add: good_def)
  from proxy_step_Crash [OF this p] r show ?thesis by blast
qed

lemma request_no_crash:
  assumes ok: "sys_ok s" and e: "\<And>w. ev = CAddToxic w \<Longrightarrow> unat (tw_Direction w) < 2"
  shows "on_proxy nt r (PRequest ev) s \<noteq> Some Crash"
  using on_proxy_Crash [OF ok, of nt r "PRequest ev"] e
  by (auto simp: proxy_panics_def NumDirections_def word_le_nat_alt)

lemma handle_no_crash:
  assumes ok: "sys_ok s" and o: "\<And>xs. mset (ae_order ae xs) = mset xs"
  shows "handle ae rq h s \<noteq> Some Crash"
proof -
  have t: "toxic_step nt n (Inr ev) s \<noteq> Some Crash" if "\<And>w. ev = CAddToxic w \<Longrightarrow> unat (tw_Direction w) < 2" for nt n ev
    using request_no_crash [OF ok that] by (simp add: toxic_step_def split: sum.splits)
  have d: "dispatch ae rq h (sy_proxies s) \<noteq> None"
    using dispatch_answers [OF sys_ok_api [OF ok] o, of rq h] by (auto simp: answers_def split: option.splits)
  show ?thesis
  proof (cases h)
    case (HToxicCreate n)
    show ?thesis
    proof (cases "decode_toxic (ae_registry ae) (rq_Text rq) (rq_Body rq)")
      case (Inl e)
      with HToxicCreate show ?thesis by (simp add: toxic_step_def split: sum.splits)
    next
      case (Inr w)
      with HToxicCreate t [of "CAddToxic w"] decode_toxic_direction [OF Inr] show ?thesis by simp
    qed
  qed (use d t in \<open>auto split: option.splits if_splits simp del: dispatch.simps\<close>)
qed

lemma sys_step_Crash:
  assumes ok: "sys_ok s" and o: "\<And>xs. mset (ae_order ae xs) = mset xs" and st: "sys_step ae e s = Some Crash"
  shows "\<exists>r pe. e = SGoroutine r pe \<and> r < length (heap (sy_proxies s)) \<and> proxy_panics pe (heap (sy_proxies s) ! r)"
proof (cases e)
  case (SGoroutine r pe)
  with st have "by_itself pe" "on_proxy (ae_net ae) r pe s = Some Crash" by (auto split: if_splits)
  with on_proxy_Crash [OF ok this(2)] SGoroutine show ?thesis by auto
next
  case (SRequest rq)
  with st handle_no_crash [OF ok o] show ?thesis by (auto split: sum.splits if_splits)
next
  case (SReset i)
  then have s: "reset_step (ae_net ae) i s = Some Crash" using st by simp
  then have i: "i < length (sy_resets s)" by (simp add: reset_step_def split: if_splits)
  obtain r rs where x: "sy_resets s ! i = RToxics r rs"
    and c: "on_proxy (ae_net ae) r (PRequest CResetToxics) (s\<lparr>sy_resets := (sy_resets s)[i := RWait r rs]\<rparr>) = Some Crash"
    using s i by (auto simp: reset_step_def split: reset_pc.splits list.splits if_splits prod.splits)
  then have "on_proxy (ae_net ae) r (PRequest CResetToxics) s = Some Crash"
    by (auto simp: on_proxy_def split: if_splits outcome.splits)
  with request_no_crash [OF ok, of CResetToxics] show ?thesis by simp
qed

text \<open>C6: The server crashes only in the code of a toxic, or where a link adds a toxic behind the end of
  its chain, on a goroutine of some proxy: no handler panics, every
  toxic a request adds has one of the two directions, and neither the server loop nor a reset
  ever panics.\<close>

theorem server_crash_causes:
  assumes "sys_run es NewServer = Some Crash" and "honest es"
  shows "\<exists>done ae r n a rest s. es = done @ (ae, SGoroutine r (PLink n a)) # rest \<and> sys_run done NewServer = Some (Fine s)
    \<and> r < length (heap (sy_proxies s)) \<and> coll_panics (CLink n a) (px_Toxics (heap (sy_proxies s) ! r))"
proof -
  have "sys_ok s0 \<Longrightarrow> honest es \<Longrightarrow> sys_run es s0 = Some Crash \<Longrightarrow>
      \<exists>done ae r pe rest s. es = done @ (ae, SGoroutine r pe) # rest \<and> sys_run done s0 = Some (Fine s)
        \<and> r < length (heap (sy_proxies s)) \<and> proxy_panics pe (heap (sy_proxies s) ! r)" for s0
  proof (induction es arbitrary: s0)
    case (Cons x es)
    obtain ae e where x: "x = (ae, e)" by (cases x)
    have o: "\<And>xs. mset (ae_order ae xs) = mset xs" and h: "honest es" using Cons.prems(2) x by (auto simp: honest_def)
    obtain r where r: "sys_step ae e s0 = Some r" using Cons.prems(3) x by (auto split: option.splits)
    show ?case
    proof (cases r)
      case Crash
      with sys_step_Crash [OF Cons.prems(1) o] r x show ?thesis by (metis append_Nil sys_run.simps(1))
    next
      case (Fine s1)
      with r Cons.prems x have "sys_ok s1" "sys_run es s1 = Some Crash" using sys_step_ok [OF _ o] by auto
      from Cons.IH [OF this(1) h this(2)] obtain d ae' q pe rest s where *: "es = d @ (ae', SGoroutine q pe) # rest"
        "sys_run d s1 = Some (Fine s)" "q < length (heap (sy_proxies s))" "proxy_panics pe (heap (sy_proxies s) ! q)"
        by blast
      with r Fine x have "x # es = (x # d) @ (ae', SGoroutine q pe) # rest" "sys_run (x # d) s0 = Some (Fine s)" by simp_all
      with *(3,4) show ?thesis by blast
    qed
  qed simp
  from this [OF NewServer_ok assms(2,1)] show ?thesis
    by (fastforce simp: proxy_panics_def split: proxy_event.splits)
qed

subsection \<open>Requests to a running server\<close>

text \<open>A step of the toxics shows nothing but the chains.\<close>

lemma shown_toxics:
  "proxyWithToxics (p\<lparr>px_Toxics := c\<rparr>)
     = proxyWithToxics (p\<lparr>px_Toxics := (px_Toxics p)\<lparr>coll_chains := coll_chains c\<rparr>\<rparr>)"
  by (simp add: proxyWithToxics_def chains_of_def)

lemma map_set_proxy: "map f (heap (set_proxy r p s)) = (map f (heap s))[r := f p]"
  by (simp add: set_proxy_def map_update)

lemma request_effect:
  assumes ok: "sys_ok s" and st: "on_proxy nt r (PRequest e) s = Some (Fine s')"
    and u: "user_request e" "e \<noteq> CResetToxics"
    and ef: "chain_effect e (chains_of (heap (sy_proxies s) ! r)) = Some chain"
  shows "proxies (sy_proxies s') = proxies (sy_proxies s)
    \<and> map proxyWithToxics (heap (sy_proxies s')) = map proxyWithToxics (heap (set_chains r chain (sy_proxies s)))"
proof -
  let ?p = "heap (sy_proxies s) ! r"
  obtain p where r: "r < length (heap (sy_proxies s))" and p: "proxy_step nt (PRequest e) ?p = Some (Fine p)"
    and s': "s' = s\<lparr>sy_proxies := set_proxy r p (sy_proxies s)\<rparr>" using on_proxy_Fine [OF st] .
  have pk: "proxy_ok ?p" using proxies_good.at [OF sys_okD(2) [OF ok] r] by (simp add: good_def)
  have on: "on_toxics e ?p = Some (Fine p)" using p by (simp split: if_splits)
  obtain c where c: "coll_step e (px_Toxics ?p) = Some (Fine c)" "p = ?p\<lparr>px_Toxics := c\<rparr>"
    using on_toxics_Fine [OF on] by blast
  have nr: "\<not> resetting (px_Toxics ?p)" using c(1) u by (cases e) (auto simp: lock_free_def split: if_splits)
  then have "\<not> resetting c" using c(1) u
    by (cases e) (auto simp: chainRemoveToxic_def dest!: started_chains
        split: if_splits option.splits outcome.splits sum.splits prod.splits)
  then have "coll_chains c = chain"
    using coll_step_effect [OF proxy_okD(1) [OF pk] c(1)] nr ef by (simp add: chains_seen_def chains_of_def)
  then show ?thesis
    using shown_toxics [of c ?p] by (simp add: s' set_chains_def map_set_proxy c(2)) (simp add: set_proxy_def)
qed

lemma toxic_step_effect:
  assumes ok: "sys_ok s" and st: "toxic_step nt n (Inr e) s = Some (Fine s')" and u: "user_request e \<and> e \<noteq> CResetToxics"
  obtains (unknown) "pc_Get n (sy_proxies s) = Inl ErrProxyNotFound" "s' = s"
  | (done_) r where "pc_Get n (sy_proxies s) = Inr r" "r < length (heap (sy_proxies s))"
      "\<And>chain. chain_effect e (chains_of (heap (sy_proxies s) ! r)) = Some chain \<Longrightarrow>
         proxies (sy_proxies s') = proxies (sy_proxies s)
         \<and> map proxyWithToxics (heap (sy_proxies s')) = map proxyWithToxics (heap (set_chains r chain (sy_proxies s)))"
proof (cases "pc_Get n (sy_proxies s)")
  case (Inl err)
  with st show thesis by (intro unknown) (auto simp: toxic_step_def pc_Get_def getByName_def split: option.splits)
next
  case (Inr r)
  with st have s: "on_proxy nt r (PRequest e) s = Some (Fine s')" by (simp add: toxic_step_def)
  with Inr request_effect [OF ok s] u show thesis by (intro done_) (auto elim: on_proxy_Fine)
qed

lemma user_toxic_request:
  "user_request (CAddToxic w) \<and> CAddToxic w \<noteq> CResetToxics"
  "user_request (CUpdateToxicJson tx n body) \<and> CUpdateToxicJson tx n body \<noteq> CResetToxics"
  "user_request (CRemoveToxic n) \<and> CRemoveToxic n \<noteq> CResetToxics"
  by simp_all


subsection \<open>A reset and a deletion\<close>

text \<open>C16: A reset copies the map of proxies when it begins, and does not look again whether a proxy is still in
  it: when a request deletes a proxy that is not yet started again, the next round of the reset
  starts it. The proxy then listens on its port, but no request can name it any more.
\<close>

theorem reset_revives_deleted_proxy:
  assumes "sys_ok s" and "i < length (sy_resets s)" and "sy_resets s ! i = RStart (r # rs)"
    and "map_of (proxies (sy_proxies s)) n = Some r" and "n \<noteq> []"
    and "px_server (heap (sy_proxies s) ! r) \<in> {Reading, NotRunning}"
    and "listen_packet (ae_net ae) (px_Listen (heap (sy_proxies s) ! r)) = Inr a"
    and "rq_Method rq = DELETE" and "rq_Path rq = [''proxies'', n]" and "\<not> prefix ''Mozilla/'' (rq_UserAgent rq)"
  shows "\<exists>s'. sys_run [(ae, SRequest rq), (ae, SReset i)] s = Some (Fine s')
    \<and> n \<notin> dom (map_of (proxies (sy_proxies s'))) \<and> r \<notin> ran (map_of (proxies (sy_proxies s')))
    \<and> px_Enabled (heap (sy_proxies s') ! r) \<and> px_server (heap (sy_proxies s') ! r) = Reading"
proof -
  let ?p = "heap (sy_proxies s) ! r" and ?t = "drop_proxy r (sy_proxies s)"
  note pk = sys_okD(1) [OF assms(1)]
  note r = pcoll_okD [OF pk assms(4)]
  have t: "heap ?t = (heap (sy_proxies s))[r := proxy_stop ?p]" "proxies ?t = AList.delete n (proxies (sy_proxies s))"
    using drop_ok(2) [OF pk assms(4)] by (simp_all add: drop_proxy_def Let_def Proxy_Stop_def set_proxy_def)
  have over: "stops_over (sy_proxies s) ?t"
    using assms(6) r(1) by (auto simp: stops_over_def list_all_iff t nth_list_update)
  have 1: "sys_step ae (SRequest rq) s = Some (Fine (s\<lparr>sy_proxies := ?t\<rparr>))"
    using assms(4,5,8-10) over
    by (simp add: find_route_def routes_def ProxyDelete_def pc_Remove_def getByName_def)
  have st: "fst (proxy_start (ae_net ae) (proxy_stop ?p)) = None"
    "px_Enabled (snd (proxy_start (ae_net ae) (proxy_stop ?p)))"
    "px_server (snd (proxy_start (ae_net ae) (proxy_stop ?p))) = Reading"
    using assms(7) by (simp_all add: proxy_start_def proxy_listen_def)
  have 2: "sys_step ae (SReset i) (s\<lparr>sy_proxies := ?t\<rparr>) = Some (Fine \<lparr>
      sy_proxies = set_proxy r (snd (proxy_start (ae_net ae) (proxy_stop ?p))) ?t,
      sy_resets = (sy_resets s)[i := RToxics r rs]\<rparr>)"
    using assms(2,3) r(1) st(1) by (simp add: reset_step_def Proxy_Start_def t(1) split_beta)
  have "r \<notin> ran (map_of (AList.delete n (proxies (sy_proxies s))))"
    using r(3) by (auto simp: ran_def delete_conv')
  with 1 2 st(2,3) r(1) show ?thesis by (simp add: set_proxy_def t delete_conv' del: sys_step.simps)
qed

subsection \<open>Witnesses\<close>

definition one_server :: System where
  "one_server = \<lparr>sy_proxies = one_running, sy_resets = []\<rparr>"

lemma one_server_ok: "sys_ok one_server"
proof -
  have new: "good (NewProxy n l u)" for n l u by (rule proxies_good.new)
  then have "good running_proxy" using good_start by (simp add: running_proxy_def)
  with new one_running_ok(1) show ?thesis by (simp add: sys_ok_def one_server_def) (simp add: one_running_def)
qed

lemma one_server_reset_ok: "sys_ok (one_server\<lparr>sy_resets := [RStart [0]]\<rparr>)"
  using one_server_ok by (simp add: sys_ok_def) (simp add: one_server_def one_running_def)

theorem reset_revives_deleted_proxy_witness:
  "\<exists>s'. sys_run [(some_env, SRequest (some_request DELETE [''proxies'', ''p''] None)), (some_env, SReset 0)]
         (one_server\<lparr>sy_resets := [RStart [0]]\<rparr>) = Some (Fine s')
     \<and> ''p'' \<notin> dom (map_of (proxies (sy_proxies s'))) \<and> px_Enabled (heap (sy_proxies s') ! 0)"
proof -
  have "listen_packet (ae_net some_env) (px_Listen running_proxy) = Inr ''127'' "
    by (simp add: some_env_def some_net_def running_fields)
  moreover have "px_server running_proxy = Reading"
    by (simp add: running_proxy_def proxy_start_def proxy_listen_def some_net_def NewProxy_def)
  ultimately show ?thesis
    using reset_revives_deleted_proxy [OF one_server_reset_ok, of 0 0 "[]" "''p''" some_env "''127''"
        "some_request DELETE [''proxies'', ''p''] None"]
    by (simp add: one_server_def one_running_def some_request_def del: sys_run.simps) blast
qed

text \<open>A client of a proxy that a request has created, and a toxic with a negative rate in its way.\<close>

definition create_first :: request where
  "create_first = some_request POST [''proxies'']
     (Some (JObj [(''name'', JStr ''r''), (''listen'', JStr ''localhost:9''), (''upstream'', JStr ''up'')]))"

definition negative_rate :: request where
  "negative_rate = some_request POST [''proxies'', ''r'', ''toxics'']
     (Some (JObj [(''type'', JStr ''bandwidth''), (''stream'', JStr ''upstream''), (''attributes'', JObj [(''rate'', JInt (-1))])]))"

definition some_wrapper :: ToxicWrapper where
  "some_wrapper = \<lparr>tw_Toxic = BandwidthT \<lparr>Rate = -1\<rparr>, tw_Name = [], tw_Type = ''bandwidth'', tw_Stream = ''upstream'',
     tw_Toxicity = 1, tw_Direction = Upstream, tw_Index = 0, tw_BufferSize = 0\<rparr>"

definition client_events :: "proxy_event list" where
  "client_events = [PDatagram ''c'' [7], PStartLink (\<lambda>_. 0), PStartLink (\<lambda>_. 0), PRead ''c'' 0,
     PLink ''cupstream'' (StubAct 0 ARecv idle), PLink ''cupstream'' (StubAct 0 APost idle)]"

definition panic_steps :: "proxy_event list" where
  "panic_steps = [PLink ''cupstream'' (StubAct 1 ARecv idle), PLink ''cupstream'' (StubAct 1 ATimer idle)]"

definition good_server :: "(api_env \<times> sys_event) list" where
  "good_server = map (Pair some_env) (SRequest create_first # map (SGoroutine 0) (client_events @ [PLink ''cupstream'' WriteChunk]))"

definition bad_server :: "(api_env \<times> sys_event) list" where
  "bad_server = map (Pair some_env) (SRequest create_first # SRequest negative_rate # map (SGoroutine 0) (client_events @ panic_steps))"

lemma some_honest: "honest (map (Pair some_env) es)"
  by (auto simp: honest_def some_env_order)

lemmas server_defs = run_defs some_env_def some_request_def NewServer_def NewProxyCollection_def find_route_def routes_def
  ProxyCreate_def decode_struct_def proxy_field_def key_is_def ToLower_def lower_char_def alloc_proxy_def pc_Add_def
  Proxy_Start_def set_proxy_def enter_def stops_over_def on_proxy_def toxic_step_def pc_Get_def getByName_def
  json_answer_def

lemma created_first: "sys_step some_env (SRequest create_first) NewServer = Some (Fine \<lparr>sy_proxies =
   \<lparr>heap = [snd (proxy_start some_net (NewProxy ''r'' ''localhost:9'' ''up''))], proxies = [(''r'', 0)]\<rparr>, sy_resets = []\<rparr>)"
  by (simp add: server_defs create_first_def)

lemma negative_rate_decoded: "decode_toxic ToxicRegistry (rq_Text negative_rate) (rq_Body negative_rate) = Inr some_wrapper"
  by code_simp

definition first_proxy :: Proxy where
  "first_proxy = snd (proxy_start some_net (NewProxy ''r'' ''localhost:9'' ''up''))"

lemma good_proxy_run: "alive (proxy_run some_net (client_events @ [PLink ''cupstream'' WriteChunk]) first_proxy)"
  by (simp add: run_defs alive_def first_proxy_def client_events_def)

lemma bad_proxy_run:
  "crashed (proxy_run some_net (PRequest (CAddToxic some_wrapper) # client_events @ panic_steps) first_proxy)"
  by (simp add: run_defs crashed_def first_proxy_def client_events_def panic_steps_def some_wrapper_def AddToxic_def
      findToxicByName_def GetToxicArray_def chain_add_def start_on_links_def link_AddToxic_def
      next_sleep_def split_loop_def slice_size_def i64_def go_slice_def)

text \<open>A run of one proxy is a run of the server.\<close>

lemma lift_proxy_run:
  assumes "list_all by_itself es" and "r < length (heap (sy_proxies s))"
    and "proxy_run (ae_net ae) es (heap (sy_proxies s) ! r) = Some x"
  shows "case x of Crash \<Rightarrow> sys_run (map (Pair ae) (map (SGoroutine r) es)) s = Some Crash
    | Fine p \<Rightarrow> \<exists>s'. sys_run (map (Pair ae) (map (SGoroutine r) es)) s = Some (Fine s')"
  using assms
proof (induction es arbitrary: s)
  case (Cons e es)
  let ?p = "heap (sy_proxies s) ! r"
  obtain y where y: "proxy_step (ae_net ae) e ?p = Some y" using Cons.prems(3) by (cases "proxy_step (ae_net ae) e ?p") auto
  show ?case
  proof (cases y)
    case Crash
    with y Cons.prems show ?thesis by (simp add: on_proxy_def)
  next
    case (Fine p)
    let ?s = "s\<lparr>sy_proxies := set_proxy r p (sy_proxies s)\<rparr>"
    have "heap (sy_proxies ?s) ! r = p" "r < length (heap (sy_proxies ?s))" using Cons.prems(2) by (simp_all add: set_proxy_def)
    with Cons.IH [of ?s] Cons.prems y Fine show ?thesis by (cases x) (simp_all add: on_proxy_def)
  qed
qed auto

definition first_server :: System where
  "first_server = \<lparr>sy_proxies = \<lparr>heap = [first_proxy], proxies = [(''r'', 0)]\<rparr>, sy_resets = []\<rparr>"

lemma first_created: "sys_step some_env (SRequest create_first) NewServer = Some (Fine first_server)"
  using created_first by (simp add: first_server_def first_proxy_def)

lemma good_server_run: "\<exists>s. sys_run good_server NewServer = Some (Fine s)"
proof -
  obtain p where "proxy_run (ae_net some_env) (client_events @ [PLink ''cupstream'' WriteChunk])
      (heap (sy_proxies first_server) ! 0) = Some (Fine p)"
    using good_proxy_run by (auto simp: alive_iff first_server_def some_env_def)
  from lift_proxy_run [OF _ _ this] obtain s where "sys_run (map (Pair some_env) (map (SGoroutine 0)
      (client_events @ [PLink ''cupstream'' WriteChunk]))) first_server = Some (Fine s)"
    by (auto simp: client_events_def first_server_def simp del: sys_run.simps)
  then show ?thesis by (simp add: good_server_def first_created del: sys_step.simps)
qed

lemma some_added: "alive (proxy_run some_net [PRequest (CAddToxic some_wrapper)] first_proxy)"
  by (simp add: run_defs alive_def first_proxy_def some_wrapper_def AddToxic_def
      findToxicByName_def GetToxicArray_def chain_add_def start_on_links_def)

lemma bad_server_run: "sys_run bad_server NewServer = Some Crash"
proof -
  obtain p where p: "proxy_step some_net (PRequest (CAddToxic some_wrapper)) first_proxy = Some (Fine p)"
    using some_added by (auto simp: alive_iff simp del: proxy_step.simps split: option.splits outcome.splits)
  let ?s = "first_server\<lparr>sy_proxies := set_proxy 0 p (sy_proxies first_server)\<rparr>"
  have h: "handle some_env negative_rate (HToxicCreate ''r'') first_server = Some (Fine ?s)"
    using p negative_rate_decoded
    by (simp add: toxic_step_def on_proxy_def pc_Get_def getByName_def first_server_def some_env_def del: proxy_step.simps)
  have r: "sys_step some_env (SRequest negative_rate) first_server = Some (Fine ?s)"
    using h by (simp add: negative_rate_def some_request_def find_route_def routes_def del: handle.simps)
  have c: "proxy_run (ae_net some_env) (client_events @ panic_steps) (heap (sy_proxies ?s) ! 0) = Some Crash"
    using bad_proxy_run p
    by (simp add: crashed_iff first_server_def set_proxy_def some_env_def del: proxy_step.simps)
  have "0 < length (heap (sy_proxies ?s))" by (simp add: first_server_def set_proxy_def)
  from lift_proxy_run [OF _ this c] show ?thesis
    by (simp add: bad_server_def first_created r client_events_def panic_steps_def del: sys_step.simps)
qed

theorem server_stays_ok_witness:
  "\<exists>s. sys_run good_server NewServer = Some (Fine s) \<and> pcoll_ok (sy_proxies s)"
  using good_server_run server_stays_ok [of good_server] some_honest unfolding good_server_def by blast

theorem server_crash_causes_witness:
  "\<exists>done ae r n a rest s. bad_server = done @ (ae, SGoroutine r (PLink n a)) # rest \<and> sys_run done NewServer = Some (Fine s)
     \<and> r < length (heap (sy_proxies s)) \<and> coll_panics (CLink n a) (px_Toxics (heap (sy_proxies s) ! r))"
  by (rule server_crash_causes [OF bad_server_run]) (unfold bad_server_def, rule some_honest)


end
