(* ===== verification/CollectionTypes.thy ===== *)
theory CollectionTypes
  imports Collection
begin

text \<open>
  The toxics of a collection stay of their type: the type, the settings, the buffer size and
  the direction of a toxic always fit together, through any sequence of requests.
\<close>

definition typed_wrapper :: "ToxicWrapper \<Rightarrow> bool" where
  "typed_wrapper w \<longleftrightarrow> map_of ToxicRegistry (tw_Type w) = Some (zero_of (tw_Toxic w))
     \<and> settings_in_range (tw_Toxic w)
     \<and> tw_BufferSize w = (case GetBufferSize (tw_Toxic w) of Some n \<Rightarrow> n | None \<Rightarrow> 0)
     \<and> ParseDirection (tw_Stream w) = (tw_Direction w, None)"

definition typed_chains :: "chains \<Rightarrow> bool" where
  "typed_chains chain \<longleftrightarrow> list_all typed_wrapper (GetToxicArray chain)"

datatype toxic_call =
    AddRequest string "json option"
  | UpdateRequest string string "json option"
  | RemoveRequest string
  | ResetRequest

text \<open>\<open>None\<close> would be a panic, or a loop without end.\<close>

fun toxic_request :: "toxic_call \<Rightarrow> chains \<Rightarrow> chains option" where
  "toxic_request (AddRequest txt body) chain = (case AddToxicJson ToxicRegistry txt body chain of
       Crash \<Rightarrow> None | Fine (a, chain') \<Rightarrow> Some chain')"
| "toxic_request (UpdateRequest txt name body) chain = Some (snd (UpdateToxicJson txt name body chain))"
| "toxic_request (RemoveRequest name) chain = Some (snd (RemoveToxic name chain))"
| "toxic_request ResetRequest chain = ResetToxics chain"

fun toxic_requests :: "toxic_call list \<Rightarrow> chains \<Rightarrow> chains option" where
  "toxic_requests [] chain = Some chain"
| "toxic_requests (r # rs) chain = Option.bind (toxic_request r chain) (toxic_requests rs)"

subsection \<open>Decoding\<close>

lemma registered_zero: "map_of ToxicRegistry ty = Some t \<Longrightarrow> zero_of t = t \<and> settings_in_range t"
  by (auto simp: ToxicRegistry_def map_of_Register is_i64_def split: if_splits)

lemma buffer_of_kind: "zero_of t = zero_of u \<Longrightarrow> GetBufferSize t = GetBufferSize u"
  by (cases t; cases u) (auto simp: latency_GetBufferSize_def)

definition same_kind :: "toxic \<Rightarrow> toxic \<Rightarrow> bool" where
  "same_kind t u \<longleftrightarrow> zero_of u = zero_of t \<and> settings_in_range u"

lemma attributes_field_kind:
  "same_kind t (fst a) \<Longrightarrow> same_kind t (fst (fst (attributes_field k j a)))"
  by (cases a) (auto simp: attributes_field_def same_kind_def decode_toxic_type decode_toxic_range)

lemma attributes_kind:
  "same_kind t (fst a) \<Longrightarrow> same_kind t (fst (fst (decode_struct attributes_field j a)))"
  by (rule decode_struct_inv [of "\<lambda>a. same_kind t (fst a)"]) (auto intro: attributes_field_kind)

lemma update_kind:
  assumes "same_kind t (fst (fst a))"
  shows "same_kind t (fst (fst (fst (decode_struct update_field j a))))"
proof (rule decode_struct_inv [of "\<lambda>a. same_kind t (fst (fst a))"])
  fix k j' and b :: "(toxic \<times> bool) \<times> rat"
  assume "same_kind t (fst (fst b))"
  then show "same_kind t (fst (fst (fst (update_field k j' b))))"
    using attributes_field_kind [of t "fst b" k j'] by (cases b) (auto simp: update_field_def)
qed (rule assms)

subsection \<open>Each request\<close>

lemma typed_view:
  "tw_Type v = tw_Type w \<Longrightarrow> tw_Toxic v = tw_Toxic w \<Longrightarrow> tw_BufferSize v = tw_BufferSize w
     \<Longrightarrow> tw_Stream v = tw_Stream w \<Longrightarrow> tw_Direction v = tw_Direction w \<Longrightarrow> typed_wrapper v = typed_wrapper w"
  by (simp add: typed_wrapper_def)

lemma typed_pair: "typed_chains [u, d] \<longleftrightarrow> list_all typed_wrapper (tl u) \<and> list_all typed_wrapper (tl d)"
  by (auto simp: typed_chains_def GetToxicArray_def list_all_iff)

lemma typed_renumber: "list_all typed_wrapper (renumber i ws) = list_all typed_wrapper ws"
  by (induction ws arbitrary: i) (simp_all add: typed_wrapper_def)

lemma typed_remove:
  assumes "list_all typed_wrapper (tl ws)" and "0 < i"
  shows "list_all typed_wrapper (tl (remove_at i ws))"
proof (cases ws)
  case (Cons x xs)
  obtain k where "i = Suc k" using assms(2) by (cases i) auto
  with Cons assms show ?thesis
    by (auto simp: remove_at_def typed_renumber) (auto simp: list_all_iff dest: in_set_takeD in_set_dropD)
qed (simp add: remove_at_def)

lemma typed_RemoveToxic:
  assumes ok: "chains_ok chain" and ty: "typed_chains chain"
  shows "typed_chains (snd (RemoveToxic name chain))"
proof (cases "findToxicByName name chain")
  case (Some w)
  obtain u d where c: "chain = [u, d]" using two_chains [OF ok] by metis
  note w = found_at [OF ok Some]
  have "0 < nat (tw_Index w)" using w(2) by simp
  with less_two [OF w(3)] Some c ty typed_remove show ?thesis
    by (auto simp: RemoveToxic_def chain_remove_def typed_pair)
qed (use ty in \<open>simp add: RemoveToxic_def\<close>)

lemma typed_chain_update:
  assumes ok: "chains_ok chain" and ty: "typed_chains chain" and w: "unat (tw_Direction w) < 2" "0 < tw_Index w"
    and tw: "typed_wrapper w"
  shows "typed_chains (chain_update w chain)"
proof -
  obtain u d where c: "chain = [u, d]" using two_chains [OF ok] by metis
  obtain k where k: "nat (tw_Index w) = Suc k" using w(2) by (cases "nat (tw_Index w)") auto
  have "list_all typed_wrapper (tl (ws[Suc k := w]))" if "list_all typed_wrapper (tl ws)" for ws
    using that tw set_update_subset_insert [of "tl ws" k w] by (cases ws) (auto simp: list_all_iff)
  with less_two [OF w(1)] c k ty show ?thesis by (auto simp: chain_update_def typed_pair)
qed

lemma typed_UpdateToxicJson:
  assumes ok: "chains_ok chain" and ty: "typed_chains chain"
  shows "typed_chains (snd (UpdateToxicJson txt name body chain))"
proof (cases "findToxicByName name chain")
  case None
  then show ?thesis using ty by (simp add: UpdateToxicJson_def)
next
  case (Some w)
  note w = found_at [OF ok Some]
  have tw: "typed_wrapper w"
    using ty find_SomeD [OF Some [unfolded findToxicByName_def]] by (auto simp: typed_chains_def GetToxicArray_def list_all_iff)
  have up: "typed_chains (chain_update (w\<lparr>tw_Toxic := t, tw_Toxicity := x\<rparr>) chain)" if "same_kind (tw_Toxic w) t" for t x
  proof (rule typed_chain_update [OF ok ty])
    show "typed_wrapper (w\<lparr>tw_Toxic := t, tw_Toxicity := x\<rparr>)"
      using tw that buffer_of_kind [of t "tw_Toxic w"] by (simp add: typed_wrapper_def same_kind_def)
  qed (use w in simp_all)
  show ?thesis
  proof (cases body)
    case (Some j)
    obtain t held x e where d: "decode_struct update_field j ((tw_Toxic w, True), tw_Toxicity w) = (((t, held), x), e)"
      by (metis surj_pair)
    have "same_kind (tw_Toxic w) (tw_Toxic w)" using tw by (simp add: typed_wrapper_def same_kind_def)
    then have "same_kind (tw_Toxic w) t" using update_kind [of "tw_Toxic w" "((tw_Toxic w, True), tw_Toxicity w)" j] d by simp
    from up [OF this] up [OF this, of "tw_Toxicity w"] show ?thesis
      using \<open>findToxicByName name chain = Some w\<close> Some d by (simp add: UpdateToxicJson_def Let_def)
  qed (use ty \<open>findToxicByName name chain = Some w\<close> in \<open>simp add: UpdateToxicJson_def\<close>)
qed

lemma typed_AddToxic:
  assumes ok: "chains_ok chain" and ty: "typed_chains chain" and tw: "typed_wrapper w"
    and add: "AddToxic w chain = Fine (a, chain')"
  shows "typed_chains chain'"
proof -
  obtain u d where c: "chain = [u, d]" "u \<noteq> []" "d \<noteq> []" using two_chains [OF ok] by (metis line_ok_def)
  have tl_app: "tl (ws @ [v]) = tl ws @ [v]" if "ws \<noteq> []" for ws and v :: ToxicWrapper using that by simp
  have tw': "typed_wrapper (w\<lparr>tw_Toxicity := x, tw_Name := n, tw_Index := i\<rparr>)" "typed_wrapper (w\<lparr>tw_Toxicity := x, tw_Index := i\<rparr>)" for x n i
    using tw by (simp_all add: typed_wrapper_def)
  from add have "chain' = chain \<or> unat (tw_Direction w) < 2" using c(1) by (auto simp: AddToxic_def Let_def split: if_splits)
  then show ?thesis
  proof
    assume "unat (tw_Direction w) < 2"
    from less_two [OF this] add ty tw' c tl_app show ?thesis
      by (auto simp: AddToxic_def Let_def chain_add_def typed_pair split: if_splits)
  qed (use ty in simp)
qed

lemma typed_AddToxicJson:
  assumes ok: "chains_ok chain" and ty: "typed_chains chain" and add: "AddToxicJson ToxicRegistry txt body chain = Fine (a, chain')"
  shows "typed_chains chain'"
proof (cases body)
  case None
  then show ?thesis using add ty by (simp add: AddToxicJson_def)
next
  case (Some j)
  let ?w0 = "\<lparr>tw_Toxic = NoopToxic, tw_Name = [], tw_Type = [], tw_Stream = ''downstream'',
      tw_Toxicity = 1, tw_Direction = 0, tw_Index = 0, tw_BufferSize = 0\<rparr>"
  obtain w held e where d: "decode_struct wrapper_field j (?w0, True) = ((w, held), e)" by (metis surj_pair)
  obtain dir err where dir: "ParseDirection (tw_Stream w) = (dir, err)" by (metis surj_pair)
  let ?w1 = "w\<lparr>tw_Direction := dir\<rparr>"
  show ?thesis
  proof (cases "e \<or> err \<noteq> None \<or> map_of ToxicRegistry (tw_Type w) = None")
    case True
    then show ?thesis using add ty Some d dir by (auto simp: AddToxicJson_def New_def Let_def split: if_splits)
  next
    case False
    then obtain t where t: "map_of ToxicRegistry (tw_Type w) = Some t" by blast
    have z: "zero_of t = t" "settings_in_range t" using registered_zero [OF t] by simp_all
    let ?w2 = "?w1\<lparr>tw_Toxic := t, tw_BufferSize := (case GetBufferSize t of Some n \<Rightarrow> n | None \<Rightarrow> 0)\<rparr>"
    have new: "New ToxicRegistry ?w1 = (Some t, ?w2)" using t z by (simp add: New_def Let_def)
    obtain t' held' e' where d': "decode_struct attributes_field j (t, True) = ((t', held'), e')" by (metis surj_pair)
    have "same_kind t t'" using attributes_kind [of t "(t, True)" j] z d' by (simp add: same_kind_def)
    then have "typed_wrapper (?w2\<lparr>tw_Toxic := t'\<rparr>)"
      using t z(1) dir False buffer_of_kind [of t' t] by (simp add: typed_wrapper_def same_kind_def)
    moreover have "chain' = chain \<or> AddToxic (?w2\<lparr>tw_Toxic := t'\<rparr>) chain = Fine (a, chain')"
      using add Some d dir False new d' by (simp add: AddToxicJson_def Let_def split: if_splits)
    ultimately show ?thesis using typed_AddToxic [OF ok ty] ty by blast
  qed
qed

lemma toxic_request_typed:
  assumes "chains_ok chain" and "typed_chains chain"
  shows "\<exists>chain'. toxic_request r chain = Some chain' \<and> chains_ok chain' \<and> typed_chains chain'"
proof (cases r)
  case (AddRequest x b)
  from AddToxicJson_effect [OF assms(1) refl, of ToxicRegistry x b] show ?thesis
    using AddRequest assms typed_AddToxicJson [OF assms, of x b] by auto
next
  case (UpdateRequest x name b)
  then show ?thesis
    using typed_UpdateToxicJson [OF assms, of x name b] UpdateToxicJson_effect [OF assms(1) surjective_pairing] by simp
next
  case (RemoveRequest name)
  then show ?thesis using typed_RemoveToxic [OF assms, of name] RemoveToxic_effect [OF assms(1), of name] by simp
next
  case ResetRequest
  have "typed_chains new_chains" by (simp add: typed_chains_def GetToxicArray_def new_chains_def)
  then show ?thesis using ResetRequest ResetToxics_ends [OF assms(1)] new_chains_ok by simp
qed

lemma toxic_requests_typed:
  "chains_ok chain \<Longrightarrow> typed_chains chain
     \<Longrightarrow> \<exists>chain'. toxic_requests rs chain = Some chain' \<and> chains_ok chain' \<and> typed_chains chain'"
proof (induction rs arbitrary: chain)
  case (Cons r rs)
  from toxic_request_typed [OF Cons.prems, of r] Cons.IH show ?case by auto
qed simp

text \<open>C17: Through any sequence of requests that create, update, remove or reset toxics, whatever their
  bodies, the chains stay well formed and every toxic stays of its type: the settings are
  those of the type named, each a 64-bit value, the buffer size is that of the type, and the
  direction is the one its stream names.\<close>

theorem toxics_stay_typed:
  "\<exists>chain. toxic_requests rs new_chains = Some chain \<and> chains_ok chain \<and> typed_chains chain"
  by (rule toxic_requests_typed [OF new_chains_ok])
    (simp add: typed_chains_def GetToxicArray_def new_chains_def)

end
