(* ===== verification/Pacing.thy ===== *)
theory Pacing
  imports Toxic
begin

text \<open>
  When the toxics send what they have received, as long as nobody interrupts them: the pieces
  the slicer cuts, the time the latency toxic holds a chunk back, the rate the bandwidth
  toxic keeps, and the settings with which they never send it at all.
\<close>

text \<open>Two kinds of events in turn; the environments they read may be any.\<close>

definition turns :: "nat \<Rightarrow> event \<Rightarrow> event \<Rightarrow> event list" where
  "turns n a b = concat (replicate n [a, b])"

lemma turns_0 [simp]: "map snd es = turns 0 a b \<longleftrightarrow> es = []"
  by (simp add: turns_def)

lemma turns_Suc:
  assumes "map snd es = turns (Suc n) a b"
  obtains v w fs where "es = (v, a) # (w, b) # fs" "map snd fs = turns n a b"
  using assms by (auto simp: turns_def map_eq_Cons_conv)

subsection \<open>Slicing\<close>

definition slices :: "StreamChunk \<Rightarrow> int list \<Rightarrow> StreamChunk list" where
  "slices c offsets = map (\<lambda>(lo, hi). \<lparr>Data = take (nat hi - nat lo) (drop (nat lo) (Data c)), Timestamp = Timestamp c\<rparr>)
     (pieces offsets)"

lemma tiles_le: "tiles s e xs \<Longrightarrow> \<forall>(a, b) \<in> set (pieces xs). a \<le> b \<Longrightarrow> s \<le> e"
  by (induction s e xs rule: tiles.induct) auto

lemma covers_le: "covers s e xs \<Longrightarrow> \<forall>(a, b) \<in> set (pieces xs). a \<le> b \<Longrightarrow> s \<le> e"
  by (auto simp: covers_def dest: tiles_le)

lemma slice_loop_sends:
  assumes "covers lo (int (length (Data c))) offsets" and "0 \<le> lo"
    and "\<forall>(a, b) \<in> set (pieces offsets). a \<le> b"
  shows "(map snd es = turns (length (slices c offsets)) Sent TimerFired \<longrightarrow>
        drive (slicer_offer t) (slicer_Pipe t) es (slice_loop c offsets) = Some (At SSelect, slices c offsets))
    \<and> concat (map Data (slices c offsets)) = drop (nat lo) (Data c)"
  using assms
proof (induction offsets arbitrary: lo es rule: pieces.induct)
  case (1 a b rest)
  have k: "a = lo" "covers b (int (length (Data c))) rest" "a \<le> b"
    using "1.prems"(1,3) by (auto simp: covers_def tiles_Cons)
  have b: "b \<le> int (length (Data c))" using covers_le [OF k(2)] "1.prems"(3) by simp
  note IH = "1.IH" [OF k(2)]
  let ?d = "take (nat b - nat a) (drop (nat a) (Data c))"
  have sl: "slices c (a # b # rest) = \<lparr>Data = ?d, Timestamp = Timestamp c\<rparr> # slices c rest"
    by (simp add: slices_def)
  have g: "go_slice a b (Data c) = Some ?d" using k b "1.prems"(2) by (simp add: go_slice_def)
  have "?d @ drop (nat b) (Data c) = drop (nat a) (Data c)" using go_slice_split [OF g] by simp
  moreover have "drive (slicer_offer t) (slicer_Pipe t) es (slice_loop c (a # b # rest)) = Some (At SSelect, slices c (a # b # rest))"
    if "map snd es = turns (length (slices c (a # b # rest))) Sent TimerFired"
  proof -
    have "map snd es = turns (Suc (length (slices c rest))) Sent TimerFired" using that sl by simp
    from turns_Suc [OF this] obtain v w fs where "es = (v, Sent) # (w, TimerFired) # fs"
      "map snd fs = turns (length (slices c rest)) Sent TimerFired" .
    then show ?thesis using IH [of fs] "1.prems"(2,3) k(1,3) g sl by (simp add: slice_loop_def)
  qed
  ultimately show ?case using IH "1.prems"(2,3) k(1,3) sl by simp
qed (auto simp: covers_def slice_loop_def slices_def)

lemma tiles_within:
  "tiles s e xs \<Longrightarrow> \<forall>(a, b) \<in> set (pieces xs). a \<le> b \<Longrightarrow> (a, b) \<in> set (pieces xs) \<Longrightarrow> s \<le> a \<and> b \<le> e"
proof (induction s e xs rule: tiles.induct)
  case (2 s e x y z rest)
  then have "tiles y e (z # rest)" "x = s" "\<forall>(a, b) \<in> set (pieces (z # rest)). a \<le> b" "s \<le> y" by auto
  moreover from this have "y \<le> e" using tiles_le by blast
  moreover have "(a, b) = (x, y) \<or> (a, b) \<in> set (pieces (z # rest))" using "2.prems"(3) by auto
  ultimately show ?case using "2.IH" by auto
qed auto

text \<open>C24: With settings as documented the slicer sends every chunk as slices that make up the chunk, in
  order, with its timestamp, none longer than average and variation together and none
  empty; then it waits for the next chunk.\<close>

theorem slicer_cuts_documented:
  assumes "slicer_documented t" and "int (length (Data c)) < 2 ^ 62"
  shows "\<exists>qs. (\<forall>es. map snd es = turns (length qs) Sent TimerFired \<longrightarrow>
        drive (slicer_offer t) (slicer_Pipe t) ((v, Received c) # es) (At SSelect) = Some (At SSelect, qs))
    \<and> concat (map Data qs) = Data c
    \<and> (\<forall>q \<in> set qs. Timestamp q = Timestamp c \<and> int (length (Data q)) \<le> AverageSize t + SizeVariation t
          \<and> (Data c \<noteq> [] \<longrightarrow> Data q \<noteq> []))"
proof -
  let ?n = "int (length (Data c))"
  obtain xs k where x: "chunk t (draws v) 0 0 ?n = Some (xs, k)"
    and b: "\<forall>(lo, hi) \<in> set (pieces xs). lo \<le> hi \<and> (0 < ?n \<longrightarrow> lo < hi) \<and> hi - lo \<le> AverageSize t + SizeVariation t"
    using chunk_documented [OF assms(1), of 0 ?n "draws v" 0] assms(2) by auto
  have le: "\<forall>(lo, hi) \<in> set (pieces xs). lo \<le> hi" using b by auto
  have q: "Timestamp q = Timestamp c \<and> int (length (Data q)) \<le> AverageSize t + SizeVariation t
      \<and> (Data c \<noteq> [] \<longrightarrow> Data q \<noteq> [])" if sq: "q \<in> set (slices c xs)" for q
  proof -
    obtain lo hi where p: "(lo, hi) \<in> set (pieces xs)"
      "q = \<lparr>Data = take (nat hi - nat lo) (drop (nat lo) (Data c)), Timestamp = Timestamp c\<rparr>"
      using sq by (auto simp: slices_def)
    have "0 \<le> lo \<and> hi \<le> ?n" using tiles_within [OF chunk_tiles [OF x] le p(1)] by simp
    moreover have "lo \<le> hi" "0 < ?n \<longrightarrow> lo < hi" "hi - lo \<le> AverageSize t + SizeVariation t" using b p(1) by auto
    ultimately show ?thesis using p(2) by auto
  qed
  note s = slice_loop_sends [OF chunk_covers [OF x] order_refl le, of _ t]
  have "drive (slicer_offer t) (slicer_Pipe t) ((v, Received c) # es) (At SSelect) = Some (At SSelect, slices c xs)"
    if "map snd es = turns (length (slices c xs)) Sent TimerFired" for es
    using s [of es] that x by simp
  moreover have "concat (map Data (slices c xs)) = Data c" using s by simp
  ultimately show ?thesis using q by blast
qed

text \<open>With both sizes 0, which is what a request without settings creates, the recursion on a chunk
  that is not empty has no end.\<close>

lemma slicer_zero_never_sends:
  assumes "AverageSize t = 0" "SizeVariation t = 0" and "Data c \<noteq> []" "int (length (Data c)) < 2 ^ 62"
  shows "slicer_Pipe t SSelect v (Received c) = Panicked"
  using chunk_zero_diverges [OF assms(1,2), of 0 "int (length (Data c))"] assms(3,4) by simp

subsection \<open>Latency\<close>

lemma delay_within:
  assumes "\<bar>Latency t\<bar> < 2 ^ 40" and "0 \<le> Jitter t" and "Jitter t < 2 ^ 40"
  shows "\<exists>d. delay t ds = Some d \<and> (Latency t - Jitter t) * Millisecond \<le> d \<and> d \<le> (Latency t + Jitter t) * Millisecond"
proof (cases "Jitter t > 0")
  case False
  have "- (2 ^ 63) \<le> Latency t * Millisecond \<and> Latency t * Millisecond < 2 ^ 63" using assms(1) by (auto simp: Millisecond_def abs_if split: if_splits)
  then show ?thesis using False assms(2) by (simp add: delay_def i64_id)
next
  case True
  have two: "i64 (Jitter t * 2) = Jitter t * 2" using assms by (simp add: i64_id)
  let ?x = "int (ds 0) mod (Jitter t * 2)"
  have x: "0 \<le> ?x" "?x < Jitter t * 2" using True by auto
  let ?m = "Latency t + (?x - Jitter t)"
  have "i64 (?x - Jitter t) = ?x - Jitter t" "i64 ?m = ?m" "i64 (?m * Millisecond) = ?m * Millisecond"
    using x assms by (simp_all add: i64_id Millisecond_def)
  then have "delay t ds = Some (?m * Millisecond)" using True two by (simp add: delay_def rand_below_def)
  moreover have "Latency t - Jitter t \<le> ?m" "?m \<le> Latency t + Jitter t" using x by linarith+
  ultimately show ?thesis by (simp add: Millisecond_def)
qed

text \<open>C25: The latency toxic lets a chunk go when a delay between latency minus jitter and latency plus
  jitter milliseconds has passed since the chunk's timestamp, whenever it arrived, and moves
  the timestamp by the time it waited; interrupted, it sends the chunk at once, unchanged.\<close>

theorem latency_release:
  assumes "\<bar>Latency t\<bar> < 2 ^ 40" and "0 \<le> Jitter t" and "Jitter t < 2 ^ 40" and "\<bar>now v - Timestamp c\<bar> < 2 ^ 62"
  shows "\<exists>d slp. latency_Pipe t LSelect v (Received c) = At (LWait c slp)
    \<and> now v + slp = Timestamp c + d
    \<and> (Latency t - Jitter t) * Millisecond \<le> d \<and> d \<le> (Latency t + Jitter t) * Millisecond
    \<and> drive latency_offer (latency_Pipe t) [(x, TimerFired), (y, Sent)] (At (LWait c slp))
        = Some (At LSelect, [c\<lparr>Timestamp := Timestamp c + slp\<rparr>])
    \<and> drive latency_offer (latency_Pipe t) [(x, Interrupted), (y, Sent)] (At (LWait c slp)) = Some (Returned, [c])"
proof -
  obtain d where d: "delay t (draws v) = Some d" "(Latency t - Jitter t) * Millisecond \<le> d" "d \<le> (Latency t + Jitter t) * Millisecond"
    using delay_within [OF assms(1-3)] by blast
  have "time_sub (now v) (Timestamp c) = now v - Timestamp c" using assms(4) by (intro time_sub_id) (auto simp: is_i64_def)
  moreover have "\<bar>d\<bar> < 2 ^ 62" using d(2,3) assms(1-3) by (simp add: Millisecond_def)
  then have "i64 (d - (now v - Timestamp c)) = d - (now v - Timestamp c)" using assms(4) by (intro i64_id) auto
  ultimately show ?thesis using d by simp
qed

text \<open>C26: Two latency toxics in a row let a chunk go earlier than the sum of their latencies after its
  timestamp: the time it has waited before it reached the first one is taken off twice, as
  the first one moves the timestamp by its own wait only.\<close>

theorem two_latencies_fall_short:
  assumes "0 \<le> Latency t" "Latency t < 2 ^ 40" "Jitter t = 0" and "0 \<le> Latency u" "Latency u < 2 ^ 40" "Jitter u = 0"
    and "Timestamp c \<le> now v" and "now v - Timestamp c \<le> Latency t * Millisecond"
  shows "\<exists>slp slp'. latency_Pipe t LSelect v (Received c) = At (LWait c slp)
    \<and> latency_Pipe t (LWait c slp) w TimerFired = At (LSend (c\<lparr>Timestamp := Timestamp c + slp\<rparr>))
    \<and> (now w = now v + slp \<longrightarrow>
        latency_Pipe u LSelect w (Received (c\<lparr>Timestamp := Timestamp c + slp\<rparr>))
          = At (LWait (c\<lparr>Timestamp := Timestamp c + slp\<rparr>) slp')
        \<and> now w + slp' = Timestamp c + (Latency t + Latency u) * Millisecond - (now v - Timestamp c))"
proof -
  let ?A = "now v - Timestamp c"
  have A: "0 \<le> ?A" "?A < 2 ^ 60" using assms(2,7,8) by (simp_all add: Millisecond_def)
  have l: "i64 (Latency t * Millisecond) = Latency t * Millisecond" "i64 (Latency u * Millisecond) = Latency u * Millisecond"
    using assms(1-6) by (simp_all add: i64_id Millisecond_def)
  have s: "time_sub (now v) (Timestamp c) = ?A" using A by (intro time_sub_id) (auto simp: is_i64_def)
  have i: "i64 (Latency t * Millisecond - ?A) = Latency t * Millisecond - ?A"
    "i64 (Latency u * Millisecond - ?A) = Latency u * Millisecond - ?A"
    using A assms(1-6) by (simp_all add: i64_id Millisecond_def)
  have "time_sub (now v + (Latency t * Millisecond - ?A)) (Timestamp c + (Latency t * Millisecond - ?A)) = ?A"
    using s by (simp add: time_sub_def)
  then show ?thesis using assms(3,6) l s i by (simp add: delay_def distrib_right)
qed

subsection \<open>Bandwidth\<close>

text \<open>The time slept in a run: the sum of the timers that have fired.\<close>

fun slept :: "('p \<Rightarrow> offer) \<Rightarrow> ('p \<Rightarrow> environment \<Rightarrow> event \<Rightarrow> 'p run) \<Rightarrow> (environment \<times> event) list \<Rightarrow> 'p run \<Rightarrow> int" where
  "slept offer step ((v, e) # es) (At p) =
     (case offer p of Await d \<Rightarrow> if e = TimerFired then d else 0 | _ \<Rightarrow> 0) + slept offer step es (step p v e)"
| "slept offer step _ _ = 0"

text \<open>
  The splitting loop and what follows it, when the arithmetic does not wrap around:
  \<open>slp\<close> minus 100 ms for every slice that can still be cut stays above \<open>- (2 ^ 62)\<close>.
\<close>

lemma split_loop_paces:
  assumes "0 < Rate t" "Rate t < 2 ^ 40" and "slp < 2 ^ 62" and "- (2 ^ 62) \<le> slp - int (length (Data p)) * (100 * Millisecond)"
  shows "\<exists>qs. concat (map Data qs) = Data p \<and> (\<forall>q \<in> set qs. int (length (Data q)) \<le> Rate t * 100 \<and> Timestamp q = Timestamp p)
    \<and> (\<forall>es tm. map snd es = turns (length qs) TimerFired Sent \<longrightarrow>
        (\<exists>s'. drive bandwidth_offer (bandwidth_Pipe t) es (split_loop t p slp tm) = Some (At (BSelect s'), qs))
        \<and> slept bandwidth_offer (bandwidth_Pipe t) es (split_loop t p slp tm) = slp)"
  using assms(3,4)
proof (induction "length (Data p)" arbitrary: p slp rule: less_induct)
  case less
  have sz: "slice_size t = Rate t * 100" using assms(1,2) by (simp add: slice_size_def i64_id)
  show ?case
  proof (cases "int (length (Data p)) > slice_size t")
    case False
    have fin: "(\<exists>s'. drive bandwidth_offer (bandwidth_Pipe t) es (split_loop t p slp tm) = Some (At (BSelect s'), [p]))
        \<and> slept bandwidth_offer (bandwidth_Pipe t) es (split_loop t p slp tm) = slp"
      if "map snd es = turns (length [p]) TimerFired Sent" for es tm
    proof -
      have "map snd es = turns (Suc 0) TimerFired Sent" using that by simp
      from turns_Suc [OF this] obtain v w fs where "es = (v, TimerFired) # (w, Sent) # fs" "map snd fs = turns 0 TimerFired Sent" .
      then show ?thesis using False by (simp add: split_loop_def)
    qed
    show ?thesis by (rule exI [of _ "[p]"]) (use False sz fin in auto)
  next
    case True
    let ?k = "nat (Rate t * 100)" and ?slp = "slp - 100 * Millisecond"
    let ?q = "\<lparr>Data = take ?k (Data p), Timestamp = Timestamp p\<rparr>" and ?p = "p\<lparr>Data := drop ?k (Data p)\<rparr>"
    have k: "0 < ?k" "?k < length (Data p)" "int ?k = Rate t * 100" using True sz assms(1) by auto
    have g: "go_slice 0 (slice_size t) (Data p) = Some (take ?k (Data p))"
      "go_slice (slice_size t) (int (length (Data p))) (Data p) = Some (drop ?k (Data p))"
      using k sz by (simp_all add: go_slice_suffix)
    have len: "length (Data ?p) < length (Data p)" using k by simp
    have "int (length (Data ?p)) \<le> int (length (Data p)) - 1" using len by linarith
    then have lo: "- (2 ^ 62) \<le> ?slp - int (length (Data ?p)) * (100 * Millisecond)"
      using less.prems(2) unfolding Millisecond_def by linarith
    have hi: "?slp < 2 ^ 62" using less.prems(1) by (simp add: Millisecond_def)
    have "- (2 ^ 62) \<le> ?slp" using lo unfolding Millisecond_def by linarith
    with hi have i: "i64 ?slp = ?slp" by (intro i64_id) auto
    from less.hyps [OF len hi lo] obtain qs where qs: "concat (map Data qs) = drop ?k (Data p)"
      "\<forall>q \<in> set qs. int (length (Data q)) \<le> Rate t * 100 \<and> Timestamp q = Timestamp p"
      and dr: "\<And>es tm. map snd es = turns (length qs) TimerFired Sent \<Longrightarrow>
        (\<exists>s'. drive bandwidth_offer (bandwidth_Pipe t) es (split_loop t ?p ?slp tm) = Some (At (BSelect s'), qs))
        \<and> slept bandwidth_offer (bandwidth_Pipe t) es (split_loop t ?p ?slp tm) = ?slp" by auto
    have "(\<exists>s'. drive bandwidth_offer (bandwidth_Pipe t) es (split_loop t p slp tm) = Some (At (BSelect s'), ?q # qs))
        \<and> slept bandwidth_offer (bandwidth_Pipe t) es (split_loop t p slp tm) = slp"
      if "map snd es = turns (length (?q # qs)) TimerFired Sent" for es tm
    proof -
      have "map snd es = turns (Suc (length qs)) TimerFired Sent" using that by simp
      from turns_Suc [OF this] obtain v w fs where es: "es = (v, TimerFired) # (w, Sent) # fs"
        "map snd fs = turns (length qs) TimerFired Sent" .
      from dr [OF es(2), of "now w"] es(1) True g i show ?thesis by (auto simp: split_loop_def [of t p])
    qed
    moreover have "concat (map Data (?q # qs)) = Data p" using qs(1) by simp
    moreover have "\<forall>q \<in> set (?q # qs). int (length (Data q)) \<le> Rate t * 100 \<and> Timestamp q = Timestamp p"
      using qs(2) k by auto
    ultimately show ?thesis by blast
  qed
qed

lemma sum_in_range:
  assumes "\<bar>slp\<bar> < 2 ^ 61" and "n < 2 ^ 32" and "0 \<le> d" and "d \<le> n * 1000000"
  shows "slp + d < (2 ^ 62 :: int)" and "- (2 ^ 62) \<le> slp + d - n * 100000000"
  using assms by auto

text \<open>C27: At a positive rate the bandwidth toxic sends every chunk in slices of at most 100 ms worth of
  data, and sleeps, over all of them, as long as the chunk takes at that rate (on top of what
  it owed from the chunk before).\<close>

theorem bandwidth_keeps_rate:
  assumes "0 < Rate t" "Rate t < 2 ^ 40" and "\<bar>slp\<bar> < 2 ^ 61" and "int (length (Data p)) < 2 ^ 32"
  shows "\<exists>qs. concat (map Data qs) = Data p
    \<and> (\<forall>q \<in> set qs. int (length (Data q)) \<le> Rate t * 100 \<and> Timestamp q = Timestamp p)
    \<and> (\<forall>es. map snd es = turns (length qs) TimerFired Sent \<longrightarrow>
        (\<exists>s'. drive bandwidth_offer (bandwidth_Pipe t) ((v, Received p) # es) (At (BSelect slp)) = Some (At (BSelect s'), qs))
        \<and> slept bandwidth_offer (bandwidth_Pipe t) ((v, Received p) # es) (At (BSelect slp))
            = slp + int (length (Data p)) * Millisecond div Rate t)"
proof -
  let ?n = "int (length (Data p))" and ?d = "int (length (Data p)) * Millisecond div Rate t"
  have d: "0 \<le> ?d" using assms(1) by (simp add: Millisecond_def pos_imp_zdiv_nonneg_iff)
  have d': "?d \<le> ?n * Millisecond" using zdiv_mono2 [of "?n * Millisecond" 1 "Rate t"] assms(1) by (simp add: Millisecond_def)
  have i: "i64 (?n * Millisecond) = ?n * Millisecond" using assms(4) by (simp add: Millisecond_def i64_id)
  have "i64 ?d = ?d" "i64 (slp + ?d) = slp + ?d"
    using d d' assms(3,4) by (intro i64_id; simp add: Millisecond_def abs_if split: if_splits)+
  moreover have "sgn (?n * Millisecond) * sgn (Rate t) * (\<bar>?n * Millisecond\<bar> div \<bar>Rate t\<bar>) = ?d"
    using assms(1) by (cases "Data p = []") (simp_all add: Millisecond_def sgn_if)
  ultimately have ns: "next_sleep t slp p = Some (slp + ?d)"
    using assms(1) i by (simp add: next_sleep_def go_div_def)
  have "slp + ?d < 2 ^ 62" "- (2 ^ 62) \<le> slp + ?d - ?n * (100 * Millisecond)"
    using sum_in_range [OF assms(3,4) d] d' by (simp_all add: Millisecond_def)
  from split_loop_paces [OF assms(1,2) this] obtain qs where qs: "concat (map Data qs) = Data p"
    "\<forall>q \<in> set qs. int (length (Data q)) \<le> Rate t * 100 \<and> Timestamp q = Timestamp p"
    "\<And>es tm. map snd es = turns (length qs) TimerFired Sent \<Longrightarrow>
        (\<exists>s'. drive bandwidth_offer (bandwidth_Pipe t) es (split_loop t p (slp + ?d) tm) = Some (At (BSelect s'), qs))
        \<and> slept bandwidth_offer (bandwidth_Pipe t) es (split_loop t p (slp + ?d) tm) = slp + ?d" by blast
  with ns show ?thesis by (intro exI [of _ qs]) simp
qed

text \<open>C28: Without a positive rate no chunk with data gets through: at rate 0, the default of a request,
  the toxic sends empty chunks every 100 ms and never leaves the splitting loop, and at a
  negative rate the first timer makes the process panic.\<close>

theorem bandwidth_needs_rate:
  assumes "Data p \<noteq> []"
  shows "(Rate t = 0 \<and> map snd es = turns n TimerFired Sent \<longrightarrow>
      (\<exists>s'. drive bandwidth_offer (bandwidth_Pipe t) ((v, Received p) # es) (At (BSelect slp))
        = Some (At (BSplit p s'), replicate n \<lparr>Data = [], Timestamp = Timestamp p\<rparr>)))
    \<and> (Rate t < 0 \<and> - (2 ^ 56) < Rate t \<longrightarrow>
      drive bandwidth_offer (bandwidth_Pipe t) [(v, Received p), (w, TimerFired)] (At (BSelect slp)) = Some (Panicked, []))"
proof (intro conjI impI)
  assume a: "Rate t = 0 \<and> map snd es = turns n TimerFired Sent"
  then have sz: "slice_size t = 0" by (simp add: slice_size_def i64_def)
  have "\<exists>s'. drive bandwidth_offer (bandwidth_Pipe t) fs (At (BSplit p s))
      = Some (At (BSplit p s'), replicate m \<lparr>Data = [], Timestamp = Timestamp p\<rparr>)"
    if "map snd fs = turns m TimerFired Sent" for fs m s
    using that
  proof (induction m arbitrary: fs s)
    case (Suc m)
    from turns_Suc [OF Suc.prems] obtain x y gs where fs: "fs = (x, TimerFired) # (y, Sent) # gs"
      "map snd gs = turns m TimerFired Sent" .
    have "go_slice 0 (int (length (Data p))) (Data p) = Some (Data p)" by (simp add: go_slice_def)
    with fs(1) Suc.IH [OF fs(2), of "i64 (s - 100 * Millisecond)"] sz assms show ?case
      by (auto simp: split_loop_def)
  qed simp
  with a sz assms show "\<exists>s'. drive bandwidth_offer (bandwidth_Pipe t) ((v, Received p) # es) (At (BSelect slp))
        = Some (At (BSplit p s'), replicate n \<lparr>Data = [], Timestamp = Timestamp p\<rparr>)"
    by (simp add: next_sleep_def split_loop_def)
next
  assume r: "Rate t < 0 \<and> - (2 ^ 56) < Rate t"
  then have "i64 (Rate t * 100) = Rate t * 100" by (intro i64_id) auto
  with r have sz: "slice_size t < 0" by (simp add: slice_size_def)
  then show "drive bandwidth_offer (bandwidth_Pipe t) [(v, Received p), (w, TimerFired)] (At (BSelect slp)) = Some (Panicked, [])"
    using r by (simp add: next_sleep_def split_loop_def go_slice_def)
qed

subsection \<open>Witnesses\<close>

definition at_time :: "int \<Rightarrow> environment" where
  "at_time n = \<lparr>now = n, draws = (\<lambda>k. 0)\<rparr>"

definition six_bytes :: StreamChunk where
  "six_bytes = \<lparr>Data = [1, 2, 3, 4, 5, 6], Timestamp = 0\<rparr>"

theorem slicer_cuts_documented_witness:
  "\<exists>qs :: StreamChunk list. concat (map Data qs) = [1, 2, 3, 4, 5, 6]
     \<and> list_all (\<lambda>q. length (Data q) \<le> 3 \<and> Data q \<noteq> []) qs"
proof -
  have t: "slicer_documented \<lparr>AverageSize = 2, SizeVariation = 1, SlicerDelay = 10\<rparr>"
    by (simp add: slicer_documented_def)
  have l: "int (length (Data six_bytes)) < 2 ^ 62" by (simp add: six_bytes_def)
  let ?t = "\<lparr>AverageSize = 2, SizeVariation = 1, SlicerDelay = 10\<rparr>"
  obtain qs :: "StreamChunk list" where q: "concat (map Data qs) = Data six_bytes"
    "\<forall>q \<in> set qs. Timestamp q = Timestamp six_bytes \<and> int (length (Data q)) \<le> AverageSize ?t + SizeVariation ?t
        \<and> (Data six_bytes \<noteq> [] \<longrightarrow> Data q \<noteq> [])"
    using slicer_cuts_documented [OF t l, of "at_time 0"] by blast
  have "list_all (\<lambda>q. length (Data q) \<le> 3 \<and> Data q \<noteq> []) qs" using q(2) by (auto simp: six_bytes_def list_all_iff)
  with q(1) show ?thesis by (intro exI [of _ qs]) (simp add: six_bytes_def)
qed

theorem latency_release_witness:
  "\<exists>d slp. latency_Pipe \<lparr>Latency = 100, Jitter = 10\<rparr> LSelect (at_time 5) (Received six_bytes) = At (LWait six_bytes slp)
     \<and> 5 + slp = d \<and> 90 * Millisecond \<le> d \<and> d \<le> 110 * Millisecond"
  using latency_release [of "\<lparr>Latency = 100, Jitter = 10\<rparr>" "at_time 5" six_bytes]
  by (auto simp: at_time_def six_bytes_def)

theorem two_latencies_fall_short_witness:
  "\<exists>slp slp'. latency_Pipe \<lparr>Latency = 100, Jitter = 0\<rparr> LSelect (at_time 40000000) (Received six_bytes) = At (LWait six_bytes slp)
     \<and> now (at_time 100000000) + slp' = 160000000"
proof -
  let ?t = "\<lparr>Latency = 100, Jitter = 0\<rparr>"
  obtain slp slp' where l: "latency_Pipe ?t LSelect (at_time 40000000) (Received six_bytes) = At (LWait six_bytes slp)"
    and r: "now (at_time 100000000) = now (at_time 40000000) + slp \<longrightarrow>
      now (at_time 100000000) + slp' = Timestamp six_bytes + (100 + 100) * Millisecond - (now (at_time 40000000) - Timestamp six_bytes)"
    using two_latencies_fall_short [of ?t ?t six_bytes "at_time 40000000" "at_time 100000000"]
    by (simp add: six_bytes_def Millisecond_def at_time_def) blast
  have "slp = 60000000" using l
    by (simp add: delay_def at_time_def six_bytes_def time_sub_def Millisecond_def i64_def)
  with l r show ?thesis by (intro exI [of _ slp] exI [of _ slp']) (simp add: at_time_def six_bytes_def Millisecond_def)
qed

theorem bandwidth_keeps_rate_witness:
  "\<exists>qs. concat (map Data qs) = Data six_bytes
     \<and> (\<exists>s'. drive bandwidth_offer (bandwidth_Pipe \<lparr>Rate = 1\<rparr>)
          ((at_time 0, Received six_bytes) # map (Pair (at_time 0)) (turns (length qs) TimerFired Sent)) (At (BSelect 0))
        = Some (At (BSelect s'), qs))"
proof -
  let ?t = "\<lparr>Rate = 1\<rparr>"
  have l: "int (length (Data six_bytes)) < 2 ^ 32" by (simp add: six_bytes_def)
  obtain qs :: "StreamChunk list" where q: "concat (map Data qs) = Data six_bytes" "\<And>es. map snd es = turns (length qs) TimerFired Sent \<Longrightarrow>
      \<exists>s'. drive bandwidth_offer (bandwidth_Pipe ?t) ((at_time 0, Received six_bytes) # es) (At (BSelect 0)) = Some (At (BSelect s'), qs)"
    using bandwidth_keeps_rate [OF _ _ _ l, of ?t 0 "at_time 0"] by auto
  have "map snd (map (Pair (at_time 0)) es) = es" for es :: "event list" by (induction es) auto
  from q(2) [OF this] q(1) show ?thesis by blast
qed

theorem bandwidth_needs_rate_witness:
  "drive bandwidth_offer (bandwidth_Pipe \<lparr>Rate = - 1\<rparr>) [(at_time 0, Received six_bytes), (at_time 9, TimerFired)]
     (At (BSelect 0)) = Some (Panicked, [])"
  using bandwidth_needs_rate [of six_bytes "\<lparr>Rate = - 1\<rparr>"] by (simp add: six_bytes_def)

end
