(* ===== verification/Work.thy ===== *)
theory Work
  imports Pacing
begin

text \<open>
  How much work a toxic has before it when nobody interrupts it. The locale \<open>working_pipe\<close> extends the contract of a \<open>Pipe\<close>
  with a potential: every step of a goroutine uses some of it up, and a chunk that is handed on takes along as much as the rest
  of the line may need for it. Each toxic with usable settings has such a potential; \<open>LinkDrain\<close> adds them up for a link.
\<close>

text \<open>What the part of the line behind a stub may need for one chunk, where \<open>B\<close> is its share for each byte.\<close>

definition chunk_cost :: "nat \<Rightarrow> StreamChunk \<Rightarrow> nat" where
  "chunk_cost B c = B * (length (Data c) + 1)"

text \<open>
  A goroutine is \<open>busy\<close> when it runs with settings that let data pass and has not been interrupted. A chunk that arrives
  brings ten times its cost behind the stub; a step costs one, and a chunk that is sent costs two for
  the two steps of the send and what the rest of the line needs for it.
\<close>

locale working_pipe = lossless_pipe +
  fixes busy :: "'a \<Rightarrow> bool"
    and work :: "nat \<Rightarrow> 'a \<Rightarrow> nat"
  assumes receives: "good p \<Longrightarrow> busy p \<Longrightarrow> offer p = Select \<Longrightarrow> 1 \<le> B \<Longrightarrow> int (length (Data c)) < 2 ^ 62 \<Longrightarrow>
      \<exists>p'. step p v (Received c) = At p' \<and> busy p' \<and> work B p' < work B p + 10 * chunk_cost B c"
    and closes: "busy p \<Longrightarrow> offer p = Select \<Longrightarrow> step p v InputClosed = ClosedReturned"
    and fires: "good p \<Longrightarrow> busy p \<Longrightarrow> 1 \<le> B \<Longrightarrow> accepts (offer p) TimerFired \<Longrightarrow>
      \<exists>p'. step p v TimerFired = At p' \<and> busy p' \<and> work B p' < work B p"
    and hands_on: "good p \<Longrightarrow> busy p \<Longrightarrow> 1 \<le> B \<Longrightarrow> offered (offer p) = Some c \<Longrightarrow>
      \<exists>p'. step p v Sent = At p' \<and> busy p' \<and> work B p' + chunk_cost B c + 2 \<le> work B p"
    and no_timeout: "busy p \<Longrightarrow> offer p \<noteq> SendOr c d"
begin

text \<open>As long as it is not interrupted, a busy goroutine stays busy until its input is closed; it does not panic.\<close>

lemma stays_busy:
  assumes "good p" and "busy p" and "accepts (offer p) e" and "e \<noteq> Interrupted" and "length (absorbed e) < 2 ^ 62"
  shows "(\<exists>p'. step p v e = At p' \<and> busy p') \<or> e = InputClosed \<and> step p v e = ClosedReturned"
proof (cases e)
  case (Received c)
  then have "int (length (Data c)) < 2 ^ 62" using assms(5) by (metis absorbed.simps(1) of_nat_less_iff of_nat_numeral of_nat_power)
  then show ?thesis using Received receives [OF assms(1,2), of 1 c v] assms(3) by auto
next
  case TimerFired
  then show ?thesis using fires [OF assms(1,2), of 1 v] assms(3) by auto
next
  case Sent
  then obtain c where "offered (offer p) = Some c" using assms(3) by auto
  then show ?thesis using Sent hands_on [OF assms(1,2), of 1 c v] by auto
qed (use assms closes no_timeout in auto)

end

subsection \<open>The toxics\<close>

fun noop_work :: "nat \<Rightarrow> noop_pc \<Rightarrow> nat" where
  "noop_work B NSelect = 0"
| "noop_work B (NSend c) = chunk_cost B c + 2"

lemma chunk_cost_pos: "1 \<le> B \<Longrightarrow> 1 \<le> chunk_cost B c"
  by (simp add: chunk_cost_def)

interpretation noop: working_pipe noop_offer noop_Pipe noop_held "\<lambda>_. True" "\<lambda>_. True" noop_work
proof unfold_locales
  fix p v B c
  show "noop_offer p = Select \<Longrightarrow> 1 \<le> B \<Longrightarrow>
      \<exists>p'. noop_Pipe p v (Received c) = At p' \<and> True \<and> noop_work B p' < noop_work B p + 10 * chunk_cost B c"
    using chunk_cost_pos [of B c] by (cases p) auto
  show "offered (noop_offer p) = Some c \<Longrightarrow>
      \<exists>p'. noop_Pipe p v Sent = At p' \<and> True \<and> noop_work B p' + chunk_cost B c + 2 \<le> noop_work B p"
    by (cases p) auto
qed (auto elim: noop_offer.elims)

text \<open>Twice the jitter must not overflow.\<close>

definition latency_documented :: "LatencyToxic \<Rightarrow> bool" where
  "latency_documented t \<longleftrightarrow> Jitter t < 2 ^ 62"

fun latency_busy :: "LatencyToxic \<Rightarrow> latency_pc \<Rightarrow> bool" where
  "latency_busy t (LSendExit c) = False"
| "latency_busy t p = latency_documented t"

fun latency_work :: "nat \<Rightarrow> latency_pc \<Rightarrow> nat" where
  "latency_work B LSelect = 0"
| "latency_work B (LWait c slp) = chunk_cost B c + 3"
| "latency_work B (LSend c) = chunk_cost B c + 2"
| "latency_work B (LSendExit c) = 0"

lemma delay_documented: "latency_documented t \<Longrightarrow> delay t ds \<noteq> None"
  by (auto simp: delay_def latency_documented_def rand_below_def i64_id)

lemma chunk_cost_Timestamp [simp]: "chunk_cost B (c\<lparr>Timestamp := x\<rparr>) = chunk_cost B c"
  by (simp add: chunk_cost_def)

interpretation latency: working_pipe latency_offer "latency_Pipe t" latency_held "\<lambda>_. True" "latency_busy t" latency_work for t
proof unfold_locales
  fix p v B c
  show "latency_busy t p \<Longrightarrow> latency_offer p = Select \<Longrightarrow> 1 \<le> B \<Longrightarrow> \<exists>p'. latency_Pipe t p v (Received c) = At p'
      \<and> latency_busy t p' \<and> latency_work B p' < latency_work B p + 10 * chunk_cost B c"
    using chunk_cost_pos [of B c] delay_documented [of t "draws v"] by (cases p) (auto split: option.splits)
  show "latency_busy t p \<Longrightarrow> latency_offer p = Select \<Longrightarrow> latency_Pipe t p v InputClosed = ClosedReturned"
    by (cases p) auto
  show "latency_busy t p \<Longrightarrow> accepts (latency_offer p) TimerFired \<Longrightarrow> \<exists>p'. latency_Pipe t p v TimerFired = At p'
      \<and> latency_busy t p' \<and> latency_work B p' < latency_work B p"
    by (cases p) auto
  show "latency_busy t p \<Longrightarrow> offered (latency_offer p) = Some c \<Longrightarrow> \<exists>p'. latency_Pipe t p v Sent = At p'
      \<and> latency_busy t p' \<and> latency_work B p' + chunk_cost B c + 2 \<le> latency_work B p"
    by (cases p) auto
qed simp

definition bandwidth_documented :: "BandwidthToxic \<Rightarrow> bool" where
  "bandwidth_documented t \<longleftrightarrow> 0 < Rate t \<and> Rate t < 2 ^ 40"

fun bandwidth_busy :: "BandwidthToxic \<Rightarrow> bandwidth_pc \<Rightarrow> bool" where
  "bandwidth_busy t (BWriteOut p) = False"
| "bandwidth_busy t (BSplit p slp) = (bandwidth_documented t \<and> slice_size t < int (length (Data p)))"
| "bandwidth_busy t p = bandwidth_documented t"

text \<open>A slice has at least one byte, so the bytes left in a chunk bound the slices.\<close>

definition slicing_work :: "nat \<Rightarrow> nat \<Rightarrow> nat" where
  "slicing_work B n = (2 * B + 4) * n + B + 5"

fun bandwidth_work :: "nat \<Rightarrow> bandwidth_pc \<Rightarrow> nat" where
  "bandwidth_work B (BSelect slp) = 0"
| "bandwidth_work B (BSplit p slp) = slicing_work B (length (Data p))"
| "bandwidth_work B (BSendSlice q p slp) = chunk_cost B q + 2 + slicing_work B (length (Data p) - length (Data q))"
| "bandwidth_work B (BFinal p slp start) = chunk_cost B p + 3"
| "bandwidth_work B (BSendLast p slp) = chunk_cost B p + 2"
| "bandwidth_work B (BWriteOut p) = 0"

lemma documented_slices:
  assumes "bandwidth_documented t" shows "slice_size t = Rate t * 100" "0 < slice_size t"
  using assms by (simp_all add: bandwidth_documented_def slice_size_def i64_id)

lemma split_loop_busy:
  assumes "bandwidth_documented t"
  shows "\<exists>p'. split_loop t p slp tm = At p' \<and> bandwidth_busy t p' \<and> bandwidth_work B p' \<le> slicing_work B (length (Data p))"
  using assms by (auto simp: split_loop_def slicing_work_def chunk_cost_def algebra_simps)

lemma ten_shares: "1 \<le> B \<Longrightarrow> 5 + 4 * n + (B + 2 * B * n) < 10 * (B * (n + 1))" for B n :: nat
  by (cases B) (simp_all add: algebra_simps)

lemma slicing_work_less:
  assumes "0 < k" and "k \<le> n"
  shows "B * (k + 1) + 2 + slicing_work B (n - k) < slicing_work B n"
proof -
  obtain m where n: "n = k + m" using assms(2) le_Suc_ex by blast
  have "B \<le> B * k" using assms(1) by simp
  then have "Suc (Suc B) < B * k + k * 4" using assms(1) by linarith
  then show ?thesis unfolding n slicing_work_def by (simp add: algebra_simps)
qed

lemma next_sleep_documented: "bandwidth_documented t \<Longrightarrow> next_sleep t slp p \<noteq> None"
  by (auto simp: next_sleep_def go_div_def bandwidth_documented_def)

interpretation bandwidth: working_pipe bandwidth_offer "bandwidth_Pipe t" bandwidth_held "bandwidth_good t"
  "bandwidth_busy t" bandwidth_work for t
proof unfold_locales
  fix p v B c
  assume busy: "bandwidth_busy t p"
  show "\<exists>p'. bandwidth_Pipe t p v (Received c) = At p' \<and> bandwidth_busy t p'
      \<and> bandwidth_work B p' < bandwidth_work B p + 10 * chunk_cost B c"
    if sel: "bandwidth_offer p = Select" and B: "1 \<le> B"
  proof -
    obtain slp where p: "p = BSelect slp" using sel by (cases p) auto
    with busy have d: "bandwidth_documented t" by simp
    from next_sleep_documented [OF d, of slp c] obtain slp' where "next_sleep t slp c = Some slp'" by auto
    moreover have "slicing_work B (length (Data c)) < 10 * chunk_cost B c"
      using ten_shares [OF B, of "length (Data c)"] by (simp add: slicing_work_def chunk_cost_def algebra_simps)
    ultimately show ?thesis using split_loop_busy [OF d, of c slp' "now v" B] p by auto
  qed
  show "bandwidth_offer p = Select \<Longrightarrow> bandwidth_Pipe t p v InputClosed = ClosedReturned" by (cases p) auto
  assume good: "bandwidth_good t p"
  show "\<exists>p'. bandwidth_Pipe t p v TimerFired = At p' \<and> bandwidth_busy t p' \<and> bandwidth_work B p' < bandwidth_work B p"
    if B: "1 \<le> B" and acc: "accepts (bandwidth_offer p) TimerFired"
  proof (cases p)
    case (BSplit q slp)
    then have d: "bandwidth_documented t" "slice_size t < int (length (Data q))" using busy by auto
    note s = documented_slices [OF d(1)]
    let ?k = "nat (slice_size t)"
    have k: "0 < ?k" "?k \<le> length (Data q)" using s d by auto
    have "go_slice 0 (slice_size t) (Data q) = Some (take ?k (Data q))" using s d by simp
    then show ?thesis using slicing_work_less [OF k, of B] k BSplit d(1)
      by (simp add: chunk_cost_def min.absorb2 [OF k(2)])
  qed (use acc busy B in auto)
  show "\<exists>p'. bandwidth_Pipe t p v Sent = At p' \<and> bandwidth_busy t p' \<and> bandwidth_work B p' + chunk_cost B c + 2 \<le> bandwidth_work B p"
    if o: "offered (bandwidth_offer p) = Some c"
  proof (cases p)
    case (BSendSlice q p0 slp)
    then have d: "bandwidth_documented t" and g: "go_slice 0 (slice_size t) (Data p0) = Some (Data q)" using busy good by auto
    have l: "length (Data q) = nat (slice_size t)" using go_slice_Some [OF g] by auto
    from slice_sent(1) [OF g] split_loop_busy [OF d, of "p0\<lparr>Data := drop (nat (slice_size t)) (Data p0)\<rparr>" _ "now v" B] l
    show ?thesis using BSendSlice o by auto
  qed (use o busy in auto)
next
  fix p c d
  show "bandwidth_busy t p \<Longrightarrow> bandwidth_offer p \<noteq> SendOr c d" by (cases p) auto
qed

text \<open>Every piece of a chunk is sent, and then waited for.\<close>

definition pieces_work :: "nat \<Rightarrow> int list \<Rightarrow> nat" where
  "pieces_work B offsets = sum_list (map (\<lambda>(a, b). B * (nat (b - a) + 1) + 3) (pieces offsets))"

definition rising :: "int list \<Rightarrow> bool" where
  "rising offsets \<longleftrightarrow> (\<forall>(a, b) \<in> set (pieces offsets). a \<le> b)"

fun slicer_busy :: "SlicerToxic \<Rightarrow> slicer_pc \<Rightarrow> bool" where
  "slicer_busy t SSelect = slicer_documented t"
| "slicer_busy t (SSend q c hi rest) = (slicer_documented t \<and> rising rest)"
| "slicer_busy t (SDelay c hi rest) = (slicer_documented t \<and> rising rest)"
| "slicer_busy t (SSendRest q) = False"

fun slicer_work :: "nat \<Rightarrow> slicer_pc \<Rightarrow> nat" where
  "slicer_work B SSelect = 0"
| "slicer_work B (SSend q c hi rest) = chunk_cost B q + 3 + pieces_work B rest"
| "slicer_work B (SDelay c hi rest) = 1 + pieces_work B rest"
| "slicer_work B (SSendRest q) = 0"

lemma slice_loop_busy:
  assumes c: "covers lo (int (length (Data c))) offsets" "0 \<le> lo" "rising offsets" and t: "slicer_documented t"
  shows "\<exists>p'. slice_loop c offsets = At p' \<and> slicer_busy t p' \<and> slicer_work B p' \<le> pieces_work B offsets"
  using c(1)
proof (cases rule: tiles_cases)
  case done_
  then show ?thesis using t by (simp add: slice_loop_def)
next
  case (slice hi rest)
  then have r: "lo \<le> hi" "rising rest" using c(3) by (auto simp: rising_def)
  have "hi \<le> int (length (Data c))" using covers_le [OF slice(2)] r(2) by (simp add: rising_def)
  then have g: "go_slice lo hi (Data c) = Some (take (nat hi - nat lo) (drop (nat lo) (Data c)))"
    and l: "length (take (nat hi - nat lo) (drop (nat lo) (Data c))) = nat (hi - lo)"
    using r(1) c(2) by (auto simp: go_slice_def)
  show ?thesis using g l r t slice(1) by (simp add: slice_loop_def pieces_work_def chunk_cost_def)
qed

lemma pieces_sum:
  "tiles s e xs \<Longrightarrow> rising xs \<Longrightarrow> (\<Sum>(a, b)\<leftarrow>pieces xs. nat (b - a)) = nat (e - s)"
proof (induction s e xs rule: tiles.induct)
  case (2 s e a b c rest)
  then have t: "tiles b e (c # rest)" "a = s" "s \<le> b" "rising (c # rest)" by (auto simp: rising_def)
  then have "b \<le> e" using tiles_le [OF t(1)] by (simp add: rising_def)
  then show ?case using 2 t by auto
qed (auto simp: rising_def)

lemma pieces_count:
  "\<forall>(a, b) \<in> set ps. a < b \<Longrightarrow> length ps \<le> (\<Sum>(a, b)\<leftarrow>ps. nat (b - a))"
  by (induction ps) auto

lemma pieces_work_sum:
  "pieces_work B xs = B * (\<Sum>(a, b)\<leftarrow>pieces xs. nat (b - a)) + (B + 3) * length (pieces xs)"
proof -
  have "(\<Sum>(a, b)\<leftarrow>ps. B * (nat (b - a) + 1) + 3) = B * (\<Sum>(a, b)\<leftarrow>ps. nat (b - a)) + (B + 3) * length ps" for ps :: "(int \<times> int) list"
    by (induction ps) (auto simp: algebra_simps)
  then show ?thesis by (simp add: pieces_work_def)
qed

lemma chunk_work:
  assumes t: "slicer_documented t" and n: "int n < 2 ^ 62" and B: "1 \<le> B"
  shows "\<exists>xs k. chunk t ds 0 0 (int n) = Some (xs, k) \<and> rising xs \<and> pieces_work B xs < 10 * (B * (n + 1))"
proof -
  obtain xs k where x: "chunk t ds 0 0 (int n) = Some (xs, k)"
    and p: "\<forall>(lo, hi) \<in> set (pieces xs). lo \<le> hi \<and> (0 < int n \<longrightarrow> lo < hi)"
    using chunk_documented [OF t, of 0 "int n" ds 0] n by fastforce
  have r: "rising xs" using p by (auto simp: rising_def)
  have s: "(\<Sum>(a, b)\<leftarrow>pieces xs. nat (b - a)) = n" using pieces_sum [OF chunk_tiles [OF x] r] by simp
  have m: "length (pieces xs) \<le> n + 1"
  proof (cases "n = 0")
    case True
    have "chunk t ds 0 0 0 = Some ([0, 0], 0)"
      using t by (subst chunk.simps) (simp add: slicer_documented_def i64_def)
    then show ?thesis using x True by auto
  next
    case False
    then have "\<forall>(lo, hi) \<in> set (pieces xs). lo < hi" using p by auto
    from pieces_count [OF this] s show ?thesis by simp
  qed
  have "pieces_work B xs \<le> B * n + (B + 3) * (n + 1)"
    unfolding pieces_work_sum s using m by (intro add_left_mono mult_le_mono2)
  also have "\<dots> < 10 * (B * (n + 1))" using ten_shares [OF B, of n] by (simp add: algebra_simps)
  finally show ?thesis using x r by blast
qed

interpretation slicer: working_pipe "slicer_offer t" "slicer_Pipe t" slicer_held slicer_good
  "slicer_busy t" slicer_work for t
proof unfold_locales
  fix p v B c
  assume busy: "slicer_busy t p"
  show "\<exists>p'. slicer_Pipe t p v (Received c) = At p' \<and> slicer_busy t p'
      \<and> slicer_work B p' < slicer_work B p + 10 * chunk_cost B c"
    if s: "slicer_offer t p = Select" and B: "1 \<le> B" and l: "int (length (Data c)) < 2 ^ 62"
  proof -
    have p: "p = SSelect" using s by (cases p) auto
    with busy have t: "slicer_documented t" by simp
    from chunk_work [OF t l B] obtain xs k where x: "chunk t (draws v) 0 0 (int (length (Data c))) = Some (xs, k)"
      "rising xs" "pieces_work B xs < 10 * chunk_cost B c" unfolding chunk_cost_def by blast
    from slice_loop_busy [OF chunk_covers [OF x(1)] _ x(2) t, of B] x p show ?thesis by fastforce
  qed
  show "slicer_offer t p = Select \<Longrightarrow> slicer_Pipe t p v InputClosed = ClosedReturned" by (cases p) auto
  show "offered (slicer_offer t p) = Some c \<Longrightarrow> \<exists>p'. slicer_Pipe t p v Sent = At p' \<and> slicer_busy t p'
      \<and> slicer_work B p' + chunk_cost B c + 2 \<le> slicer_work B p"
    using busy by (cases p) auto
  assume good: "slicer_good p"
  show "accepts (slicer_offer t p) TimerFired \<Longrightarrow> \<exists>p'. slicer_Pipe t p v TimerFired = At p' \<and> slicer_busy t p'
      \<and> slicer_work B p' < slicer_work B p"
    using busy good slice_loop_busy [of _ _ _ t B] by (cases p) (fastforce simp: offsets_left_def)+
qed simp

subsection \<open>All toxics\<close>

fun Pipe_busy :: "pipe_pc \<Rightarrow> bool" where
  "Pipe_busy (NoopAt p) = True"
| "Pipe_busy (LatencyAt t p) = latency_busy t p"
| "Pipe_busy (BandwidthAt t p) = bandwidth_busy t p"
| "Pipe_busy (SlicerAt t p) = slicer_busy t p"
| "Pipe_busy (ResetAt t p) = False"

fun Pipe_work :: "nat \<Rightarrow> pipe_pc \<Rightarrow> nat" where
  "Pipe_work B (NoopAt p) = noop_work B p"
| "Pipe_work B (LatencyAt t p) = latency_work B p"
| "Pipe_work B (BandwidthAt t p) = bandwidth_work B p"
| "Pipe_work B (SlicerAt t p) = slicer_work B p"
| "Pipe_work B (ResetAt t p) = 0"

text \<open>Settings that let data pass: those the comments of the toxics ask for, within bounds that keep their arithmetic exact.\<close>

fun toxic_documented :: "toxic \<Rightarrow> bool" where
  "toxic_documented NoopToxic = True"
| "toxic_documented (LatencyT t) = latency_documented t"
| "toxic_documented (BandwidthT t) = bandwidth_documented t"
| "toxic_documented (SlicerT t) = slicer_documented t"
| "toxic_documented (ResetT t) = False"

lemma Pipe_start_busy: "toxic_documented t \<Longrightarrow> Pipe_busy (Pipe_start t)"
  by (cases t) auto

lemma Pipe_busy_keeps: "Pipe_busy p \<Longrightarrow> keeps_data p"
  by (cases p) auto

interpretation piped: working_pipe Pipe_offer Pipe_step Pipe_held "\<lambda>p. Pipe_good p \<and> keeps_data p" Pipe_busy Pipe_work
proof unfold_locales
  fix p v B c
  assume g: "Pipe_good p \<and> keeps_data p" and b: "Pipe_busy p"
  show "\<exists>p'. Pipe_step p v (Received c) = At p' \<and> Pipe_busy p' \<and> Pipe_work B p' < Pipe_work B p + 10 * chunk_cost B c"
    if s: "Pipe_offer p = Select" "1 \<le> B" "int (length (Data c)) < 2 ^ 62"
  proof (cases p)
    case (NoopAt q)
    with s noop.receives [where p = q and B = B and c = c and v = v] show ?thesis by auto
  next
    case (LatencyAt t q)
    with s b latency.receives [where t = t and p = q and B = B and c = c and v = v] show ?thesis by auto
  next
    case (BandwidthAt t q)
    with s b g bandwidth.receives [where t = t and p = q and B = B and c = c and v = v] show ?thesis by auto
  next
    case (SlicerAt t q)
    with s b g slicer.receives [where t = t and p = q and B = B and c = c and v = v] show ?thesis by auto
  qed (use b in simp)
  show "\<exists>p'. Pipe_step p v TimerFired = At p' \<and> Pipe_busy p' \<and> Pipe_work B p' < Pipe_work B p"
    if s: "1 \<le> B" "accepts (Pipe_offer p) TimerFired"
  proof (cases p)
    case (NoopAt q)
    with s noop.fires [where p = q and B = B and v = v] show ?thesis by auto
  next
    case (LatencyAt t q)
    with s b latency.fires [where t = t and p = q and B = B and v = v] show ?thesis by auto
  next
    case (BandwidthAt t q)
    with s b g bandwidth.fires [where t = t and p = q and B = B and v = v] show ?thesis by auto
  next
    case (SlicerAt t q)
    with s b g slicer.fires [where t = t and p = q and B = B and v = v] show ?thesis by auto
  qed (use b in simp)
  show "\<exists>p'. Pipe_step p v Sent = At p' \<and> Pipe_busy p' \<and> Pipe_work B p' + chunk_cost B c + 2 \<le> Pipe_work B p"
    if s: "1 \<le> B" "offered (Pipe_offer p) = Some c"
  proof (cases p)
    case (NoopAt q)
    with s noop.hands_on [where p = q and B = B and c = c and v = v] show ?thesis by auto
  next
    case (LatencyAt t q)
    with s b latency.hands_on [where t = t and p = q and B = B and c = c and v = v] show ?thesis by auto
  next
    case (BandwidthAt t q)
    with s b g bandwidth.hands_on [where t = t and p = q and B = B and c = c and v = v] show ?thesis by auto
  next
    case (SlicerAt t q)
    with s b g slicer.hands_on [where t = t and p = q and B = B and c = c and v = v] show ?thesis by auto
  qed (use b in simp)
next
  fix p v
  show "Pipe_busy p \<Longrightarrow> Pipe_offer p = Select \<Longrightarrow> Pipe_step p v InputClosed = ClosedReturned"
    by (cases p) (simp_all add: noop.closes latency.closes bandwidth.closes slicer.closes)
  show "Pipe_busy p \<Longrightarrow> Pipe_offer p \<noteq> SendOr c d" for c d
    by (cases p) (simp_all add: noop.no_timeout latency.no_timeout bandwidth.no_timeout slicer.no_timeout)
qed

end
