(* ===== verification/LinkDrain.thy ===== *)
theory LinkDrain
  imports Work LinkFlow
begin

text \<open>
  That a link (\<open>link.go\<close>) gets its data through: with documented settings, once the operations on its toxics have come to their end,
  its goroutines can take only a bounded number of steps, none of them panics, and when no
  step is left everything taken from the source has been delivered.
\<close>

subsection \<open>Busy stubs\<close>

fun thread_busy :: "goroutine \<Rightarrow> bool" where
  "thread_busy (Running p) = Pipe_busy p"
| "thread_busy (Sending p) = Pipe_busy p"
| "thread_busy _ = False"

text \<open>A chunk that is being sent is in the queue already.\<close>

fun thread_work :: "nat \<Rightarrow> goroutine \<Rightarrow> nat" where
  "thread_work B (Running p) = Pipe_work B p"
| "thread_work B (Sending p) = Pipe_work B p - (case offered (Pipe_offer p) of None \<Rightarrow> 0 | Some c \<Rightarrow> chunk_cost B c + 1)"
| "thread_work B _ = 0"

definition chunks_cost :: "nat \<Rightarrow> StreamChunk list \<Rightarrow> nat" where
  "chunks_cost B cs = sum_list (map (chunk_cost B) cs)"

lemma chunks_cost_simps [simp]:
  "chunks_cost B [] = 0" "chunks_cost B (c # cs) = chunk_cost B c + chunks_cost B cs"
  "chunks_cost B (cs @ ds) = chunks_cost B cs + chunks_cost B ds"
  by (simp_all add: chunks_cost_def)

text \<open>The end of the stream costs one step, which closes the stub.\<close>

definition own_work :: "nat \<Rightarrow> ToxicStub \<Rightarrow> nat" where
  "own_work B s = thread_work B (thread s) + (if is_closed s then 0 else 1)"

definition stub_work :: "nat \<Rightarrow> store \<Rightarrow> ToxicStub \<Rightarrow> nat" where
  "stub_work B \<sigma> s = chunks_cost B (queue (\<sigma> (Output s))) + own_work B s + chunks_cost (10 * B) (queue (\<sigma> (Input s)))"

lemma ten_chunk_cost: "chunk_cost (10 * B) c = 10 * chunk_cost B c"
  by (simp add: chunk_cost_def)

lemma busy_step:
  assumes b: "thread_busy (thread s)" and g: "thread_good (thread s)" and o: "\<not> is_closed s" "\<not> shut (\<sigma> (Output s))"
    and io: "Input s \<noteq> Output s" and a: "a \<noteq> AInterrupt" and st: "stub_step a v \<sigma> s = Some r"
    and small: "\<And>c. c \<in> set (queue (\<sigma> (Input s))) \<Longrightarrow> int (length (Data c)) < 2 ^ 62" and B: "1 \<le> B"
  shows "\<exists>\<sigma>' s'. r = Fine (\<sigma>', s') \<and> (is_closed s' \<or> thread_busy (thread s')) \<and> stub_work B \<sigma>' s' < stub_work B \<sigma> s"
proof (cases "thread s")
  case (Running p)
  then have p: "Pipe_busy p" "Pipe_good p \<and> keeps_data p" using b g Pipe_busy_keeps by auto
  show ?thesis
  proof (cases a)
    case ARecv
    with st Running have sel: "Pipe_offer p = Select" by (auto split: if_splits)
    show ?thesis
    proof (cases rule: chan_recv_cases [of "\<sigma> (Input s)"])
      case (value' c cs)
      then obtain p' where "Pipe_step p v (Received c) = At p'" "Pipe_busy p'" "Pipe_work B p' < Pipe_work B p + 10 * chunk_cost B c"
        using piped.receives [OF p(2,1) sel B small] by auto
      then show ?thesis using st ARecv Running sel value' io o(1)
        by (auto simp: resume_def stub_work_def own_work_def ten_chunk_cost split del: if_split)
    next
      case drained
      have "r = resume (Pipe_step p v InputClosed) \<sigma> s"
        using st ARecv Running sel by (simp add: drained(3) del: chan_recv_Drained)
      then show ?thesis using o io piped.closes [OF p(1) sel] Running
        by (simp add: resume_def stub_Close_def stub_Closed_def chan_close_def stub_work_def own_work_def split del: if_split)
    next
      case empty
      with st ARecv Running sel show ?thesis by simp
    qed
  next
    case APost
    with st Running obtain c where c: "offered (Pipe_offer p) = Some c" by (auto split: option.splits)
    with piped.no_timeout [OF p(1)] have "Pipe_offer p = Send c" by (auto simp: offered_Some)
    moreover from piped.hands_on [OF p(2,1) B c, of v] have "chunk_cost B c + 2 \<le> Pipe_work B p" by auto
    ultimately show ?thesis using st APost Running c p(1) o io
      by (auto simp: chan_send_def stub_work_def own_work_def split del: if_split)
  next
    case ATimer
    with st Running have acc: "accepts (Pipe_offer p) TimerFired" by (auto split: if_splits simp del: accepts_event_simps)
    from piped.fires [OF p(2,1) B acc, of v] obtain p' where "Pipe_step p v TimerFired = At p'" "Pipe_busy p'"
      "Pipe_work B p' < Pipe_work B p" by auto
    then show ?thesis using st ATimer Running acc o(1)
      by (auto simp: resume_def stub_work_def own_work_def simp del: accepts_event_simps split del: if_split)
  qed (use st Running a in \<open>auto split: if_splits\<close>)
next
  case (Sending p)
  then have p: "Pipe_busy p" "Pipe_good p \<and> keeps_data p" and c: "\<exists>c. Pipe_offer p = Send c" using b g Pipe_busy_keeps by auto
  then obtain c where c: "Pipe_offer p = Send c" "offered (Pipe_offer p) = Some c" by auto
  from piped.hands_on [OF p(2,1) B c(2), of v] obtain p' where "Pipe_step p v Sent = At p'" "Pipe_busy p'"
    "Pipe_work B p' + chunk_cost B c + 2 \<le> Pipe_work B p" by auto
  then show ?thesis using st Sending a c o(1)
    by (cases a) (auto simp: resume_def stub_work_def own_work_def split del: if_split split: if_split_asm)
qed (use b in auto)

subsection \<open>Stubs that an operation has stopped\<close>

definition paused :: "control \<Rightarrow> nat \<Rightarrow> nat set" where
  "paused c n = (case c of
       NoOp \<Rightarrow> {}
     | Adding w ph \<Rightarrow> insert (n - 1) (if ph = Waiting then {n - 2} else {})
     | Updating w ph \<Rightarrow> (if ph = Waiting then {nat (tw_Index w)} else {})
     | Removing w ph \<Rightarrow> (if ph = Waiting then {nat (tw_Index w)} else {})
     | Stopping w h b \<Rightarrow> insert (nat (tw_Index w)) (if h = HWaiting \<or> h = HResult True then {nat (tw_Index w) - 1} else {})
     | Collecting w h \<Rightarrow> {}
     | Flushing w b \<Rightarrow> {nat (tw_Index w), nat (tw_Index w) - 1})"

definition ctl_fit :: "control \<Rightarrow> ToxicStub list \<Rightarrow> bool" where
  "ctl_fit c ss = (case c of
       Adding w ph \<Rightarrow> toxic_documented (tw_Toxic w)
     | Updating w ph \<Rightarrow> toxic_documented (tw_Toxic w)
     | Collecting w h \<Rightarrow> is_closed (ss ! (nat (tw_Index w) - 1))
     | _ \<Rightarrow> True)"

definition fit :: "ToxicLink \<Rightarrow> bool" where
  "fit l \<longleftrightarrow> (\<forall>k < length (stubs l). is_closed (stubs l ! k) \<or> k \<in> paused (ctl l) (length (stubs l))
        \<or> thread_busy (thread (stubs l ! k))) \<and> ctl_fit (ctl l) (stubs l)"

definition chain_documented :: "ToxicWrapper list \<Rightarrow> bool" where
  "chain_documented chain \<longleftrightarrow> (\<forall>w \<in> set chain. toxic_documented (tw_Toxic w))"

fun event_documented :: "link_event \<Rightarrow> bool" where
  "event_documented (BeginAdd w) = toxic_documented (tw_Toxic w)"
| "event_documented (BeginUpdate w) = toxic_documented (tw_Toxic w)"
| "event_documented _ = True"

lemma Run_busy: "toxic_documented (tw_Toxic w) \<Longrightarrow> thread_busy (thread (Run d w s))"
  by (simp add: Run_def Pipe_start_busy)

lemma fit_simps [simp]:
  "fit (l\<lparr>chans := c\<rparr>) = fit l" "fit (l\<lparr>read_state := r\<rparr>) = fit l" "fit (l\<lparr>write_state := w\<rparr>) = fit l"
  "fit (l\<lparr>taken := t\<rparr>) = fit l" "fit (l\<lparr>delivered := d\<rparr>) = fit l"
  by (simp_all add: fit_def)

text \<open>No chunk in flight is too long for the arithmetic of the toxics.\<close>

definition small :: "ToxicLink \<Rightarrow> bool" where
  "small l \<longleftrightarrow> length (in_flight l) < 2 ^ 62"

lemma small_chunk:
  assumes "small l" and "s \<in> set (stubs l)" and "c \<in> set (queue (chans l (Input s)))"
  shows "int (length (Data c)) < 2 ^ 62"
proof -
  have q: "c \<in> set cs \<Longrightarrow> length (Data c) \<le> length (chunk_bytes cs)" for cs
    by (induction cs) auto
  have "s \<in> set ss \<Longrightarrow> length (Data c) \<le> length (front (chans l) ss)" for ss
    using q [OF assms(3)] by (induction ss) auto
  from this [OF assms(2)] assms(1) have "length (Data c) < 2 ^ 62" by (simp add: small_def in_flight_def)
  then show ?thesis by (metis of_nat_less_iff of_nat_numeral of_nat_power)
qed

lemma on_stub_parts:
  assumes inv: "link_inv l" and on: "on_stub k a v l = Some r"
  shows "k < length (stubs l)" "\<not> is_closed (stubs l ! k)" "thread_good (thread (stubs l ! k))"
    "\<not> shut (chans l (Output (stubs l ! k)))" "Input (stubs l ! k) \<noteq> Output (stubs l ! k)"
    "\<exists>r'. stub_step a v (chans l) (stubs l ! k) = Some r' \<and>
       r = (case r' of Crash \<Rightarrow> Crash | Fine (\<sigma>, s) \<Rightarrow> Fine (l\<lparr>chans := \<sigma>, stubs := (stubs l)[k := s]\<rparr>))"
proof -
  from on show k: "k < length (stubs l)" by (auto simp: on_stub_def split: if_splits)
  from on k show st: "\<exists>r'. stub_step a v (chans l) (stubs l ! k) = Some r' \<and>
       r = (case r' of Crash \<Rightarrow> Crash | Fine (\<sigma>, s) \<Rightarrow> Fine (l\<lparr>chans := \<sigma>, stubs := (stubs l)[k := s]\<rparr>))"
    by (auto simp: on_stub_def split: option.splits outcome.splits)
  then have t: "thread (stubs l ! k) \<noteq> Exited" using stub_step_thread by blast
  then have "\<not> stopped (stubs l ! k)" by (simp add: stopped_def)
  from live_stub [OF inv k disjI1 [OF this]] obtain as bs where ab: "live l = as @ (stubs l ! k) # bs" by metis
  have ok: "stub_ok (writers l) (chans l) (head_chan (link_output l) bs) (stubs l ! k)"
    using link_invD(5) [OF inv] ab by (simp add: plumbed_split)
  moreover have "Input (stubs l ! k) \<noteq> head_chan (link_output l) bs" using live_distinct [OF inv] ab by (cases bs) auto
  ultimately show "\<not> is_closed (stubs l ! k)" "thread_good (thread (stubs l ! k))"
    "\<not> shut (chans l (Output (stubs l ! k)))" "Input (stubs l ! k) \<noteq> Output (stubs l ! k)"
    using t by (auto simp: stub_ok_def)
qed

lemma ctl_fit_mono:
  "ctl_fit c ss \<Longrightarrow> (\<And>j. is_closed (ss ! j) \<Longrightarrow> is_closed (ss' ! j)) \<Longrightarrow> ctl_fit c ss'"
  by (auto simp: ctl_fit_def split: control.splits)

lemma closed_update: "\<not> is_closed (ss ! k) \<Longrightarrow> is_closed (ss ! j) \<Longrightarrow> is_closed (ss[k := s] ! j)"
  by (metis nth_list_update_neq)

lemma on_stub_fit:
  assumes inv: "link_inv l" and f: "fit l" and sm: "small l" and on: "on_stub k a v l = Some (Fine l')" and a: "a \<noteq> AInterrupt"
  shows "fit l'"
proof -
  note p = on_stub_parts [OF inv on]
  from p(6) obtain r where r: "stub_step a v (chans l) (stubs l ! k) = Some r"
    "Fine l' = (case r of Crash \<Rightarrow> Crash | Fine (\<sigma>, s) \<Rightarrow> Fine (l\<lparr>chans := \<sigma>, stubs := (stubs l)[k := s]\<rparr>))" by blast
  then obtain \<sigma> s where st: "stub_step a v (chans l) (stubs l ! k) = Some (Fine (\<sigma>, s))"
    and l': "l' = l\<lparr>chans := \<sigma>, stubs := (stubs l)[k := s]\<rparr>" by (cases r) auto
  have "is_closed s \<or> k \<in> paused (ctl l) (length (stubs l)) \<or> thread_busy (thread s)"
  proof (cases "thread_busy (thread (stubs l ! k))")
    case True
    have "int (length (Data c)) < 2 ^ 62" if "c \<in> set (queue (chans l (Input (stubs l ! k))))" for c
      using small_chunk [OF sm _ that] p(1) by simp
    from busy_step [OF True p(3,2,4,5) a st this order_refl] show ?thesis by auto
  next
    case False
    with f p(1,2) show ?thesis by (auto simp: fit_def)
  qed
  moreover have "ctl_fit (ctl l) ((stubs l)[k := s])"
    using f by (auto simp: fit_def intro: ctl_fit_mono closed_update [OF p(2)])
  ultimately show ?thesis using f p(1) by (auto simp: fit_def l' nth_list_update)
qed

lemma fit_ctl:
  "fit l \<Longrightarrow> paused (ctl l) (length (stubs l)) \<subseteq> paused c (length (stubs l)) \<Longrightarrow> ctl_fit c (stubs l) \<Longrightarrow> fit (l\<lparr>ctl := c\<rparr>)"
  by (auto simp: fit_def)


subsection \<open>Every event keeps the stubs fit\<close>

lemma interrupted_fit:
  assumes inv: "link_inv l" and f: "fit l" and on: "on_stub k AInterrupt v l = Some (Fine l1)"
    and pa: "insert k (paused (ctl l) (length (stubs l))) \<subseteq> paused c (length (stubs l))"
    and cf: "\<And>ss. (\<And>j. is_closed (stubs l ! j) \<Longrightarrow> is_closed (ss ! j)) \<Longrightarrow> ctl_fit c ss"
  shows "fit (l1\<lparr>ctl := c\<rparr>)"
proof -
  note p = on_stub_parts [OF inv on]
  from p(6) obtain r where "Fine l1 = (case r of Crash \<Rightarrow> Crash | Fine (\<sigma>, s) \<Rightarrow> Fine (l\<lparr>chans := \<sigma>, stubs := (stubs l)[k := s]\<rparr>))"
    by blast
  then obtain \<sigma> s where l1: "l1 = l\<lparr>chans := \<sigma>, stubs := (stubs l)[k := s]\<rparr>" by (cases r) auto
  have "ctl_fit c ((stubs l)[k := s])" by (intro cf closed_update [OF p(2)])
  then show ?thesis using f pa p(1) by (auto simp: fit_def l1 nth_list_update)
qed

lemma after_closed_fit:
  assumes inv: "link_inv l" and f: "fit l" and t: "ctl_target l = Some (k, Asking)" and r: "after_closed l = Fine l'"
  shows "fit l'"
proof (cases "\<exists>w ph. ctl l = Adding w ph")
  case True
  then obtain w where ad: "ctl l = Adding w Asking" using t by (auto simp: ctl_target_def)
  let ?i = "length (stubs l) - 1" let ?s = "stubs l ! ?i"
  from r ad obtain \<sigma> s' where c: "stub_Close (chans l) (?s\<lparr>Output := Input ?s\<rparr>) = Fine (\<sigma>, s')"
    and l': "l' = l\<lparr>chans := \<sigma>, stubs := (stubs l)[?i := s'], ctl := NoOp\<rparr>"
    by (auto simp: after_closed_def Let_def split: outcome.splits)
  have "is_closed s'" using c by (auto simp: stub_Close_def stub_Closed_def split: if_splits option.splits)
  then show ?thesis using f ad by (auto simp: l' fit_def ctl_fit_def paused_def nth_list_update)
next
  case False
  with r t f show ?thesis
    by (auto simp: after_closed_def ctl_target_def fit_def ctl_fit_def paused_def split: control.splits)
qed

lemma after_exited_fit:
  assumes inv: "link_inv l" and f: "fit l" and t: "ctl_target l = Some (k, Waiting)"
    and ch: "chain_documented chain" and r: "after_exited chain ds l = Fine l'"
  shows "fit l'"
proof (cases "ctl l")
  case (Adding w ph)
  then have ph: "ph = Waiting" "toxic_documented (tw_Toxic w)" using t f by (auto simp: ctl_target_def fit_def ctl_fit_def)
  let ?i = "length (stubs l) - 1"
  from r Adding have c: "chain ! (?i - 1) \<in> set chain" and
    l': "l' = l\<lparr>stubs := (stubs l)[?i := Run (ds 0) w (stubs l ! ?i),
      ?i - 1 := Run (ds 1) (chain ! (?i - 1)) ((stubs l ! (?i - 1))\<lparr>Output := Input (stubs l ! ?i)\<rparr>)], ctl := NoOp\<rparr>"
    by (auto simp: after_exited_def Let_def split: if_splits)
  have "toxic_documented (tw_Toxic (chain ! (?i - 1)))" using ch c by (simp add: chain_documented_def)
  moreover have "?i - 1 = length (stubs l) - 2" by simp
  ultimately show ?thesis
    using f ph Adding by (auto simp: l' fit_def ctl_fit_def paused_def nth_list_update Run_busy)
next
  case (Updating w ph)
  then have "ph = Waiting" "toxic_documented (tw_Toxic w)" using t f by (auto simp: ctl_target_def fit_def ctl_fit_def)
  moreover have "nat (tw_Index w) < length (stubs l)" using link_invD(7) [OF inv] Updating by (simp add: ctl_ok_def)
  ultimately show ?thesis using r Updating f
    by (auto simp: after_exited_def Let_def fit_def ctl_fit_def paused_def nth_list_update Run_busy split: if_splits)
next
  case (Removing w ph)
  then show ?thesis using r t f by (auto simp: after_exited_def ctl_target_def fit_def ctl_fit_def paused_def)
qed (use t in \<open>auto simp: ctl_target_def\<close>)

lemma stop_round_fit:
  assumes inv: "link_inv l" and f: "fit l" and ct: "ctl l = Stopping w h False" and r: "stop_round w h l = Some (Fine l')"
  shows "fit l'"
proof -
  let ?i = "nat (tw_Index w)"
  have c: "0 < ?i" "?i < length (stubs l)" using link_invD(7) [OF inv] ct by (auto simp: ctl_ok_def)
  show ?thesis
  proof (cases "chan_recv (chans l (Input (stubs l ! ?i)))")
    case (Value x ch)
    with r obtain \<sigma> where "l' = l\<lparr>chans := \<sigma>, ctl := Stopping w h True\<rparr>"
      by (auto simp: stop_round_def set_ctl_def post_on_def Let_def split: outcome.splits option.splits)
    then show ?thesis using f ct by (auto simp: fit_def ctl_fit_def paused_def)
  next
    case Drained
    from r [unfolded stop_round_def Let_def Drained received.case] obtain \<sigma> s' c'
      where cl: "stub_Close (chans l) (stubs l ! ?i) = Fine (\<sigma>, s')"
      and l': "l' = l\<lparr>chans := \<sigma>, stubs := (stubs l)[?i := s'], ctl := c'\<rparr>" and c': "c' = NoOp \<or> c' = Collecting w h"
      by (auto split: outcome.splits if_splits)
    obtain as p s bs where st: "stubs l = as @ p # s # bs" "length as = ?i - 1" "stubs l ! (?i - 1) = p" "stubs l ! ?i = s"
      "stubs l = (as @ [p]) @ s # bs" "length (as @ [p]) = ?i" by (rule op_split [OF c])
    have "stub_ok (writers l) (chans l) (Input s) p"
      using link_invD(5) [OF inv] ct st(1) by (auto simp: plumbed_split)
    moreover have "shut (chans l (Input s))" using Drained st(4) by simp
    ultimately have "is_closed (stubs l ! (?i - 1))" using st(3) by (auto simp: stub_ok_def)
    moreover have "is_closed s'" using cl by (auto simp: stub_Close_def stub_Closed_def split: if_splits option.splits)
    ultimately have cl': "is_closed ((stubs l)[?i := s'] ! (?i - 1))" "is_closed ((stubs l)[?i := s'] ! ?i)"
      using c by (auto simp: nth_list_update)
    have "is_closed ((stubs l)[?i := s'] ! k) \<or> thread_busy (thread ((stubs l)[?i := s'] ! k))" if "k < length (stubs l)" for k
    proof (cases "k = ?i \<or> k = ?i - 1")
      case False
      then show ?thesis using f ct that by (auto simp: fit_def paused_def split: if_splits)
    qed (use cl' in auto)
    with c' cl' show ?thesis by (auto simp: l' fit_def ctl_fit_def)
  next
    case Empty
    with r show ?thesis by (simp add: stop_round_def Let_def)
  qed
qed

lemma flush_round_fit:
  assumes "fit l" and "ctl l = Flushing w False" and "flush_round w l = Some (Fine l')"
  shows "fit l'"
proof -
  from assms(3) obtain \<sigma> where "l' = l\<lparr>chans := \<sigma>, ctl := Flushing w True\<rparr>"
    by (auto simp: flush_round_def set_ctl_def post_on_def Let_def
        split: outcome.splits option.splits received.splits if_splits)
  then show ?thesis using assms(1,2) by (auto simp: fit_def ctl_fit_def paused_def)
qed

lemma finish_remove_fit:
  assumes inv: "link_inv l" and f: "fit l" and ct: "ctl l = Flushing w False"
    and ch: "chain_documented chain" and r: "finish_remove chain ds w l = Some (Fine l')"
  shows "fit l'"
proof -
  let ?i = "nat (tw_Index w)" let ?r = "Run (ds 0) (chain ! (?i - 1)) ((stubs l ! (?i - 1))\<lparr>Output := Output (stubs l ! ?i)\<rparr>)"
  have c: "0 < ?i" "?i < length (stubs l)" using link_invD(7) [OF inv] ct by (auto simp: ctl_ok_def)
  from r have "chain ! (?i - 1) \<in> set chain" and
    l': "l' = l\<lparr>stubs := take (?i - 1) (stubs l) @ [?r] @ drop (Suc ?i) (stubs l), ctl := NoOp\<rparr>"
    by (auto simp: finish_remove_def Let_def split: if_splits)
  then have b: "thread_busy (thread ?r)" using ch by (intro Run_busy) (simp add: chain_documented_def)
  have old: "is_closed (stubs l ! j) \<or> thread_busy (thread (stubs l ! j))"
    if "j < length (stubs l)" "j \<noteq> ?i" "j \<noteq> ?i - 1" for j
    using f that ct by (auto simp: fit_def paused_def)
  have all: "is_closed s \<or> thread_busy (thread s)" if "s \<in> set (stubs l')" for s
  proof -
    from that consider "s \<in> set (take (?i - 1) (stubs l))" | "s = ?r" | "s \<in> set (drop (Suc ?i) (stubs l))"
      by (auto simp: l')
    then show ?thesis
    proof cases
      case 1
      then obtain j where "j < ?i - 1" "s = stubs l ! j" using c by (auto simp: in_set_conv_nth)
      with old [of j] c show ?thesis by auto
    next
      case 2
      with b show ?thesis by simp
    next
      case 3
      then obtain j where "j < length (drop (Suc ?i) (stubs l))" "s = drop (Suc ?i) (stubs l) ! j" by (metis in_set_conv_nth)
      with old [of "Suc ?i + j"] c show ?thesis by auto
    qed
  qed
  have "ctl l' = NoOp" using l' by simp
  with all [OF nth_mem] show ?thesis by (auto simp: fit_def ctl_fit_def paused_def)
qed


lemma link_event_fit:
  assumes inv: "link_inv l" and f: "fit l" and sm: "small l" and st: "link_event_step chain e l = Some (Fine l')"
    and ch: "chain_documented chain" and e: "event_documented e"
  shows "fit l'"
proof (cases e)
  case (Step x)
  with st have s: "link_step chain x l = Some (Fine l')" by (simp add: link_event_step_def)
  show ?thesis
  proof (cases x)
    case (StubAct k a v)
    with s on_stub_fit [OF inv f sm] show ?thesis by (auto split: if_splits)
  next
    case OpClosed
    with s after_closed_fit [OF inv f] show ?thesis by (auto split: option.splits phase.splits if_splits)
  next
    case (OpInterrupt v)
    with s obtain k l1 where t: "ctl_target l = Some (k, Asking)" and on: "on_stub k AInterrupt v l = Some (Fine l1)"
      and l': "l' = l1\<lparr>ctl := set_phase Waiting (ctl l)\<rparr>"
      using on_stub_ctl by (auto simp: map_fine simp del: map_option_eq_Some split: option.splits phase.splits)
    show ?thesis unfolding l'
      by (rule interrupted_fit [OF inv f on])
        (use t f in \<open>auto simp: ctl_target_def paused_def fit_def ctl_fit_def split: control.splits\<close>)
  next
    case (HelpInterrupt v)
    with s obtain k l1 where t: "helper_of l = Some (k, HAsking)" and on: "on_stub k AInterrupt v l = Some (Fine l1)"
      and l': "l' = l1\<lparr>ctl := set_helper HWaiting (ctl l)\<rparr>"
      using on_stub_ctl by (auto simp: map_fine simp del: map_option_eq_Some split: option.splits helper.splits)
    from on_stub_parts(2) [OF inv on] t f obtain w b where "ctl l = Stopping w HAsking b" "k = nat (tw_Index w) - 1"
      by (auto simp: helper_of_def fit_def ctl_fit_def split: control.splits)
    then show ?thesis unfolding l'
      by (intro interrupted_fit [OF inv f on]) (auto simp: paused_def ctl_fit_def)
  next
    case (OpExited ds)
    with s after_exited_fit [OF inv f _ ch] show ?thesis by (auto split: option.splits phase.splits if_splits)
  next
    case OpRound
    with s stop_round_fit [OF inv f] flush_round_fit [OF f] show ?thesis by (auto split: control.splits bool.splits)
  next
    case (OpFinish ds)
    with s finish_remove_fit [OF inv f _ ch] show ?thesis by (auto split: control.splits bool.splits)
  next
    case (ReadChunk bs tm)
    with s f show ?thesis by (auto split: if_splits option.splits)
  next
    case OpTimeout
    with s f show ?thesis
      by (auto simp: Let_def fit_def ctl_fit_def paused_def split: control.splits bool.splits if_splits)
  next
    case HelpExited
    with s f show ?thesis
      by (auto simp: helper_of_def fit_def ctl_fit_def paused_def split: control.splits helper.splits if_splits)
  next
    case OpResult
    with s f show ?thesis
      by (auto simp: fit_def ctl_fit_def paused_def split: control.splits helper.splits bool.splits if_splits)
  next
    case HelpClosed
    with s f show ?thesis
      by (auto simp: helper_of_def fit_def ctl_fit_def paused_def split: control.splits helper.splits if_splits)
  next
    case OpSent
    with s f show ?thesis by (auto simp: fit_def ctl_fit_def paused_def split: control.splits bool.splits if_splits)
  next
    case OpCollect
    with s f show ?thesis by (auto simp: fit_def ctl_fit_def paused_def split: control.splits helper.splits)
  qed (use s f in \<open>auto split: if_splits option.splits received.splits\<close>)
next
  case (BeginAdd w)
  then obtain s c n where "l' = l\<lparr>chans := c, next_chan := n, stubs := stubs l @ [s], ctl := Adding w Asking\<rparr>" "ctl l = NoOp"
    using st by (auto simp: link_event_step_def link_AddToxic_def Let_def split: if_splits)
  then show ?thesis using f e BeginAdd by (auto simp: fit_def ctl_fit_def paused_def nth_append less_Suc_eq)
next
  case (BeginUpdate w)
  then show ?thesis using st f e
    by (auto simp: link_event_step_def link_UpdateToxic_def fit_def ctl_fit_def paused_def split: if_splits)
next
  case (BeginRemove w)
  then show ?thesis using st f e
    by (auto simp: link_event_step_def link_RemoveToxic_def fit_def ctl_fit_def paused_def split: if_splits)
qed


subsection \<open>The work of a link\<close>

text \<open>\<open>n\<close> is the number of stubs behind the list.\<close>

fun line_work :: "nat \<Rightarrow> store \<Rightarrow> ToxicStub list \<Rightarrow> nat" where
  "line_work n \<sigma> [] = 0"
| "line_work n \<sigma> (s # ss) = own_work (10 ^ (n + length ss)) s
     + chunks_cost (10 ^ Suc (n + length ss)) (queue (\<sigma> (Input s))) + line_work n \<sigma> ss"

definition link_work :: "ToxicLink \<Rightarrow> nat" where
  "link_work l = chunks_cost 1 (queue (chans l (link_output l))) + line_work 0 (chans l) (stubs l)"

lemma line_work_append [simp]:
  "line_work n \<sigma> (as @ bs) = line_work (n + length bs) \<sigma> as + line_work n \<sigma> bs"
  by (induction as) (auto simp: algebra_simps)

lemma line_work_same:
  "(\<And>s. s \<in> set ss \<Longrightarrow> queue (\<sigma>' (Input s)) = queue (\<sigma> (Input s))) \<Longrightarrow> line_work n \<sigma>' ss = line_work n \<sigma> ss"
  by (induction ss) auto

text \<open>A step at one stub changes its own share only: the channel in front of it and the one it writes to.\<close>

lemma line_work_change:
  assumes d: "distinct (out # map Input (as @ s # bs))" and i: "Input s' = Input s"
    and o: "Output s = head_chan out bs" "Output s' = head_chan out bs"
    and q: "\<And>c. c \<noteq> Input s \<Longrightarrow> c \<noteq> head_chan out bs \<Longrightarrow> queue (\<sigma>' c) = queue (\<sigma> c)"
    and w: "stub_work (10 ^ length bs) \<sigma>' s' < stub_work (10 ^ length bs) \<sigma> s"
  shows "chunks_cost 1 (queue (\<sigma>' out)) + line_work 0 \<sigma>' (as @ s' # bs)
    < chunks_cost 1 (queue (\<sigma> out)) + line_work 0 \<sigma> (as @ s # bs)"
proof -
  have n: "Input s \<notin> Input ` set as" "head_chan out bs \<notin> Input ` set as" using d by (cases bs; auto)+
  have a: "line_work m \<sigma>' as = line_work m \<sigma> as" for m
    by (rule line_work_same) (metis n q imageI)
  show ?thesis
  proof (cases bs)
    case Nil
    with a w o i show ?thesis by (simp add: stub_work_def)
  next
    case (Cons b bs')
    have "Input s \<notin> Input ` set bs'" "head_chan out bs \<notin> Input ` set bs'" using d Cons by auto
    then have "line_work 0 \<sigma>' bs' = line_work 0 \<sigma> bs'" by (intro line_work_same) (metis q imageI)
    moreover have "queue (\<sigma>' out) = queue (\<sigma> out)" by (rule q) (use d Cons in auto)
    ultimately show ?thesis using Cons a w o i by (simp add: stub_work_def)
  qed
qed

text \<open>The steps that move data on: of the goroutines of the stubs, and of \<open>link.write\<close>.\<close>

fun draining :: "link_act \<Rightarrow> bool" where
  "draining (StubAct k a v) = True"
| "draining WriteChunk = True"
| "draining x = False"

lemma drain_step:
  assumes inv: "link_inv l" and f: "fit l" and sm: "small l" and no: "ctl l = NoOp"
    and dr: "draining x" and st: "link_step chain x l = Some r"
  shows "\<exists>l'. r = Fine l' \<and> link_work l' < link_work l \<and> ctl l' = NoOp \<and> write_state l' = write_state l \<and> taken l' = taken l"
proof (cases x)
  case (StubAct k a v)
  with st have on: "on_stub k a v l = Some r" and a: "a \<noteq> AInterrupt" by (auto split: if_splits)
  note p = on_stub_parts [OF inv on]
  from p(6) obtain r' where sr: "stub_step a v (chans l) (stubs l ! k) = Some r'"
    "r = (case r' of Crash \<Rightarrow> Crash | Fine (\<sigma>, s) \<Rightarrow> Fine (l\<lparr>chans := \<sigma>, stubs := (stubs l)[k := s]\<rparr>))" by blast
  have b: "thread_busy (thread (stubs l ! k))" using f no p(1,2) by (auto simp: fit_def paused_def)
  have sc: "int (length (Data c)) < 2 ^ 62" if "c \<in> set (queue (chans l (Input (stubs l ! k))))" for c
    using small_chunk [OF sm _ that] p(1) by simp
  have "\<exists>l'. r = Fine l'" using busy_step [OF b p(3,2,4,5) a sr(1) sc order_refl] sr(2) by auto
  then obtain l' where r: "r = Fine l'" by blast
  from inv on [unfolded r] show ?thesis
  proof (cases rule: on_stub_cases)
    case (1 as s s' bs \<sigma>')
    have "stub_work (10 ^ length bs) \<sigma>' s' < stub_work (10 ^ length bs) (chans l) s"
      using busy_step [OF b p(3,2,4,5) a sr(1) sc, of "10 ^ length bs"] sr(1) 1(2,4) by auto
    moreover have "Output s' = head_chan (link_output l) bs" using stub_step_frame(2) [OF 1(4)] 1(14) by simp
    moreover have "queue (\<sigma>' c) = queue (chans l c)" if "c \<noteq> Input s" "c \<noteq> head_chan (link_output l) bs" for c
      using stub_step_frame(3) [OF 1(4), of c] that 1(14) by simp
    ultimately have "link_work l' < link_work l"
      using line_work_change [OF 1(10,13,14), of \<sigma>' "chans l"] 1(5,6,7) no by (simp add: link_work_def)
    with r 1(5) no show ?thesis by simp
  qed
next
  case WriteChunk
  with st obtain c cs where q: "queue (chans l (link_output l)) = c # cs"
    and r: "r = Fine (l\<lparr>chans := (chans l)(link_output l := (chans l (link_output l))\<lparr>queue := cs\<rparr>), delivered := delivered l @ Data c\<rparr>)"
    by (auto simp: chan_recv_Value split: if_splits received.splits)
  have "line_work 0 ((chans l)(link_output l := (chans l (link_output l))\<lparr>queue := cs\<rparr>)) (stubs l) = line_work 0 (chans l) (stubs l)"
  proof (rule line_work_same)
    fix s assume "s \<in> set (stubs l)"
    then have "Input s \<in> Input ` set (stubs l)" by simp
    then have "Input s \<noteq> link_output l" using link_invD(1) [OF inv] by (metis distinct.simps(2) set_map)
    then show "queue (((chans l)(link_output l := (chans l (link_output l))\<lparr>queue := cs\<rparr>)) (Input s)) = queue (chans l (Input s))"
      by simp
  qed
  then show ?thesis using r q no by (simp add: link_work_def chunk_cost_def)
qed (use dr in auto)

subsection \<open>Nothing left to do\<close>

lemma idle_stub:
  assumes ok: "stub_ok W \<sigma> nx s" and out: "queue (\<sigma> nx) = []"
    and b: "is_closed s \<and> queue (\<sigma> (Input s)) = [] \<or> thread_busy (thread s)"
    and no: "\<And>a v. a \<noteq> AInterrupt \<Longrightarrow> stub_step a v \<sigma> s = None"
  shows "queue (\<sigma> (Input s)) = [] \<and> thread_held (thread s) = []"
proof (cases "thread s")
  case Exited
  with b show ?thesis by simp
next
  case (Running p)
  with b ok have p: "Pipe_busy p" "Pipe_good p" "Output s = nx" "\<not> shut (\<sigma> nx)" by (auto simp: stub_ok_def)
  show ?thesis
  proof (cases "Pipe_offer p")
    case Select
    with no [of ARecv] Running have "queue (\<sigma> (Input s)) = []"
      by (cases rule: chan_recv_cases [of "\<sigma> (Input s)"]) auto
    then show ?thesis using stubbed.select_idle [OF p(2) Select] Running by simp
  next
    case (Send c)
    with no [of APost] Running p show ?thesis by (simp add: chan_send_def)
  next
    case (SendOr c d)
    with piped.no_timeout [OF p(1), of c d] show ?thesis by simp
  qed (use no [of ATimer] Running in auto)
next
  case (Sending p)
  with b ok have "Output s = nx" by (auto simp: stub_ok_def)
  then have "settled (\<sigma> (Output s))" using out by (simp add: settled_def)
  with no [of ASent] Sending show ?thesis by simp
next
  case (Writing p)
  with b ok show ?thesis by (auto simp: stub_ok_def)
qed

lemma idle_line:
  "plumbed W \<sigma> out ss \<Longrightarrow> queue (\<sigma> out) = [] \<Longrightarrow>
     (\<And>s. s \<in> set ss \<Longrightarrow> is_closed s \<and> queue (\<sigma> (Input s)) = [] \<or> thread_busy (thread s)) \<Longrightarrow>
     (\<And>s a v. s \<in> set ss \<Longrightarrow> a \<noteq> AInterrupt \<Longrightarrow> stub_step a v \<sigma> s = None) \<Longrightarrow> front \<sigma> ss = []"
proof (induction ss arbitrary: out rule: rev_induct)
  case (snoc s ss)
  then have "plumbed W \<sigma> (Input s) ss" "stub_ok W \<sigma> out s" by (simp_all add: plumbed_split)
  from idle_stub [OF this(2) snoc.prems(2)] snoc.prems(3,4) have "queue (\<sigma> (Input s)) = [] \<and> thread_held (thread s) = []"
    by auto
  with snoc.IH [OF \<open>plumbed W \<sigma> (Input s) ss\<close>] snoc.prems(3,4) show ?case by simp
qed simp

lemma drained:
  assumes inv: "link_inv l" and f: "fit l" and se: "sealed l" and no: "ctl l = NoOp" and w: "write_state l = WCopying"
    and stuck: "\<And>x. draining x \<Longrightarrow> link_step chain x l = None"
  shows "in_flight l = []"
proof -
  have out: "queue (chans l (link_output l)) = []"
    using stuck [of WriteChunk] w by (cases rule: chan_recv_cases [of "chans l (link_output l)"]) auto
  have n: "stub_step a v (chans l) s = None" if "s \<in> set (stubs l)" "a \<noteq> AInterrupt" for s a v
  proof -
    from that(1) obtain k where "k < length (stubs l)" "s = stubs l ! k" by (metis in_set_conv_nth)
    with stuck [of "StubAct k a v"] that(2) show ?thesis
      by (auto simp: on_stub_def split: option.splits outcome.splits)
  qed
  have b: "is_closed s \<and> queue (chans l (Input s)) = [] \<or> thread_busy (thread s)" if "s \<in> set (stubs l)" for s
  proof -
    from that obtain k where "k < length (stubs l)" "s = stubs l ! k" by (metis in_set_conv_nth)
    with f no se that show ?thesis by (auto simp: fit_def paused_def sealed_def ended_def)
  qed
  have "plumbed (writers l) (chans l) (link_output l) (stubs l)" using link_invD(5) [OF inv] no by simp
  from idle_line [OF this out b n] out show ?thesis by (simp add: in_flight_def)
qed


subsection \<open>Runs with documented settings\<close>

lemma documented_keeping: "toxic_documented t \<Longrightarrow> keeping t"
  by (cases t) auto

definition run_documented :: "(ToxicWrapper list \<times> link_event) list \<Rightarrow> bool" where
  "run_documented es \<longleftrightarrow> run_is_clean es \<and> list_all (\<lambda>(chain, e). chain_documented chain \<and> event_documented e) es"

lemma chain_documented_keeps: "chain_documented chain \<Longrightarrow> chain_keeps chain"
  by (auto simp: chain_documented_def chain_keeps_def intro: documented_keeping)

lemma advances_bounded:
  assumes "advances d l l'" and "length (delivered l @ in_flight l) \<le> length (taken l)"
  shows "length (delivered l' @ in_flight l') \<le> length (taken l')" "length (taken l) \<le> length (taken l')"
proof -
  from assms(1) obtain x where x: "taken l' = taken l @ x" "subseq (delivered l' @ in_flight l') (delivered l @ in_flight l @ x)"
    by (auto simp: advances_def)
  from list_emb_length [OF x(2)] x(1) assms(2)
  show "length (delivered l' @ in_flight l') \<le> length (taken l')" "length (taken l) \<le> length (taken l')" by auto
qed

lemma link_run_fit:
  "link_inv l \<Longrightarrow> fit l \<Longrightarrow> length (delivered l @ in_flight l) \<le> length (taken l) \<Longrightarrow> run_documented es \<Longrightarrow>
     link_run es l = Some (Fine l') \<Longrightarrow> length (taken l') < 2 ^ 62 \<Longrightarrow> fit l'"
proof (induction es arbitrary: l)
  case (Cons ce es)
  obtain chain e where ce: "ce = (chain, e)" by (cases ce)
  with Cons.prems(5) obtain l1 where s: "link_event_step chain e l = Some (Fine l1)" "link_run es l1 = Some (Fine l')"
    by (auto split: option.splits outcome.splits)
  have d: "chain_documented chain" "event_documented e" "run_documented es"
    using Cons.prems(4) ce by (auto simp: run_documented_def run_is_clean_def)
  note a = advances_bounded [OF link_event_advances [OF Cons.prems(1) s(1)] Cons.prems(3)]
  note i = link_event_inv [OF Cons.prems(1) s(1)]
  have "length (taken l1) \<le> length (taken l')"
    using advances_bounded(2) [OF link_run_advances [OF i s(2)] a(1)] .
  then have "small l" using a(2) Cons.prems(3,6) by (simp add: small_def)
  from Cons.IH [OF i link_event_fit [OF Cons.prems(1,2) this s(1) d(1,2)] a(1) d(3) s(2) Cons.prems(6)] show ?case .
qed simp

lemma new_link_fit:
  assumes "chain_documented chain" shows "fit (new_link ds chain dir)"
proof -
  obtain ss \<sigma> out where m: "make_stubs chain (\<lambda>_. make_chan 0) 0 = (ss, \<sigma>, out)" by (metis prod_cases3)
  have "thread_busy (thread (Run d (chain ! i) s))" if "i < length chain" for d i s
    using assms that by (intro Run_busy) (simp add: chain_documented_def)
  then show ?thesis by (simp add: fit_def ctl_fit_def new_link_fields [OF m])
qed

lemma drain_run:
  "link_inv l \<Longrightarrow> fit l \<Longrightarrow> all_keep l \<Longrightarrow> sealed l \<Longrightarrow> ctl l = NoOp \<Longrightarrow> length (delivered l @ in_flight l) < 2 ^ 62 \<Longrightarrow> chain_documented chain \<Longrightarrow> list_all draining xs \<Longrightarrow>
     link_run (map (\<lambda>x. (chain, Step x)) xs) l = Some r \<Longrightarrow>
     \<exists>l'. r = Fine l' \<and> length xs + link_work l' \<le> link_work l \<and> link_inv l' \<and> fit l' \<and> sealed l' \<and> ctl l' = NoOp
       \<and> write_state l' = write_state l \<and> taken l' = taken l \<and> delivered l' @ in_flight l' = delivered l @ in_flight l"
proof (induction xs arbitrary: l)
  case (Cons x xs)
  note inv = Cons.prems(1)
  have x: "draining x" using Cons.prems(8) by simp
  from Cons.prems(9) obtain r1 where st: "link_step chain x l = Some r1"
    by (auto simp: link_event_step_def split: option.splits)
  have "small l" using Cons.prems(6) by (simp add: small_def)
  from drain_step [OF inv Cons.prems(2) this Cons.prems(5) x st] obtain l1 where l1: "r1 = Fine l1" "link_work l1 < link_work l"
    "ctl l1 = NoOp" "write_state l1 = write_state l" "taken l1 = taken l" by blast
  have s: "link_event_step chain (Step x) l = Some (Fine l1)" using st l1(1) by (simp add: link_event_step_def)
  have r: "link_run (map (\<lambda>x. (chain, Step x)) xs) l1 = Some r" using Cons.prems(9) s by simp
  have nt: "event_keeps (Step x)"
  proof (cases x)
    case (StubAct k a v)
    have "a \<noteq> ATimeout"
    proof
      assume at: "a = ATimeout"
      from StubAct st have on: "on_stub k a v l = Some r1" by (auto split: if_splits)
      note p = on_stub_parts [OF inv on]
      have "thread_busy (thread (stubs l ! k))" using Cons.prems(2,5) p(1,2) by (auto simp: fit_def paused_def)
      with p(6) at show False by (cases "thread (stubs l ! k)") auto
    qed
    with StubAct show ?thesis by simp
  qed (use x in auto)
  have k: "all_keep l1 \<and> \<not> loses (Step x) l"
    using link_event_keeps [OF inv s Cons.prems(3) chain_documented_keeps [OF Cons.prems(7)] nt] .
  have a: "delivered l1 @ in_flight l1 = delivered l @ in_flight l"
    using link_event_advances [OF inv s] k l1(5) by (auto simp: advances_def)
  have f: "fit l1" using link_event_fit [OF inv Cons.prems(2) \<open>small l\<close> s Cons.prems(7)] x by (cases x) auto
  have "\<exists>l'. r = Fine l' \<and> length xs + link_work l' \<le> link_work l1 \<and> link_inv l' \<and> fit l' \<and> sealed l' \<and> ctl l' = NoOp
      \<and> write_state l' = write_state l1 \<and> taken l' = taken l1 \<and> delivered l' @ in_flight l' = delivered l1 @ in_flight l1"
    using Cons.prems(6-8) k a l1(3)
    by (intro Cons.IH [OF link_event_inv [OF inv s] f _ link_event_sealed [OF inv s Cons.prems(3,4)] _ _ _ _ r]) simp_all
  then obtain l' where "r = Fine l'" "length xs + link_work l' \<le> link_work l1" "link_inv l'" "fit l'" "sealed l'" "ctl l' = NoOp"
    "write_state l' = write_state l1" "taken l' = taken l1" "delivered l' @ in_flight l' = delivered l1 @ in_flight l1" by blast
  then show ?case using l1(2,4,5) a by (intro exI [of _ l']) auto
next
  case Nil
  then show ?case by (intro exI [of _ l]) simp
qed

text \<open>C4: A link with documented toxics gets everything through: whatever operations there were, when none is in progress and the
  destination takes data, no order of the steps of its goroutines panics, each comes to its end after a number of
  steps that is known beforehand, and then every byte taken from the source has been delivered.\<close>

theorem link_delivers_everything:
  assumes "chain \<noteq> []" and "chain_documented chain" and "run_documented es"
    and "link_run es (new_link ds chain dir) = Some (Fine l)"
    and "ctl l = NoOp" and "write_state l = WCopying" and "length (taken l) < 2 ^ 62" and "chain_documented chain'"
    and "list_all draining xs" and "link_run (map (\<lambda>x. (chain', Step x)) xs) l = Some r"
  shows "\<exists>l'. r = Fine l' \<and> length xs \<le> link_work l \<and> taken l' = taken l
    \<and> ((\<forall>x. draining x \<longrightarrow> link_step chain' x l' = None) \<longrightarrow> delivered l' = taken l)"
proof -
  note i = new_link_inv [OF assms(1), of ds dir]
  note k = new_link_keeps [OF chain_documented_keeps [OF assms(2)], of ds dir]
  have c: "run_is_clean es" using assms(3) by (simp add: run_documented_def)
  have t: "taken l = delivered l @ in_flight l"
    by (rule keeps_all_data [OF assms(1) chain_documented_keeps [OF assms(2)] c assms(4)])
  have z: "length (delivered (new_link ds chain dir) @ in_flight (new_link ds chain dir)) \<le> length (taken (new_link ds chain dir))"
    using new_link_in_flight [of ds chain dir] by (simp add: new_link_def link_Start_def NewToxicLink_def split: prod.splits)
  have d: "length (delivered l @ in_flight l) < 2 ^ 62" using assms(7) t by simp
  have kl: "all_keep l" using link_run_keeps [OF i k c assms(4)] by simp
  from drain_run [OF link_run_inv [OF i assms(4)] link_run_fit [OF i new_link_fit [OF assms(2)] z assms(3,4,7)] kl
      link_run_sealed [OF i k new_link_sealed c assms(4)] assms(5) d assms(8,9,10)]
  obtain l' where l': "r = Fine l'" "length xs + link_work l' \<le> link_work l" "link_inv l'" "fit l'" "sealed l'" "ctl l' = NoOp"
    "write_state l' = write_state l" "taken l' = taken l" "delivered l' @ in_flight l' = delivered l @ in_flight l" by blast
  have "delivered l' = taken l" if "\<forall>x. draining x \<longrightarrow> link_step chain' x l' = None"
    using drained [OF l'(3,4,5,6), of chain'] l'(7,9) assms(6) that t by simp
  with l' show ?thesis by auto
qed


text \<open>For the witness: the run in which a slicer is added, and the steps that remain.\<close>

definition cut_rest :: "link_act list" where
  "cut_rest = [StubAct 1 ATimer idle, StubAct 1 APost idle, WriteChunk, StubAct 1 ASent idle, StubAct 1 ATimer idle]"

definition drain_view :: "ToxicLink outcome option \<Rightarrow> (control \<times> write_end \<times> byte list \<times> byte list) option" where
  "drain_view r = (case r of Some (Fine l) \<Rightarrow> Some (ctl l, write_state l, taken l, delivered l) | _ \<Rightarrow> None)"

lemma drain_view_Some:
  "drain_view r = Some (a, b, c, d) \<Longrightarrow> \<exists>l. r = Some (Fine l) \<and> ctl l = a \<and> write_state l = b \<and> taken l = c \<and> delivered l = d"
  by (auto simp: drain_view_def split: option.splits outcome.splits)

lemma cut_drains:
  "drain_view (link_run cut_run (new_link (\<lambda>_. 0) plain_chain Upstream)) = Some (NoOp, WCopying, [1, 2], [1])"
  "drain_view (case link_run cut_run (new_link (\<lambda>_. 0) plain_chain Upstream) of
      Some (Fine l) \<Rightarrow> link_run (map (\<lambda>x. ([some_toxic NoopToxic [] 0, cutter], Step x)) cut_rest) l | r \<Rightarrow> r)
    = Some (NoOp, WCopying, [1, 2], [1, 2])"
  by code_simp+

lemma cut_documented:
  "plain_chain \<noteq> []" "chain_documented plain_chain" "chain_documented [some_toxic NoopToxic [] 0, cutter]"
  "run_documented cut_run" "list_all draining cut_rest"
  by code_simp+

theorem link_delivers_everything_witness:
  "\<exists>l l'. link_run cut_run (new_link (\<lambda>_. 0) plain_chain Upstream) = Some (Fine l) \<and> delivered l = [1]
     \<and> link_run (map (\<lambda>x. ([some_toxic NoopToxic [] 0, cutter], Step x)) cut_rest) l = Some (Fine l')
     \<and> length cut_rest \<le> link_work l \<and> taken l' = taken l \<and> delivered l' = [1, 2]"
proof -
  from drain_view_Some [OF cut_drains(1)] obtain l
    where l: "link_run cut_run (new_link (\<lambda>_. 0) plain_chain Upstream) = Some (Fine l)"
      "ctl l = NoOp" "write_state l = WCopying" "taken l = [1, 2]" "delivered l = [1]" by blast
  from drain_view_Some [OF cut_drains(2) [unfolded l(1) option.case outcome.case]] obtain l'
    where l': "link_run (map (\<lambda>x. ([some_toxic NoopToxic [] 0, cutter], Step x)) cut_rest) l = Some (Fine l')"
      "delivered l' = [1, 2]" by blast
  have "length (taken l) < 2 ^ 62" using l(4) by simp
  from link_delivers_everything [OF cut_documented(1,2,4) l(1-3) this cut_documented(3,5) l'(1)] l l'
  show ?thesis by auto
qed

end
