(* ===== verification/Arguments.thy ===== *)
theory Arguments
  imports Prelude
begin

text \<open>
  The command line of the server (\<open>cmd/server/server.go\<close>, \<open>parseArguments\<close>) with what it uses of Go's
  standard library: \<open>flag.Parse\<close>, \<open>strconv.ParseBool\<close> and \<open>strconv.ParseInt\<close>. Characters are bytes.
\<close>

record cliArguments =
  host :: string
  port :: string
  config :: string
  seed :: int
  printVersion :: bool
  proxyMetrics :: bool
  runtimeMetrics :: bool

subsection \<open>Numbers and truth values\<close>

definition ParseBool :: "string \<Rightarrow> bool option" where
  "ParseBool s =
     (if s \<in> {''1'', ''t'', ''T'', ''true'', ''TRUE'', ''True''} then Some True
      else if s \<in> {''0'', ''f'', ''F'', ''false'', ''FALSE'', ''False''} then Some False
      else None)"

definition is_digit :: "char \<Rightarrow> bool" where
  "is_digit c \<longleftrightarrow> 48 \<le> (of_char c :: nat) \<and> (of_char c :: nat) \<le> 57"

text \<open>A letter in either case.\<close>

definition letter :: "char \<Rightarrow> nat option" where
  "letter c = (let n = of_char c :: nat in
     if 97 \<le> n \<and> n \<le> 122 then Some (n - 97) else if 65 \<le> n \<and> n \<le> 90 then Some (n - 65) else None)"

definition digit_value :: "char \<Rightarrow> nat option" where
  "digit_value c = (if is_digit c then Some (of_char c - 48) else map_option (\<lambda>k. k + 10) (letter c))"

text \<open>The loop of \<open>ParseUint\<close>: underscores are skipped.\<close>

fun parse_digits :: "nat \<Rightarrow> nat \<Rightarrow> string \<Rightarrow> nat option" where
  "parse_digits b acc [] = Some acc"
| "parse_digits b acc (c # cs) =
     (if c = CHR ''_'' then parse_digits b acc cs
      else (case digit_value c of
          None \<Rightarrow> None
        | Some d \<Rightarrow> if d < b then parse_digits b (acc * b + d) cs else None))"

text \<open>
  The base that a prefix asks for (\<open>0b\<close>, \<open>0o\<close>, \<open>0x\<close>, or a 0 alone for octal numbers), and the rest.
\<close>

definition split_base :: "string \<Rightarrow> nat \<times> string" where
  "split_base s = (case s of
       [] \<Rightarrow> (10, [])
     | c # cs \<Rightarrow>
         if c \<noteq> CHR ''0'' then (10, s)
         else (case cs of
             x # y # rest \<Rightarrow>
               if letter x = Some 1 then (2, y # rest)
               else if letter x = Some 14 then (8, y # rest)
               else if letter x = Some 23 then (16, y # rest)
               else (8, cs)
           | _ \<Rightarrow> (8, cs)))"

text \<open>
  \<open>underscoreOK\<close>: underscores must separate digits, or a base prefix and a digit. The first argument says what was seen last:
  the beginning, a digit (or a prefix), an underscore, anything else.
\<close>

datatype seen = SeenNothing | SeenDigit | SeenUnderscore | SeenOther

fun underscore_loop :: "bool \<Rightarrow> seen \<Rightarrow> string \<Rightarrow> bool" where
  "underscore_loop hex x [] = (x \<noteq> SeenUnderscore)"
| "underscore_loop hex x (c # cs) =
     (if is_digit c \<or> (hex \<and> (case letter c of None \<Rightarrow> False | Some k \<Rightarrow> k \<le> 5)) then underscore_loop hex SeenDigit cs
      else if c = CHR ''_'' then x = SeenDigit \<and> underscore_loop hex SeenUnderscore cs
      else x \<noteq> SeenUnderscore \<and> underscore_loop hex SeenOther cs)"

definition underscore_ok :: "string \<Rightarrow> bool" where
  "underscore_ok s = (case s of
       a # x # rest \<Rightarrow>
         if a = CHR ''0'' \<and> letter x \<in> {Some 1, Some 14, Some 23}
         then underscore_loop (letter x = Some 23) SeenDigit rest else underscore_loop False SeenNothing s
     | _ \<Rightarrow> underscore_loop False SeenNothing s)"

definition ParseUint :: "string \<Rightarrow> nat option" where
  "ParseUint s = (if s = [] \<or> (CHR ''_'' \<in> set s \<and> \<not> underscore_ok s) then None
     else (case split_base s of (b, ds) \<Rightarrow> parse_digits b 0 ds))"

text \<open>\<open>ParseInt(s, 0, 64)\<close>.\<close>

definition ParseInt :: "string \<Rightarrow> int option" where
  "ParseInt s =
     (let (neg, ds) = (case s of [] \<Rightarrow> (False, [])
            | c # cs \<Rightarrow> if c = CHR ''-'' then (True, cs) else if c = CHR ''+'' then (False, cs) else (False, s))
      in case ParseUint ds of
           None \<Rightarrow> None
         | Some n \<Rightarrow> (let x = (if neg then - int n else int n) in if is_i64 x then Some x else None))"

subsection \<open>The flags\<close>

definition default_arguments :: "int \<Rightarrow> cliArguments" where
  "default_arguments nanos = \<lparr>host = ''localhost'', port = ''8474'', config = [], seed = nanos,
     printVersion = False, proxyMetrics = False, runtimeMetrics = False\<rparr>"

text \<open>The flags that \<open>parseArguments\<close> defines; \<open>Some True\<close> is a flag without a value.\<close>

definition flag_is_bool :: "string \<Rightarrow> bool option" where
  "flag_is_bool name =
     (if name \<in> {''host'', ''port'', ''config'', ''seed''} then Some False
      else if name \<in> {''runtime-metrics'', ''proxy-metrics'', ''version''} then Some True
      else None)"

definition set_flag :: "string \<Rightarrow> string \<Rightarrow> cliArguments \<Rightarrow> cliArguments option" where
  "set_flag name v c =
     (if name = ''host'' then Some (c\<lparr>host := v\<rparr>)
      else if name = ''port'' then Some (c\<lparr>port := v\<rparr>)
      else if name = ''config'' then Some (c\<lparr>config := v\<rparr>)
      else if name = ''seed'' then map_option (\<lambda>n. c\<lparr>seed := n\<rparr>) (ParseInt v)
      else if name = ''runtime-metrics'' then map_option (\<lambda>b. c\<lparr>runtimeMetrics := b\<rparr>) (ParseBool v)
      else if name = ''proxy-metrics'' then map_option (\<lambda>b. c\<lparr>proxyMetrics := b\<rparr>) (ParseBool v)
      else if name = ''version'' then map_option (\<lambda>b. c\<lparr>printVersion := b\<rparr>) (ParseBool v)
      else None)"

text \<open>One argument: not a flag (which ends the flags), ill-formed, or a name with perhaps a value.\<close>

datatype argument = NoFlag | BadFlag | Flag string "string option"

definition split_value :: "string \<Rightarrow> string \<times> string option" where
  "split_value s = (let n = takeWhile (\<lambda>c. c \<noteq> CHR ''='') s; rest = dropWhile (\<lambda>c. c \<noteq> CHR ''='') s
     in (n, case rest of [] \<Rightarrow> None | _ # v \<Rightarrow> Some v))"

definition read_argument :: "string \<Rightarrow> argument" where
  "read_argument s =
     (if length s < 2 \<or> hd s \<noteq> CHR ''-'' \<or> s = ''--'' then NoFlag
      else (let name = (if s ! 1 = CHR ''-'' then drop 2 s else drop 1 s)
            in if name = [] \<or> hd name = CHR ''-'' \<or> hd name = CHR ''='' then BadFlag
               else case_prod Flag (split_value name)))"

datatype parsed = Parsed cliArguments | FlagHelp | FlagError

fun flag_Parse :: "cliArguments \<Rightarrow> string list \<Rightarrow> parsed" where
  "flag_Parse c [] = Parsed c"
| "flag_Parse c (s # args) = (case read_argument s of
       NoFlag \<Rightarrow> Parsed c
     | BadFlag \<Rightarrow> FlagError
     | Flag name v \<Rightarrow> (case flag_is_bool name of
           None \<Rightarrow> if name = ''help'' \<or> name = ''h'' then FlagHelp else FlagError
         | Some b \<Rightarrow>
             (if b \<or> v \<noteq> None
              then (case set_flag name (case v of None \<Rightarrow> ''true'' | Some x \<Rightarrow> x) c of
                  None \<Rightarrow> FlagError
                | Some c' \<Rightarrow> flag_Parse c' args)
              else (case args of
                  [] \<Rightarrow> FlagError
                | x # rest \<Rightarrow> (case set_flag name x c of None \<Rightarrow> FlagError | Some c' \<Rightarrow> flag_Parse c' rest)))))"

definition parseArguments :: "int \<Rightarrow> string list \<Rightarrow> parsed" where
  "parseArguments nanos args = flag_Parse (default_arguments nanos) args"

subsection \<open>Printing and parsing\<close>

definition Itoa :: "int \<Rightarrow> string" where
  "Itoa n = (if n < 0 then CHR ''-'' # decimal (nat (- n)) else decimal (nat n))"

definition show_bool :: "bool \<Rightarrow> string" where
  "show_bool b = (if b then ''true'' else ''false'')"

text \<open>A command line that asks for given arguments.\<close>

definition to_flags :: "cliArguments \<Rightarrow> string list" where
  "to_flags c = [''-host'', host c, ''--port='' @ port c, ''-config='' @ config c, ''-seed'', Itoa (seed c),
     ''-version='' @ show_bool (printVersion c), ''--proxy-metrics='' @ show_bool (proxyMetrics c),
     ''-runtime-metrics='' @ show_bool (runtimeMetrics c)]"

lemma digit_char: "k < 10 \<Longrightarrow> is_digit (char_of (48 + k)) \<and> digit_value (char_of (48 + k)) = Some k
    \<and> char_of (48 + k) \<noteq> CHR ''_'' \<and> char_of (48 + k) \<noteq> CHR ''-'' \<and> char_of (48 + k) \<noteq> CHR ''+''
    \<and> (char_of (48 + k) = CHR ''0'' \<longleftrightarrow> k = 0)"
proof -
  assume k: "k < 10"
  then have n: "of_char (char_of (48 + k) :: char) = 48 + k" by (simp add: of_char_of)
  have c: "char_of (48 + k) = x \<longleftrightarrow> 48 + k = of_char x" for x :: char
    using n by (metis of_char_eq_iff)
  show ?thesis using k by (simp add: is_digit_def digit_value_def c n)
qed

lemma parse_digits_append:
  "parse_digits b acc (xs @ ys) = Option.bind (parse_digits b acc xs) (\<lambda>n. parse_digits b n ys)"
  by (induction b acc xs rule: parse_digits.induct) (auto split: option.split)

lemma parse_decimal: "parse_digits 10 0 (decimal n) = Some n"
proof (induction n rule: decimal.induct)
  case (1 n)
  show ?case
  proof (cases "n < 10")
    case True
    then show ?thesis using digit_char [OF True] by (subst decimal.simps) simp
  next
    case False
    with 1 digit_char [of "n mod 10"] show ?thesis
      by (subst decimal.simps) (simp add: parse_digits_append)
  qed
qed

lemma decimal_digits: "c \<in> set (decimal n) \<Longrightarrow> is_digit c \<and> c \<noteq> CHR ''_''"
proof (induction n rule: decimal.induct)
  case (1 n)
  then show ?case using digit_char [of n] digit_char [of "n mod 10"]
    by (cases "n < 10") (auto simp: decimal.simps [of n])
qed

text \<open>The first digit is not 0, unless it is the only one.\<close>

lemma decimal_head: "\<exists>(k :: nat) ds. decimal n = char_of (48 + k) # ds \<and> k < 10 \<and> (k = 0 \<longrightarrow> ds = [] \<and> n = 0)"
proof (induction n rule: decimal.induct)
  case (1 n)
  show ?case
  proof (cases "n < 10")
    case True
    then show ?thesis by (subst decimal.simps) (auto intro: exI [of _ n])
  next
    case False
    with 1 obtain k :: nat and ds where "decimal (n div 10) = char_of (48 + k) # ds" "k < 10"
      "k = 0 \<longrightarrow> ds = [] \<and> n div 10 = 0" by blast
    with False have "decimal n = char_of (48 + k) # ds @ [char_of (48 + n mod 10)]" "k \<noteq> 0"
      by (simp_all add: decimal.simps [of n]) linarith
    with \<open>k < 10\<close> show ?thesis by blast
  qed
qed

lemma ParseUint_decimal: "ParseUint (decimal n) = Some n"
proof -
  obtain k :: nat and ds where d: "decimal n = char_of (48 + k) # ds" "k < 10" "k = 0 \<longrightarrow> ds = [] \<and> n = 0"
    using decimal_head by blast
  have "CHR ''_'' \<notin> set (decimal n)" using decimal_digits by blast
  moreover have "decimal n \<noteq> []" using d by simp
  moreover have "split_base (decimal n) = (10, decimal n) \<or> (split_base (decimal n) = (8, []) \<and> n = 0)"
    using d digit_char [OF d(2)] by (cases "k = 0") (simp_all add: split_base_def)
  ultimately show ?thesis using parse_decimal by (auto simp: ParseUint_def)
qed

lemma ParseInt_Itoa: "is_i64 x \<Longrightarrow> ParseInt (Itoa x) = Some x"
proof -
  assume x: "is_i64 x"
  obtain k :: nat and ds where d: "decimal (nat x) = char_of (48 + k) # ds" "k < 10" using decimal_head by blast
  have "hd (decimal (nat x)) \<noteq> CHR ''-''" "hd (decimal (nat x)) \<noteq> CHR ''+''" using d digit_char [OF d(2)] by simp_all
  with x d ParseUint_decimal [of "nat x"] ParseUint_decimal [of "nat (- x)"] show ?thesis
    by (auto simp: ParseInt_def Itoa_def)
qed

lemma ParseBool_show [simp]: "ParseBool (show_bool b) = Some b"
  by (simp add: ParseBool_def show_bool_def)

text \<open>The arguments that \<open>to_flags\<close> writes, one by one.\<close>

lemma read_given:
  "read_argument ''-host'' = Flag ''host'' None" "read_argument ''-seed'' = Flag ''seed'' None"
  "read_argument (''--port='' @ v) = Flag ''port'' (Some v)" "read_argument (''-config='' @ v) = Flag ''config'' (Some v)"
  "read_argument (''-version='' @ v) = Flag ''version'' (Some v)"
  "read_argument (''--proxy-metrics='' @ v) = Flag ''proxy-metrics'' (Some v)"
  "read_argument (''-runtime-metrics='' @ v) = Flag ''runtime-metrics'' (Some v)"
  by (simp_all add: read_argument_def split_value_def Let_def)

text \<open>C23: Whatever host, port, file, seed and switches are wanted, a command line gives them:
  values can be empty and can contain equals signs, minus signs and spaces, and every 64-bit
  seed is read back, the negative ones too.\<close>

theorem arguments_roundtrip:
  assumes "is_i64 (seed c)"
  shows "parseArguments nanos (to_flags c) = Parsed c"
  using ParseInt_Itoa [OF assms]
  by (simp add: parseArguments_def to_flags_def read_given [simplified] flag_is_bool_def set_flag_def)

theorem arguments_roundtrip_witness:
  "parseArguments 0 (to_flags ((default_arguments 7)\<lparr>seed := - 42, host := ''::1'', proxyMetrics := True\<rparr>))
     = Parsed ((default_arguments 7)\<lparr>seed := - 42, host := ''::1'', proxyMetrics := True\<rparr>)"
  by (rule arguments_roundtrip) (simp add: is_i64_def)

end
