(* ===== verification/Metrics.thy ===== *)
theory Metrics
  imports ProxyFlow
begin

text \<open>
  The Prometheus metrics (\<open>metrics.go\<close>, \<open>collectors\<close>) and the byte counters of the links (\<open>link.go\<close>).
  Of the Prometheus client library the model has what its documentation says: a vector of
  counters by the values of its labels, where \<open>WithLabelValues\<close> panics unless there
  is a value for each label, and a registry whose \<open>MustRegister\<close> panics when a collector of
  the same description is registered already.
\<close>

subsection \<open>Counters and registries\<close>

record CounterVec =
  cv_name :: string
  cv_labels :: "string list"
  cv_values :: "(string list \<times> nat) list"

definition NewCounterVec :: "string \<Rightarrow> string \<Rightarrow> string \<Rightarrow> string list \<Rightarrow> CounterVec" where
  "NewCounterVec ns subsystem name labels =
     \<lparr>cv_name = ns @ ''_'' @ subsystem @ ''_'' @ name, cv_labels = labels, cv_values = []\<rparr>"

definition counted :: "CounterVec \<Rightarrow> string list \<Rightarrow> nat" where
  "counted v values = (case map_of (cv_values v) values of None \<Rightarrow> 0 | Some n \<Rightarrow> n)"

definition add_with_labels :: "string list \<Rightarrow> nat \<Rightarrow> CounterVec \<Rightarrow> CounterVec outcome" where
  "add_with_labels values n v =
     (if length values = length (cv_labels v)
      then Fine (v\<lparr>cv_values := AList.update values (counted v values + n) (cv_values v)\<rparr>) else Crash)"

text \<open>
  The collectors: those of the library for the Go run time, the build and the process,
  which the model only names, and counters, known to a registry by their name.
\<close>

datatype collector = GoCollector | BuildInfoCollector | ProcessCollector | Counters string

fun MustRegister :: "collector list \<Rightarrow> collector list \<Rightarrow> collector list outcome" where
  "MustRegister [] reg = Fine reg"
| "MustRegister (c # cs) reg = (if c \<in> set reg then Crash else MustRegister cs (c # reg))"

subsection \<open>The collectors\<close>

definition namespace :: string where
  "namespace = ''toxiproxy''"

record ProxyMetricCollectors =
  pm_collectors :: "collector list"
  proxyLabels :: "string list"
  ReceivedBytesTotal :: CounterVec
  SentBytesTotal :: CounterVec

definition NewProxyMetricCollectors :: ProxyMetricCollectors where
  "NewProxyMetricCollectors =
     (let labels = [''direction'', ''proxy'', ''listener'', ''upstream''];
          received = NewCounterVec namespace ''proxy'' ''received_bytes_total'' labels;
          sent = NewCounterVec namespace ''proxy'' ''sent_bytes_total'' labels
      in \<lparr>pm_collectors = [Counters (cv_name received), Counters (cv_name sent)], proxyLabels = labels,
          ReceivedBytesTotal = received, SentBytesTotal = sent\<rparr>)"

definition ProxyMetrics_Collectors :: "ProxyMetricCollectors \<Rightarrow> collector list" where
  "ProxyMetrics_Collectors m = pm_collectors m"

definition NewRuntimeMetricCollectors :: "collector list" where
  "NewRuntimeMetricCollectors = [GoCollector, BuildInfoCollector, ProcessCollector]"

definition RuntimeMetrics_Collectors :: "collector list \<Rightarrow> collector list" where
  "RuntimeMetrics_Collectors m = m"

subsection \<open>The container\<close>

record metricsContainer =
  RuntimeMetrics :: "collector list option"
  ProxyMetrics :: "ProxyMetricCollectors option"
  mc_registry :: "collector list"

definition NewMetricsContainer :: "collector list option \<Rightarrow> metricsContainer" where
  "NewMetricsContainer reg = \<lparr>RuntimeMetrics = None, ProxyMetrics = None,
     mc_registry = (case reg of None \<Rightarrow> [] | Some r \<Rightarrow> r)\<rparr>"

definition runtimeMetricsEnabled :: "metricsContainer \<Rightarrow> bool" where
  "runtimeMetricsEnabled m \<longleftrightarrow> RuntimeMetrics m \<noteq> None"

definition proxyMetricsEnabled :: "metricsContainer \<Rightarrow> bool" where
  "proxyMetricsEnabled m \<longleftrightarrow> ProxyMetrics m \<noteq> None"

definition anyMetricsEnabled :: "metricsContainer \<Rightarrow> bool" where
  "anyMetricsEnabled m \<longleftrightarrow> runtimeMetricsEnabled m \<or> proxyMetricsEnabled m"

definition register_all :: "collector list option \<Rightarrow> metricsContainer \<Rightarrow> metricsContainer outcome" where
  "register_all cs m = (case cs of
       None \<Rightarrow> Fine m
     | Some cs \<Rightarrow> (case MustRegister cs (mc_registry m) of Crash \<Rightarrow> Crash | Fine reg \<Rightarrow> Fine (m\<lparr>mc_registry := reg\<rparr>)))"

text \<open>\<open>handler\<close>, up to the handler of the library it returns.\<close>

definition metrics_handler :: "metricsContainer \<Rightarrow> metricsContainer outcome" where
  "metrics_handler m =
     (case register_all (map_option RuntimeMetrics_Collectors (RuntimeMetrics m)) m of
        Crash \<Rightarrow> Crash
      | Fine m' \<Rightarrow> register_all (map_option ProxyMetrics_Collectors (ProxyMetrics m')) m')"

lemma MustRegister_Fine:
  "distinct cs \<Longrightarrow> set cs \<inter> set reg = {} \<Longrightarrow> MustRegister cs reg = Fine (rev cs @ reg)"
  by (induction cs arbitrary: reg) auto

lemma MustRegister_again: "c \<in> set cs \<Longrightarrow> c \<in> set reg \<Longrightarrow> MustRegister cs reg = Crash"
  by (induction cs arbitrary: reg) auto

text \<open>The collectors that the options of the server switch on.\<close>

definition with_metrics :: "bool \<Rightarrow> bool \<Rightarrow> metricsContainer \<Rightarrow> metricsContainer" where
  "with_metrics proxy runtime m =
     (let m1 = (if proxy then m\<lparr>ProxyMetrics := Some NewProxyMetricCollectors\<rparr> else m)
      in if runtime then m1\<lparr>RuntimeMetrics := Some NewRuntimeMetricCollectors\<rparr> else m1)"

lemmas container_defs = with_metrics_def metrics_handler_def register_all_def NewMetricsContainer_def
  NewProxyMetricCollectors_def NewRuntimeMetricCollectors_def NewCounterVec_def namespace_def
  ProxyMetrics_Collectors_def RuntimeMetrics_Collectors_def anyMetricsEnabled_def runtimeMetricsEnabled_def
  proxyMetricsEnabled_def Let_def

text \<open>The collectors of the program have different names, so building the routes for the first time registers
  them all without a panic, whichever metrics are switched on; building them a second time panics if any are.\<close>

theorem metrics_register_once:
  "\<exists>m. metrics_handler (with_metrics p r (NewMetricsContainer None)) = Fine m
     \<and> (metrics_handler m = Crash \<longleftrightarrow> anyMetricsEnabled m)
     \<and> anyMetricsEnabled m = (p \<or> r)"
  by (cases p; cases r) (simp_all add: container_defs)

subsection \<open>Counting the bytes of links\<close>

text \<open>
  The labels of a link, as \<open>Start\<close> finds them in the proxy. Both goroutines count when
  their copy has ended: \<open>read\<close> always, \<open>write\<close> unless it ended with an error.
\<close>

definition metric_labels :: "direction \<Rightarrow> Proxy \<Rightarrow> string list" where
  "metric_labels dir p = [direction_String dir, px_Name p, px_Listen p, px_Upstream p]"

definition on_received :: "(CounterVec \<Rightarrow> CounterVec outcome) \<Rightarrow> metricsContainer \<Rightarrow> metricsContainer outcome" where
  "on_received f m = (case ProxyMetrics m of
       None \<Rightarrow> Fine m
     | Some x \<Rightarrow> (case f (ReceivedBytesTotal x) of
         Crash \<Rightarrow> Crash | Fine v \<Rightarrow> Fine (m\<lparr>ProxyMetrics := Some (x\<lparr>ReceivedBytesTotal := v\<rparr>)\<rparr>)))"

definition on_sent :: "(CounterVec \<Rightarrow> CounterVec outcome) \<Rightarrow> metricsContainer \<Rightarrow> metricsContainer outcome" where
  "on_sent f m = (case ProxyMetrics m of
       None \<Rightarrow> Fine m
     | Some x \<Rightarrow> (case f (SentBytesTotal x) of
         Crash \<Rightarrow> Crash | Fine v \<Rightarrow> Fine (m\<lparr>ProxyMetrics := Some (x\<lparr>SentBytesTotal := v\<rparr>)\<rparr>)))"

definition read_counts :: "string list \<Rightarrow> ToxicLink \<Rightarrow> metricsContainer \<Rightarrow> metricsContainer outcome" where
  "read_counts labels l m = on_received (add_with_labels labels (length (taken l))) m"

definition write_counts :: "string list \<Rightarrow> bool \<Rightarrow> ToxicLink \<Rightarrow> metricsContainer \<Rightarrow> metricsContainer outcome" where
  "write_counts labels failed l m =
     (if failed then Fine m else on_sent (add_with_labels labels (length (delivered l))) m)"

text \<open>
  A proxy with the metrics of its server. \<open>mp_labels\<close> keeps the labels of each link that was
  started. A step comes with whether the copy of a \<open>WriteEnd\<close> has failed; when it
  has not, the output of the link must have been closed and drained.
\<close>

record metered =
  mp_proxy :: Proxy
  mp_metrics :: metricsContainer
  mp_labels :: "(string \<times> string list) list"

definition link_named :: "string \<Rightarrow> Proxy \<Rightarrow> ToxicLink option" where
  "link_named n p = map_of (coll_links (px_Toxics p)) n"

definition labels_named :: "string \<Rightarrow> metered \<Rightarrow> string list" where
  "labels_named n s = (case map_of (mp_labels s) n of None \<Rightarrow> [] | Some ls \<Rightarrow> ls)"

definition output_drained :: "ToxicLink \<Rightarrow> bool" where
  "output_drained l = (case chan_recv (chans l (link_output l)) of Drained \<Rightarrow> True | _ \<Rightarrow> False)"

fun count_step :: "proxy_event \<Rightarrow> bool \<Rightarrow> metered \<Rightarrow> metricsContainer outcome option" where
  "count_step (PLink n ReadEnd) failed s = (case link_named n (mp_proxy s) of
       None \<Rightarrow> None
     | Some l \<Rightarrow> Some (read_counts (labels_named n s) l (mp_metrics s)))"
| "count_step (PLink n WriteEnd) failed s = (case link_named n (mp_proxy s) of
       None \<Rightarrow> None
     | Some l \<Rightarrow> if failed \<or> output_drained l
         then Some (write_counts (labels_named n s) failed l (mp_metrics s)) else None)"
| "count_step e failed s = Some (Fine (mp_metrics s))"

fun label_step :: "proxy_event \<Rightarrow> metered \<Rightarrow> (string \<times> string list) list" where
  "label_step (PStartLink ds) s = (case px_server (mp_proxy s) of
       Starting ((n, dir) # rest) \<Rightarrow> AList.update n (metric_labels dir (mp_proxy s)) (mp_labels s)
     | _ \<Rightarrow> mp_labels s)"
| "label_step e s = mp_labels s"

definition metered_step :: "net \<Rightarrow> proxy_event \<times> bool \<Rightarrow> metered \<Rightarrow> metered outcome option" where
  "metered_step nt x s = (case x of (e, failed) \<Rightarrow>
     (case proxy_step nt e (mp_proxy s) of
        None \<Rightarrow> None
      | Some Crash \<Rightarrow> Some Crash
      | Some (Fine p) \<Rightarrow>
          map_option (\<lambda>r. case r of
              Crash \<Rightarrow> Crash
            | Fine m \<Rightarrow> Fine \<lparr>mp_proxy = p, mp_metrics = m, mp_labels = label_step e s\<rparr>) (count_step e failed s)))"

fun metered_run :: "net \<Rightarrow> (proxy_event \<times> bool) list \<Rightarrow> metered \<Rightarrow> metered outcome option" where
  "metered_run nt [] s = Some (Fine s)"
| "metered_run nt (x # xs) s = (case metered_step nt x s of
       Some (Fine s') \<Rightarrow> metered_run nt xs s'
     | r \<Rightarrow> r)"

definition new_metered :: "bool \<Rightarrow> Proxy \<Rightarrow> metered" where
  "new_metered on p = \<lparr>mp_proxy = p, mp_metrics = with_metrics on False (NewMetricsContainer None), mp_labels = []\<rparr>"

subsection \<open>What the counters show\<close>

text \<open>Every link has its labels, with its direction first; nothing is counted as received from clients.\<close>

definition vec_ok :: "CounterVec \<Rightarrow> bool" where
  "vec_ok v \<longleftrightarrow> length (cv_labels v) = 4"

definition labels_ok :: "metered \<Rightarrow> bool" where
  "labels_ok s \<longleftrightarrow> (\<forall>n d bs. takes (px_Toxics (mp_proxy s)) n = Some (d, bs) \<longrightarrow>
     (\<exists>p. map_of (mp_labels s) n = Some (metric_labels d p)))"

definition metrics_ok :: "metricsContainer \<Rightarrow> bool" where
  "metrics_ok m \<longleftrightarrow> (\<forall>x. ProxyMetrics m = Some x \<longrightarrow> vec_ok (ReceivedBytesTotal x) \<and> vec_ok (SentBytesTotal x)
     \<and> (\<forall>ls. counted (ReceivedBytesTotal x) (''upstream'' # ls) = 0))"

definition metered_ok :: "metered \<Rightarrow> bool" where
  "metered_ok s \<longleftrightarrow> proxy_ok (mp_proxy s) \<and> labels_ok s \<and> metrics_ok (mp_metrics s)"

lemma counted_update [simp]:
  "counted (v\<lparr>cv_values := AList.update ls n (cv_values v)\<rparr>) ls' = (if ls' = ls then n else counted v ls')"
  by (simp add: counted_def update_conv')

lemma add_ok: "vec_ok v \<Longrightarrow> length ls = 4 \<Longrightarrow> \<exists>v'. add_with_labels ls n v = Fine v' \<and> vec_ok v'
    \<and> (\<forall>x. counted v' x = counted v x + (if x = ls then n else 0))"
  by (auto simp: add_with_labels_def vec_ok_def)

text \<open>A link keeps its direction, and new links are only those the server loop starts.\<close>

lemma on_toxics_takes:
  assumes "proxy_ok p" and "px_Toxics q = px_Toxics p" and "on_toxics e q = Some (Fine p')"
  shows "takes (px_Toxics p') = view_after e (takes (px_Toxics p))"
  using on_toxics_Fine [OF assms(3)] toxics_moved(3) [OF proxy_okD(1,2) [OF assms(1)]] assms(2) by force

lemma proxy_step_takes:
  assumes ok: "proxy_ok p" and st: "proxy_step nt e p = Some (Fine p')" and t: "takes (px_Toxics p') n = Some (d, bs)"
  shows "(\<exists>bs'. takes (px_Toxics p) n = Some (d, bs')) \<and> (\<forall>ds dir rest. e = PStartLink ds \<longrightarrow> px_server p \<noteq> Starting ((n, dir) # rest))
    \<or> (\<exists>ds rest. e = PStartLink ds \<and> px_server p = Starting ((n, d) # rest))"
proof (cases e)
  case (PDatagram addr x)
  with st have "px_Toxics p' = px_Toxics p"
    by (auto simp: server_round_def hand_over_def connect_client_def Let_def split: option.splits outcome.splits if_splits)
  with t PDatagram show ?thesis by simp
next
  case PHanded
  with st t show ?thesis by (auto split: server_pc.splits option.splits if_splits)
next
  case (PStartLink ds)
  with st obtain m dir rest sv where m: "px_server p = Starting ((m, dir) # rest)"
    "on_toxics (CStartLink m dir ds) (p\<lparr>px_server := sv\<rparr>) = Some (Fine p')"
    by (auto split: server_pc.splits list.splits prod.splits)
  from on_toxics_takes [OF ok _ m(2)] t m(1) PStartLink show ?thesis by (auto split: if_splits)
next
  case (PRead addr tm)
  with st obtain u' bs' where "px_Toxics p' = px_Toxics p
      \<or> on_toxics (CLink (up_name addr) (ReadChunk bs' tm)) (p\<lparr>px_portToClient := AList.update addr u' (px_portToClient p)\<rparr>) = Some (Fine p')"
    by (auto simp: Let_def split: option.splits read_result.splits if_splits)
  with on_toxics_takes [OF ok, of "p\<lparr>px_portToClient := AList.update addr u' (px_portToClient p)\<rparr>"
      "CLink (up_name addr) (ReadChunk bs' tm)" p'] t PRead
  show ?thesis by (auto split: if_splits)
next
  case (PLink m a)
  with st have "on_toxics (CLink m a) p = Some (Fine p')" by (auto split: option.splits if_splits)
  from on_toxics_takes [OF ok _ this] t PLink show ?thesis by (auto split: if_splits)
next
  case (PRemoveLink m)
  with st have "on_toxics (CRemoveLink m) (RemoveConnection m p) = Some (Fine p')" by simp
  from on_toxics_takes [OF ok _ this] t PRemoveLink show ?thesis by (auto simp: RemoveConnection_def split: if_splits)
next
  case (PRequest ev)
  with st have "on_toxics ev p = Some (Fine p')" "is_request ev" by (auto split: if_splits)
  with on_toxics_takes [OF ok _ this(1)] t PRequest show ?thesis by (cases ev) auto
next
  case PStart
  with st t show ?thesis by (auto simp: proxy_start_def proxy_listen_def split: if_splits sum.splits)
qed (use st t in \<open>auto simp: close_listener_def close_connections_def split: if_splits\<close>)

lemma takes_named: "link_named n p = Some l \<Longrightarrow> takes (px_Toxics p) n = Some (link_direction l, taken l)"
  by (simp add: link_named_def takes_def)

lemma direction_named: "direction_String d = ''upstream'' \<Longrightarrow> d = Upstream"
proof (cases "d < NumDirections")
  case True
  then have "unat d = 0 \<or> unat d = 1" by (auto simp: NumDirections_def word_less_nat_alt)
  moreover assume "direction_String d = ''upstream''"
  ultimately show ?thesis using True by (auto simp: direction_String_def Upstream_def unat_eq_0 not_le split: if_splits)
qed (simp add: direction_String_def not_less)

lemma direction_names [simp]: "direction_String Upstream = ''upstream''" "direction_String Downstream = ''downstream''"
  by code_simp+

lemma count_step_ok:
  assumes ok: "metered_ok s" and st: "proxy_step nt e (mp_proxy s) = Some (Fine p)"
    and c: "count_step e failed s = Some r"
  shows "\<exists>m. r = Fine m \<and> metrics_ok m"
proof -
  have mo: "metrics_ok (mp_metrics s)" using ok by (simp add: metered_ok_def)
  have four: "\<exists>p. labels_named n s = metric_labels (link_direction l) p" if "link_named n (mp_proxy s) = Some l" for n l
    using ok takes_named [OF that] by (fastforce simp: metered_ok_def labels_ok_def labels_named_def)
  consider (read) n where "e = PLink n ReadEnd" | (wr) n where "e = PLink n WriteEnd"
    | (other) "count_step e failed s = Some (Fine (mp_metrics s))"
    by (cases "(e, failed, s)" rule: count_step.cases) simp_all
  then show ?thesis
  proof cases
    case read
    with c obtain l where l: "link_named n (mp_proxy s) = Some l" "r = read_counts (labels_named n s) l (mp_metrics s)"
      by (auto split: option.splits)
    have "link_direction l \<noteq> Upstream" using st read l(1) by (auto simp: link_named_def)
    with four [OF l(1)] direction_named obtain p where p: "labels_named n s = metric_labels (link_direction l) p"
      "direction_String (link_direction l) \<noteq> ''upstream''" by blast
    have "length (labels_named n s) = 4" by (simp add: p metric_labels_def)
    then show ?thesis
      using mo add_ok [of _ "labels_named n s" "length (taken l)"] p
      by (cases "ProxyMetrics (mp_metrics s)")
        (force simp: l(2) read_counts_def on_received_def metrics_ok_def metric_labels_def)+
  next
    case wr
    with c obtain l where l: "link_named n (mp_proxy s) = Some l" "r = write_counts (labels_named n s) failed l (mp_metrics s)"
      by (auto split: option.splits if_splits)
    obtain p where p: "labels_named n s = metric_labels (link_direction l) p" using four [OF l(1)] by blast
    have "length (labels_named n s) = 4" by (simp add: p metric_labels_def)
    then show ?thesis
      using mo add_ok [of _ "labels_named n s" "length (delivered l)"]
      by (cases "ProxyMetrics (mp_metrics s)") (force simp: l(2) write_counts_def on_sent_def metrics_ok_def)+
  qed (use c mo in auto)
qed

lemma metered_step_ok:
  assumes ok: "metered_ok s" and st: "metered_step nt (e, failed) s = Some r"
  shows "(\<exists>s'. r = Fine s' \<and> metered_ok s' \<and> proxy_step nt e (mp_proxy s) = Some (Fine (mp_proxy s')))
    \<or> r = Crash \<and> proxy_step nt e (mp_proxy s) = Some Crash"
proof (cases "proxy_step nt e (mp_proxy s)")
  case (Some y)
  show ?thesis
  proof (cases y)
    case (Fine p)
    with Some st obtain c where c: "count_step e failed s = Some c" by (auto simp: metered_step_def)
    obtain m where m: "c = Fine m" "metrics_ok m" using count_step_ok [OF ok _ c] Some Fine by blast
    let ?s = "\<lparr>mp_proxy = p, mp_metrics = m, mp_labels = label_step e s\<rparr>"
    have pk: "proxy_ok (mp_proxy s)" and lo: "labels_ok s" using ok by (simp_all add: metered_ok_def)
    have "labels_ok ?s" unfolding labels_ok_def
    proof (intro allI impI)
      fix n d bs assume "takes (px_Toxics (mp_proxy ?s)) n = Some (d, bs)"
      then have t: "takes (px_Toxics p) n = Some (d, bs)" by simp
      have "proxy_step nt e (mp_proxy s) = Some (Fine p)" using Some Fine by simp
      from proxy_step_takes [OF pk this t]
      consider bs' where "takes (px_Toxics (mp_proxy s)) n = Some (d, bs')"
          "\<And>ds dir rest. e = PStartLink ds \<Longrightarrow> px_server (mp_proxy s) \<noteq> Starting ((n, dir) # rest)"
        | ds rest where "e = PStartLink ds" "px_server (mp_proxy s) = Starting ((n, d) # rest)" by blast
      then show "\<exists>q. map_of (mp_labels ?s) n = Some (metric_labels d q)"
      proof cases
        case 1
        obtain q where q: "map_of (mp_labels s) n = Some (metric_labels d q)"
          using lo 1(1) unfolding labels_ok_def by blast
        have "map_of (label_step e s) n = map_of (mp_labels s) n"
          using 1(2) by (cases "(e, s)" rule: label_step.cases)
            (auto simp: update_conv' split: server_pc.splits list.splits prod.splits)
        with q show ?thesis by auto
      next
        case 2
        then show ?thesis by (auto simp: update_conv')
      qed
    qed
    moreover have "proxy_ok p" using proxy_step_ok [OF pk] Some Fine by blast
    moreover have "r = Fine ?s" using Some Fine c m(1) st by (simp add: metered_step_def)
    ultimately show ?thesis using m(2) Some Fine by (simp add: metered_ok_def)
  qed (use Some st in \<open>simp add: metered_step_def\<close>)
qed (use st in \<open>simp add: metered_step_def\<close>)

lemma new_metered_ok: "metered_ok (new_metered on (NewProxy n l u))"
proof -
  have "labels_ok (new_metered on (NewProxy n l u))"
    by (simp add: labels_ok_def new_metered_def NewProxy_def NewToxicCollection_def takes_def)
  moreover have "metrics_ok (mp_metrics (new_metered on (NewProxy n l u)))"
    by (simp add: new_metered_def metrics_ok_def vec_ok_def counted_def container_defs)
  ultimately show ?thesis using NewProxy_ok by (simp add: metered_ok_def) (simp add: new_metered_def)
qed

lemma metered_run_ok:
  "metered_ok s \<Longrightarrow> metered_run nt xs s = Some r \<Longrightarrow>
     (\<exists>s'. r = Fine s' \<and> metered_ok s' \<and> proxy_run nt (map fst xs) (mp_proxy s) = Some (Fine (mp_proxy s')))
     \<or> r = Crash \<and> proxy_run nt (map fst xs) (mp_proxy s) = Some Crash"
proof (induction xs arbitrary: s)
  case (Cons x xs)
  obtain e failed where x: "x = (e, failed)" by (cases x)
  obtain y where y: "metered_step nt (e, failed) s = Some y" using Cons.prems(2) x by (auto split: option.splits)
  from metered_step_ok [OF Cons.prems(1) y] show ?case
  proof (elim disjE exE conjE)
    fix s1 assume s1: "y = Fine s1" "metered_ok s1" "proxy_step nt e (mp_proxy s) = Some (Fine (mp_proxy s1))"
    with Cons.IH [OF s1(2)] Cons.prems(2) x y show ?thesis by simp
  qed (use Cons.prems(2) x y in simp)
qed auto

text \<open>Counting does not interfere: with the metrics of a new server switched on or off, a proxy goes through the
  same states as without them, and counting itself never panics, as every link has
  one value for each of the four labels.\<close>

theorem counting_is_transparent:
  assumes "metered_run nt xs (new_metered on (NewProxy name listen upstream)) = Some r"
  shows "proxy_run nt (map fst xs) (NewProxy name listen upstream)
    = Some (case r of Crash \<Rightarrow> Crash | Fine s \<Rightarrow> Fine (mp_proxy s))"
  using metered_run_ok [OF new_metered_ok assms] by (auto simp: new_metered_def)

text \<open>C29: \<open>read\<close> counts what it has received only when its copy ends, and the copy from a client never ends.
  So whatever clients send, the counter of received bytes stays at zero for the direction
  \<open>upstream\<close>, for all values of the other labels.\<close>

theorem upstream_never_counted:
  assumes "metered_run nt xs (new_metered True (NewProxy name listen upstream)) = Some (Fine s)"
    and "ProxyMetrics (mp_metrics s) = Some x"
  shows "counted (ReceivedBytesTotal x) (''upstream'' # labels) = 0"
  using metered_run_ok [OF new_metered_ok assms(1)] assms(2) by (auto simp: metered_ok_def metrics_ok_def)

subsection \<open>Witnesses\<close>

definition metered_client :: "(proxy_event \<times> bool) list" where
  "metered_client = map (\<lambda>e. (e, False)) (served_client
     @ [PLink ''cdownstream'' (ReadChunk [1, 2, 3] 0), PLink ''cdownstream'' (StubAct 0 ARecv idle),
        PLink ''cdownstream'' ReadSent, PLink ''cdownstream'' ReadEnd])"

definition received_of :: "metered outcome option \<Rightarrow> (string list \<times> nat) list option" where
  "received_of r = (case r of Some (Fine s) \<Rightarrow> map_option (\<lambda>x. cv_values (ReceivedBytesTotal x)) (ProxyMetrics (mp_metrics s)) | _ \<Rightarrow> None)"

lemma metered_client_run:
  "received_of (metered_run some_net metered_client (new_metered True (NewProxy ''p'' ''localhost:9'' ''up'')))
     = Some [([''downstream'', ''p'', ''127:9'', ''up''], 3)]"
  by (simp add: received_of_def metered_client_def served_client_def metered_step_def new_metered_def run_defs
      container_defs link_named_def labels_named_def metric_labels_def read_counts_def on_received_def add_with_labels_def
      counted_def ChanWriter_Close_def word_le_nat_alt)

lemma received_of_Some:
  "received_of r = Some vs \<Longrightarrow> \<exists>s x. r = Some (Fine s) \<and> ProxyMetrics (mp_metrics s) = Some x \<and> cv_values (ReceivedBytesTotal x) = vs"
  by (auto simp: received_of_def split: option.splits outcome.splits)

theorem counting_is_transparent_witness:
  "\<exists>s. metered_run some_net metered_client (new_metered True (NewProxy ''p'' ''localhost:9'' ''up'')) = Some (Fine s)
     \<and> proxy_run some_net (map fst metered_client) (NewProxy ''p'' ''localhost:9'' ''up'') = Some (Fine (mp_proxy s))"
  using received_of_Some [OF metered_client_run] counting_is_transparent by fastforce

text \<open>The two bytes of the client are not counted, the three of the answer are.\<close>

theorem upstream_never_counted_witness:
  "\<exists>s x. metered_run some_net metered_client (new_metered True (NewProxy ''p'' ''localhost:9'' ''up'')) = Some (Fine s)
     \<and> ProxyMetrics (mp_metrics s) = Some x \<and> cv_values (ReceivedBytesTotal x) = [([''downstream'', ''p'', ''127:9'', ''up''], 3)]
     \<and> counted (ReceivedBytesTotal x) [''upstream'', ''p'', ''127:9'', ''up''] = 0"
  using received_of_Some [OF metered_client_run] upstream_never_counted by blast

end
