(* ===== verification/ServerProgram.thy ===== *)
theory ServerProgram
  imports Arguments Metrics ApiFlow
begin

text \<open>
  The program around the API: the server process from its command line to its exit
  (\<open>cmd/server/server.go\<close>), the life of the API server (\<open>api.go\<close>: \<open>NewServer\<close>, \<open>Listen\<close>, \<open>Shutdown\<close>,
  \<open>PopulateConfig\<close>), and the set-up of the logger, of which \<open>proxy.go\<close> has a copy.
\<close>

subsection \<open>The logger\<close>

text \<open>
  The loop that shortens the path of a source file; its index runs down to 1. Then the
  same in \<open>proxy.go\<close>.
\<close>

fun shorten :: "nat \<Rightarrow> string \<Rightarrow> string" where
  "shorten 0 file = file"
| "shorten (Suc i) file = (if file ! Suc i = CHR ''/'' then drop (Suc (Suc i)) file else shorten i file)"

definition CallerMarshalFunc :: "string \<Rightarrow> int \<Rightarrow> string" where
  "CallerMarshalFunc file line = shorten (length file - 1) file @ '':'' @ Itoa line"

definition proxy_CallerMarshalFunc :: "string \<Rightarrow> int \<Rightarrow> string" where
  "proxy_CallerMarshalFunc file line = shorten (length file - 1) file @ '':'' @ Itoa line"

text \<open>
  The level of the logger: \<open>None\<close> is the default. \<open>level_of\<close> is \<open>zerolog.ParseLevel\<close>, a parameter;
  the flag says that a complaint about the value has been logged.
\<close>

definition setupLogger :: "(string \<Rightarrow> string option) \<Rightarrow> (string \<Rightarrow> int option) \<Rightarrow> int option \<times> bool" where
  "setupLogger env level_of = (case env ''LOG_LEVEL'' of
       None \<Rightarrow> (None, False)
     | Some v \<Rightarrow> (case level_of v of Some l \<Rightarrow> (Some l, False) | None \<Rightarrow> (None, True)))"

definition proxy_setupLogger :: "(string \<Rightarrow> string option) \<Rightarrow> (string \<Rightarrow> int option) \<Rightarrow> int option \<times> bool" where
  "proxy_setupLogger env level_of = (case env ''LOG_LEVEL'' of
       None \<Rightarrow> (None, False)
     | Some v \<Rightarrow> (case level_of v of Some l \<Rightarrow> (Some l, False) | None \<Rightarrow> (None, True)))"

lemma shorten_slash:
  assumes "dir \<noteq> []" and "CHR ''/'' \<notin> set base"
  shows "k \<le> length base \<Longrightarrow> shorten (length dir + k) (dir @ CHR ''/'' # base) = base"
proof (induction k)
  case 0
  with assms show ?case by (cases dir) (auto simp: nth_append)
next
  case (Suc k)
  have "(dir @ CHR ''/'' # base) ! Suc (length dir + k) = base ! k" by (simp add: nth_append)
  moreover have "base ! k \<in> set base" using Suc.prems by simp
  then have "base ! k \<noteq> CHR ''/''" using assms(2) by metis
  ultimately show ?case using Suc by simp
qed

lemma shorten_none: "i < length path \<Longrightarrow> CHR ''/'' \<notin> set (tl path) \<Longrightarrow> shorten i path = path"
proof (induction i)
  case (Suc i)
  then have "path ! Suc i = tl path ! i" "i < length (tl path)" by (cases path; simp)+
  then have "path ! Suc i \<in> set (tl path)" by simp
  with Suc show ?case by (metis Suc_lessD shorten.simps(2))
qed simp

text \<open>A log line names the file without its directories: what follows the last slash of its
  path, and the whole path when there is no slash but perhaps the first character.\<close>

theorem caller_is_last_part:
  "(\<exists>dir base. path = dir @ CHR ''/'' # base \<and> dir \<noteq> [] \<and> CHR ''/'' \<notin> set base
      \<and> CallerMarshalFunc path line = base @ '':'' @ Itoa line)
   \<or> (CHR ''/'' \<notin> set (tl path) \<and> CallerMarshalFunc path line = path @ '':'' @ Itoa line)"
proof (cases "CHR ''/'' \<in> set (tl path)")
  case True
  then obtain pre base where t: "tl path = pre @ CHR ''/'' # base" "CHR ''/'' \<notin> set base"
    by (metis split_list_last)
  then have f: "path = (hd path # pre) @ CHR ''/'' # base" by (cases path) simp_all
  have "shorten (length (hd path # pre) + length base) ((hd path # pre) @ CHR ''/'' # base) = base"
    by (rule shorten_slash) (use t in simp_all)
  moreover have "length path - 1 = length (hd path # pre) + length base" using arg_cong [OF f, of length] by simp
  ultimately have "CallerMarshalFunc path line = base @ '':'' @ Itoa line"
    using f unfolding CallerMarshalFunc_def by metis
  with f t(2) show ?thesis by (metis list.discI)
next
  case False
  then have "shorten (length path - 1) path = path"
    by (cases "path = []") (simp_all add: shorten_none)
  with False show ?thesis by (simp add: CallerMarshalFunc_def)
qed

subsection \<open>The API server\<close>

record ApiServer =
  sv_Collection :: ProxyCollection
  sv_Metrics :: metricsContainer
  sv_Logger :: "int option"
  sv_http :: "string option"

definition api_NewServer :: "metricsContainer \<Rightarrow> int option \<Rightarrow> ApiServer" where
  "api_NewServer m logger =
     \<lparr>sv_Collection = NewProxyCollection, sv_Metrics = m, sv_Logger = logger, sv_http = None\<rparr>"

text \<open>
  A configuration file: the text of the error of \<open>os.Open\<close>, or what the decoder makes of it
  (its error text, and the JSON value unless there is none). Errors are logged and nothing else.
\<close>

type_synonym files = "string \<Rightarrow> string + (string \<times> json option)"

definition PopulateConfig :: "net \<Rightarrow> files \<Rightarrow> string \<Rightarrow> ApiServer \<Rightarrow> ApiServer" where
  "PopulateConfig nt open_file filename s = (case open_file filename of
       Inl err \<Rightarrow> s
     | Inr (txt, body) \<Rightarrow> (case PopulateJson nt txt body (sv_Collection s) of
         (rs, err, coll) \<Rightarrow> s\<lparr>sv_Collection := coll\<rparr>))"

text \<open>
  \<open>Listen\<close> builds the routes, which registers the metrics, and then serves until \<open>ListenAndServe\<close>
  returns with an error; that of a server that has been shut down counts as none.
\<close>

definition route_metrics :: "ApiServer \<Rightarrow> ApiServer outcome" where
  "route_metrics s = (if anyMetricsEnabled (sv_Metrics s)
     then (case metrics_handler (sv_Metrics s) of Crash \<Rightarrow> Crash | Fine m \<Rightarrow> Fine (s\<lparr>sv_Metrics := m\<rparr>))
     else Fine s)"

definition Listen_begin :: "string \<Rightarrow> ApiServer \<Rightarrow> ApiServer outcome" where
  "Listen_begin addr s = (case route_metrics s of Crash \<Rightarrow> Crash | Fine s' \<Rightarrow> Fine (s'\<lparr>sv_http := Some addr\<rparr>))"

definition ErrServerClosed :: string where
  "ErrServerClosed = ''http: Server closed''"

definition Listen_end :: "string \<Rightarrow> string option" where
  "Listen_end err = (if err = ErrServerClosed then None else Some err)"

text \<open>\<open>Shutdown\<close>, with what the \<open>Shutdown\<close> of Go's HTTP server answers within its 30 seconds.\<close>

definition Shutdown :: "string option \<Rightarrow> ApiServer \<Rightarrow> string option" where
  "Shutdown answer s = (case sv_http s of None \<Rightarrow> None | Some addr \<Rightarrow> answer)"

subsection \<open>The process\<close>

definition JoinHostPort :: "string \<Rightarrow> string \<Rightarrow> string" where
  "JoinHostPort h p = (if CHR '':'' \<in> set h then ''['' @ h @ '']:'' @ p else h @ '':'' @ p)"

record world =
  wd_net :: net
  wd_files :: files
  wd_env :: "string \<Rightarrow> string option"
  wd_level :: "string \<Rightarrow> int option"
  wd_nanos :: int

text \<open>
  Where the two goroutines of \<open>run\<close> stand. \<open>Ended\<close> has the exit status of the process.
\<close>

datatype main_pc = Waiting | ShuttingDown | Ended nat

datatype listen_pc = NotListening | Listening | ListenReturned "string option"

record process =
  ps_server :: ApiServer
  ps_addr :: string
  ps_main :: main_pc
  ps_listen :: listen_pc

text \<open>The process prints something and exits, or serves.\<close>

datatype start = Exits nat string | Serves process

definition new_api_server :: "world \<Rightarrow> cliArguments \<Rightarrow> ApiServer" where
  "new_api_server w c =
     (let logger = fst (setupLogger (wd_env w) (wd_level w));
          metrics = with_metrics (proxyMetrics c) (runtimeMetrics c) (NewMetricsContainer (Some []));
          server = api_NewServer metrics logger
      in if config c \<noteq> [] then PopulateConfig (wd_net w) (wd_files w) (config c) server else server)"

text \<open>\<open>run\<close>, up to waiting for a signal; the flag package exits by itself when the flags are wrong.\<close>

definition run_begin :: "world \<Rightarrow> string list \<Rightarrow> start" where
  "run_begin w args = (case parseArguments (wd_nanos w) args of
       FlagHelp \<Rightarrow> Exits 0 []
     | FlagError \<Rightarrow> Exits 2 []
     | Parsed c \<Rightarrow>
         if printVersion c then Exits 0 (''toxiproxy-server version '' @ Version_string @ [CHR 0x0A])
         else Serves \<lparr>ps_server = new_api_server w c, ps_addr = JoinHostPort (host c) (port c),
                      ps_main = Waiting, ps_listen = NotListening\<rparr>)"

text \<open>
  Steps: the goroutine of \<open>Listen\<close> begins, \<open>ListenAndServe\<close> returns with an error, a signal
  arrives, \<open>Shutdown\<close> has answered and \<open>run\<close> returns. The error of a \<open>Shutdown\<close> or a \<open>Listen\<close>
  is logged; \<open>run\<close> returns none.
\<close>

datatype process_event = EListen | EListenReturns string | ESignal | EShutdown "string option"

definition main_status :: "string option \<Rightarrow> nat" where
  "main_status err = (if err \<noteq> None then 1 else 0)"

definition run_end :: "string option \<Rightarrow> process \<Rightarrow> string option" where
  "run_end answer p = (case Shutdown answer (ps_server p) of Some err \<Rightarrow> None | None \<Rightarrow> None)"

fun running :: "main_pc \<Rightarrow> bool" where
  "running (Ended n) = False"
| "running pc = True"

fun process_step :: "process_event \<Rightarrow> process \<Rightarrow> process outcome option" where
  "process_step EListen p =
     (if ps_listen p = NotListening \<and> running (ps_main p)
      then Some (case Listen_begin (ps_addr p) (ps_server p) of
          Crash \<Rightarrow> Crash
        | Fine s \<Rightarrow> Fine (p\<lparr>ps_server := s, ps_listen := Listening\<rparr>))
      else None)"
| "process_step (EListenReturns err) p =
     (if ps_listen p = Listening \<and> running (ps_main p)
      then Some (Fine (p\<lparr>ps_listen := ListenReturned (Listen_end err)\<rparr>)) else None)"
| "process_step ESignal p = (if ps_main p = Waiting then Some (Fine (p\<lparr>ps_main := ShuttingDown\<rparr>)) else None)"
| "process_step (EShutdown answer) p =
     (if ps_main p = ShuttingDown then Some (Fine (p\<lparr>ps_main := Ended (main_status (run_end answer p))\<rparr>)) else None)"

fun process_run :: "process_event list \<Rightarrow> process \<Rightarrow> process outcome option" where
  "process_run [] p = Some (Fine p)"
| "process_run (e # es) p = (case process_step e p of Some (Fine p') \<Rightarrow> process_run es p' | r \<Rightarrow> r)"

subsection \<open>What the process does\<close>

lemma with_metrics_fresh:
  "metrics_handler (with_metrics p r (NewMetricsContainer (Some []))) \<noteq> Crash"
  by (cases p; cases r) (simp_all add: container_defs)

lemma PopulateConfig_metrics [simp]:
  "sv_Metrics (PopulateConfig nt fs fname s) = sv_Metrics s" "sv_http (PopulateConfig nt fs fname s) = sv_http s"
  by (simp_all add: PopulateConfig_def split_beta split: sum.split)

lemma new_api_server_simps:
  "sv_Metrics (new_api_server w c) = with_metrics (proxyMetrics c) (runtimeMetrics c) (NewMetricsContainer (Some []))"
  "sv_http (new_api_server w c) = None"
  by (simp_all add: new_api_server_def Let_def api_NewServer_def)

text \<open>The goroutine of \<open>Listen\<close> runs at most once, and before it does nothing is registered.\<close>

definition process_ok :: "process \<Rightarrow> bool" where
  "process_ok p \<longleftrightarrow> (ps_listen p = NotListening \<longrightarrow> metrics_handler (sv_Metrics (ps_server p)) \<noteq> Crash)
     \<and> ps_main p \<in> {Waiting, ShuttingDown, Ended 0}"

lemma process_step_ok:
  assumes "process_ok p" and "process_step e p = Some r"
  shows "\<exists>p'. r = Fine p' \<and> process_ok p' \<and> sv_Collection (ps_server p') = sv_Collection (ps_server p)"
  using assms
  by (cases e) (auto simp: process_ok_def Listen_begin_def route_metrics_def run_end_def main_status_def
      split: if_splits outcome.splits option.splits)

lemma process_run_ok:
  "process_ok p \<Longrightarrow> process_run es p = Some r \<Longrightarrow>
     \<exists>p'. r = Fine p' \<and> process_ok p' \<and> sv_Collection (ps_server p') = sv_Collection (ps_server p)"
proof (induction es arbitrary: p)
  case (Cons e es)
  then obtain x where x: "process_step e p = Some x" by (auto split: option.splits)
  obtain p1 where "x = Fine p1" "process_ok p1" "sv_Collection (ps_server p1) = sv_Collection (ps_server p)"
    using process_step_ok [OF Cons.prems(1) x] by blast
  with Cons.IH [of p1] Cons.prems(2) x show ?case by simp
qed auto

lemma run_begin_ok: "run_begin w args = Serves p \<Longrightarrow> process_ok p"
  using with_metrics_fresh
  by (auto simp: run_begin_def process_ok_def new_api_server_simps split: parsed.splits if_splits)


text \<open>A port that is taken is only logged: the process stays, waiting for a signal, and serves nothing.\<close>

theorem taken_port_keeps_process:
  assumes "run_begin w args = Serves p" and "err \<noteq> ErrServerClosed"
  shows "\<exists>p'. process_run [EListen, EListenReturns err] p = Some (Fine p') \<and> ps_main p' = Waiting
    \<and> ps_listen p' = ListenReturned (Some err)
    \<and> (\<forall>answer. \<exists>q. process_run [ESignal, EShutdown answer] p' = Some (Fine q) \<and> ps_main q = Ended 0)"
proof -
  have p: "ps_main p = Waiting" "ps_listen p = NotListening"
    using assms(1) by (auto simp: run_begin_def split: parsed.splits if_splits)
  have "metrics_handler (sv_Metrics (ps_server p)) \<noteq> Crash"
    using run_begin_ok [OF assms(1)] p(2) by (simp add: process_ok_def)
  then obtain s where "Listen_begin (ps_addr p) (ps_server p) = Fine s"
    by (cases "metrics_handler (sv_Metrics (ps_server p))"; cases "anyMetricsEnabled (sv_Metrics (ps_server p))")
      (auto simp: Listen_begin_def route_metrics_def)
  with p assms(2) show ?thesis by (simp add: Listen_end_def run_end_def main_status_def split: option.split)
qed

text \<open>A configuration file that is missing, no JSON, or not valid does not keep the server from
  starting: it starts without proxies. In any case its proxies are well formed.\<close>

theorem configured_server:
  assumes "run_begin w args = Serves p" and "parseArguments (wd_nanos w) args = Parsed c"
  shows "api_ok (sv_Collection (ps_server p))
    \<and> (config c \<noteq> [] \<and> (case wd_files w (config c) of Inl e \<Rightarrow> True | Inr (tx, body) \<Rightarrow> \<not> populate_valid body)
         \<longrightarrow> sv_Collection (ps_server p) = NewProxyCollection)"
proof -
  have p: "ps_server p = new_api_server w c" using assms by (auto simp: run_begin_def split: if_splits)
  define s0 where "s0 = api_NewServer (with_metrics (proxyMetrics c) (runtimeMetrics c) (NewMetricsContainer (Some [])))
      (fst (setupLogger (wd_env w) (wd_level w)))"
  have s0: "sv_Collection s0 = NewProxyCollection" by (simp add: s0_def api_NewServer_def)
  have new: "new_api_server w c = (if config c \<noteq> [] then PopulateConfig (wd_net w) (wd_files w) (config c) s0 else s0)"
    by (simp add: new_api_server_def s0_def Let_def)
  have "api_ok (sv_Collection (PopulateConfig (wd_net w) (wd_files w) f s0))" for f
    using api_ok_new s0 by (auto simp: PopulateConfig_def split: sum.split prod.splits dest: api_ok_PopulateJson [rotated])
  moreover have "sv_Collection (PopulateConfig (wd_net w) (wd_files w) (config c) s0) = NewProxyCollection"
    if "case wd_files w (config c) of Inl e \<Rightarrow> True | Inr (tx, body) \<Rightarrow> \<not> populate_valid body"
  proof (cases "wd_files w (config c)")
    case (Inr x)
    with that have "\<not> populate_valid (snd x)" by (simp add: split_beta)
    from PopulateJson_invalid [OF this, of "wd_net w" "fst x" NewProxyCollection] Inr s0
    show ?thesis by (auto simp: PopulateConfig_def split_beta)
  qed (simp add: PopulateConfig_def s0)
  ultimately show ?thesis using p new s0 api_ok_new by simp
qed

subsection \<open>Witnesses\<close>

definition some_world :: world where
  "some_world = \<lparr>wd_net = some_net, wd_files = (\<lambda>f. if f = ''bad.json'' then Inr (''EOF'', None) else Inl ''no such file''),
     wd_env = (\<lambda>v. None), wd_level = (\<lambda>v. None), wd_nanos = 1\<rparr>"

definition some_args :: "string list" where
  "some_args = [''-config'', ''bad.json'', ''-proxy-metrics'']"

definition some_arguments :: cliArguments where
  "some_arguments = (default_arguments 1)\<lparr>config := ''bad.json'', proxyMetrics := True\<rparr>"

lemma some_args_parsed: "parseArguments (wd_nanos some_world) some_args = Parsed some_arguments"
  by (simp add: parseArguments_def some_world_def some_args_def some_arguments_def default_arguments_def read_argument_def
      split_value_def flag_is_bool_def set_flag_def ParseBool_def Let_def)

lemma some_run: "\<exists>p. run_begin some_world some_args = Serves p"
  using some_args_parsed by (simp add: run_begin_def) (simp add: some_arguments_def default_arguments_def)

theorem taken_port_keeps_process_witness:
  "\<exists>p p'. run_begin some_world some_args = Serves p
     \<and> process_run [EListen, EListenReturns ''bind: address already in use''] p = Some (Fine p') \<and> ps_main p' = Waiting"
proof -
  obtain p where "run_begin some_world some_args = Serves p" using some_run by blast
  with taken_port_keeps_process [OF this, of "''bind: address already in use''"] show ?thesis
    by (auto simp: ErrServerClosed_def simp del: process_run.simps)
qed

theorem configured_server_witness:
  "\<exists>p. run_begin some_world some_args = Serves p \<and> sv_Collection (ps_server p) = NewProxyCollection"
proof -
  obtain p where p: "run_begin some_world some_args = Serves p" using some_run by blast
  from configured_server [OF p some_args_parsed] p show ?thesis
    by (simp add: some_arguments_def some_world_def populate_valid_def)
qed

end
