(* ===== verification/Cli.thy ===== *)
theory Cli
  imports ApiErrors "HOL-Library.List_Lexorder" "HOL-Library.Char_ord" "HOL-Library.AList"
begin

text \<open>
  The command line client (\<open>cmd/cli/cli.go\<close>): its commands as functions from the arguments and the
  state of the server to the text printed, an error to exit with, and the new state. The client
  library and the parser of the command line are third-party code, and so parameters: a
  record of functions, and a record of what the parser returns. So are the conversions between
  texts and floating-point numbers.
\<close>

datatype go_float = Num rat | NotANumber | PlusInf | MinusInf

record conversions =
  ParseFloat32 :: "string \<Rightarrow> go_float option"
  ParseFloat64 :: "string \<Rightarrow> go_float option"
  show_two_digits :: "go_float \<Rightarrow> string"
  show_float :: "go_float \<Rightarrow> string"

text \<open>The dynamic type of an attribute's value.\<close>

datatype attr_value = AFloat go_float | AString string | AOther

type_synonym attributes = "(string \<times> attr_value) list"

record client_toxic =
  ct_Name :: string
  ct_Type :: string
  ct_Stream :: string
  ct_Toxicity :: go_float
  ct_Attributes :: attributes

record client_proxy =
  cp_Name :: string
  cp_Listen :: string
  cp_Upstream :: string
  cp_Enabled :: bool
  cp_ActiveToxics :: "client_toxic list"

record ToxicOptions =
  to_ProxyName :: string
  to_ToxicName :: string
  to_ToxicType :: string
  to_Stream :: string
  to_Toxicity :: go_float
  to_Attributes :: attributes

text \<open>The client library: an error is its text.\<close>

record 's client =
  cl_Proxies :: "'s \<Rightarrow> string + (string \<times> client_proxy) list"
  cl_Proxy :: "string \<Rightarrow> 's \<Rightarrow> string + client_proxy"
  cl_Save :: "client_proxy \<Rightarrow> 's \<Rightarrow> string option \<times> 's"
  cl_Delete :: "client_proxy \<Rightarrow> 's \<Rightarrow> string option \<times> 's"
  cl_CreateProxy :: "string \<Rightarrow> string \<Rightarrow> string \<Rightarrow> 's \<Rightarrow> string option \<times> 's"
  cl_AddToxic :: "ToxicOptions \<Rightarrow> 's \<Rightarrow> (string + client_toxic) \<times> 's"
  cl_UpdateToxic :: "ToxicOptions \<Rightarrow> 's \<Rightarrow> (string + client_toxic) \<times> 's"
  cl_RemoveToxic :: "ToxicOptions \<Rightarrow> 's \<Rightarrow> string option \<times> 's"

text \<open>What the parser of the command line returns, and the help it shows.\<close>

record cli_context =
  cx_First :: string
  cx_String :: "string \<Rightarrow> string"
  cx_Bool :: "string \<Rightarrow> bool"
  cx_StringSlice :: "string \<Rightarrow> string list"
  cx_Help :: string

text \<open>The text printed, the error, and the state.\<close>

type_synonym 's result = "(string \<times> string option \<times> 's) outcome"

subsection \<open>Printing\<close>

definition escape :: "string \<Rightarrow> string" where
  "escape code = CHR 0x1B # CHR 0x5B # code @ ''m''"

definition RED :: string where "RED = escape ''31''"
definition GREEN :: string where "GREEN = escape ''32''"
definition YELLOW :: string where "YELLOW = escape ''33''"
definition BLUE :: string where "BLUE = escape ''34''"
definition PURPLE :: string where "PURPLE = escape ''35''"
definition NONE :: string where "NONE = escape ''0''"

abbreviation nl :: string where "nl \<equiv> [CHR 0x0A]"
abbreviation tabs :: "nat \<Rightarrow> string" where "tabs n \<equiv> replicate n (CHR 0x09)"

definition color :: "bool \<Rightarrow> string \<Rightarrow> string" where
  "color isTTY c = (if isTTY then c else [])"

definition colorEnabled :: "bool \<Rightarrow> bool \<Rightarrow> string" where
  "colorEnabled isTTY enabled = (if enabled then color isTTY GREEN else color isTTY RED)"

definition enabledText :: "bool \<Rightarrow> string" where
  "enabledText enabled = (if enabled then ''enabled'' else ''disabled'')"

definition hint :: "bool \<Rightarrow> string \<Rightarrow> string" where
  "hint isTTY m = (if isTTY then nl @ color isTTY NONE @ ''Hint: '' @ m @ nl else [])"

text \<open>\<open>strings.Repeat\<close> panics on a negative count.\<close>

definition Repeat :: "string \<Rightarrow> int \<Rightarrow> string outcome" where
  "Repeat s n = (if n < 0 then Crash else Fine (concat (replicate (nat n) s)))"

definition printWidth :: "bool \<Rightarrow> string \<Rightarrow> string \<Rightarrow> int \<Rightarrow> string outcome" where
  "printWidth isTTY col m numTabs =
     (let n = (if isTTY then (let k = numTabs - (int (length m) div 8 + 1) in if k < 0 then 0 else k) else 0)
      in case Repeat (tabs 1) n of
           Crash \<Rightarrow> Crash
         | Fine ts \<Rightarrow> Fine (color isTTY col @ m @ color isTTY NONE @ tabs 1 @ ts))"

text \<open>The outputs of a sequence of prints.\<close>

fun print_all :: "string outcome list \<Rightarrow> string outcome" where
  "print_all [] = Fine []"
| "print_all (x # xs) = (case x of
       Crash \<Rightarrow> Crash
     | Fine s \<Rightarrow> (case print_all xs of Crash \<Rightarrow> Crash | Fine t \<Rightarrow> Fine (s @ t)))"

text \<open>The type assertion \<open>v.(float64)\<close> panics on any other type.\<close>

definition sortedAttributes :: "attributes \<Rightarrow> (string \<times> go_float) list outcome" where
  "sortedAttributes attrs =
     (if list_all (\<lambda>(k, v). case v of AFloat x \<Rightarrow> True | _ \<Rightarrow> False) attrs
      then Fine (sort_key fst (map (\<lambda>(k, v). (k, case v of AFloat x \<Rightarrow> x | _ \<Rightarrow> NotANumber)) attrs))
      else Crash)"

definition print_toxic :: "conversions \<Rightarrow> bool \<Rightarrow> client_toxic \<Rightarrow> string outcome" where
  "print_toxic cv isTTY t = (case sortedAttributes (ct_Attributes t) of
       Crash \<Rightarrow> Crash
     | Fine attrs \<Rightarrow> Fine (
         (if isTTY then color isTTY BLUE @ ct_Name t @ '':'' @ color isTTY NONE @ tabs 1 else ct_Name t @ tabs 1)
         @ ''type='' @ ct_Type t @ tabs 1 @ ''stream='' @ ct_Stream t @ tabs 1
         @ ''toxicity='' @ show_two_digits cv (ct_Toxicity t) @ tabs 1 @ ''attributes=[''
         @ concat (map (\<lambda>(k, x). tabs 1 @ k @ ''='' @ show_float cv x) attrs) @ tabs 1 @ '']'' @ nl))"

definition listToxics :: "conversions \<Rightarrow> bool \<Rightarrow> client_toxic list \<Rightarrow> string \<Rightarrow> string outcome" where
  "listToxics cv isTTY toxics stream =
     (let head = (if isTTY then color isTTY GREEN @ stream @ '' toxics:'' @ nl @ color isTTY NONE else [])
      in if isTTY \<and> toxics = []
         then Fine (head @ color isTTY RED @ ''Proxy has no '' @ stream @ '' toxics enabled.'' @ nl @ color isTTY NONE)
         else print_all (Fine head # map (print_toxic cv isTTY) toxics))"

definition splitToxics :: "client_toxic list \<Rightarrow> client_toxic list \<times> client_toxic list" where
  "splitToxics toxics = (filter (\<lambda>t. ct_Stream t = ''upstream'') toxics, filter (\<lambda>t. ct_Stream t \<noteq> ''upstream'') toxics)"

definition finish :: "string outcome \<Rightarrow> 's \<Rightarrow> 's result" where
  "finish r s = (case r of Crash \<Rightarrow> Crash | Fine out \<Rightarrow> Fine (out, None, s))"

subsection \<open>Arguments\<close>

text \<open>A missing argument shows the help and is an error.\<close>

definition getArgOrFail :: "cli_context \<Rightarrow> string \<Rightarrow> (string \<times> string) + string" where
  "getArgOrFail c name = (if cx_String c name = []
     then Inl (cx_Help c, ''Required argument '' @ [CHR 0x27] @ name @ [CHR 0x27] @ '' was empty.'' @ nl)
     else Inr (cx_String c name))"

definition above_one :: "go_float \<Rightarrow> bool" where
  "above_one x = (case x of Num r \<Rightarrow> r > 1 | PlusInf \<Rightarrow> True | _ \<Rightarrow> False)"

definition below_zero :: "go_float \<Rightarrow> bool" where
  "below_zero x = (case x of Num r \<Rightarrow> r < 0 | MinusInf \<Rightarrow> True | _ \<Rightarrow> False)"

definition parseToxicity :: "conversions \<Rightarrow> cli_context \<Rightarrow> go_float \<Rightarrow> string + go_float" where
  "parseToxicity cv c defaultToxicity =
     (let s = cx_String c ''toxicity'' in
      if s \<noteq> [] then
        (case ParseFloat32 cv s of
           None \<Rightarrow> Inl (''toxicity should be a float between 0 and 1.'' @ nl)
         | Some tox \<Rightarrow> if above_one tox \<or> below_zero tox
             then Inl (''toxicity should be a float between 0 and 1.'' @ nl) else Inr tox)
      else Inr defaultToxicity)"

fun add_attribute :: "conversions \<Rightarrow> string \<Rightarrow> attributes \<Rightarrow> attributes" where
  "add_attribute cv raw parsed =
     (if CHR 0x3D \<notin> set raw then parsed
      else (let key = takeWhile (\<lambda>x. x \<noteq> CHR 0x3D) raw; val = tl (dropWhile (\<lambda>x. x \<noteq> CHR 0x3D) raw)
            in AList.update key (case ParseFloat64 cv val of Some f \<Rightarrow> AFloat f | None \<Rightarrow> AString val) parsed))"

definition parseAttributes :: "conversions \<Rightarrow> cli_context \<Rightarrow> string \<Rightarrow> attributes" where
  "parseAttributes cv c name = fold (add_attribute cv) (cx_StringSlice c name) []"

text \<open>An error comes with what has been printed before it.\<close>

definition parseToxicCommonParams :: "cli_context \<Rightarrow> (string \<times> string) + ToxicOptions" where
  "parseToxicCommonParams c = (if cx_First c = [] then Inl (cx_Help c, ''Proxy name is missing.'' @ nl)
     else Inr \<lparr>to_ProxyName = cx_First c, to_ToxicName = cx_String c ''toxicName'', to_ToxicType = [],
               to_Stream = [], to_Toxicity = Num 0, to_Attributes = []\<rparr>)"

definition parseUpdateToxicParams :: "conversions \<Rightarrow> cli_context \<Rightarrow> (string \<times> string) + ToxicOptions" where
  "parseUpdateToxicParams cv c = (case parseToxicCommonParams c of
       Inl e \<Rightarrow> Inl e
     | Inr result \<Rightarrow> (case parseToxicity cv c (Num 1) of
           Inl e \<Rightarrow> Inl ([], e)
         | Inr tox \<Rightarrow> Inr (result\<lparr>to_Toxicity := tox, to_Attributes := parseAttributes cv c ''attribute''\<rparr>)))"

definition parseAddToxicParams :: "conversions \<Rightarrow> cli_context \<Rightarrow> (string \<times> string) + ToxicOptions" where
  "parseAddToxicParams cv c = (case parseToxicCommonParams c of
       Inl e \<Rightarrow> Inl e
     | Inr result \<Rightarrow> (case getArgOrFail c ''type'' of
           Inl e \<Rightarrow> Inl e
         | Inr ty \<Rightarrow>
             (let upstream = cx_Bool c ''upstream''; downstream = cx_Bool c ''downstream''
              in if upstream \<and> downstream then Inl ([], ''Only one should be specified: upstream or downstream.'' @ nl)
                 else (case parseToxicity cv c (Num 1) of
                     Inl e \<Rightarrow> Inl ([], e)
                   | Inr tox \<Rightarrow> Inr (result\<lparr>to_ToxicType := ty,
                       to_Stream := (if upstream then ''upstream'' else ''downstream''),
                       to_Toxicity := tox, to_Attributes := parseAttributes cv c ''attribute''\<rparr>)))))"

subsection \<open>Commands\<close>

definition no_name :: "cli_context \<Rightarrow> 's \<Rightarrow> 's result" where
  "no_name c s = Fine (cx_Help c, Some (''Proxy name is required as the first argument.'' @ nl), s)"

definition not_retrieved :: "string \<Rightarrow> string \<Rightarrow> 's \<Rightarrow> 's result" where
  "not_retrieved name err s = Fine ([], Some (''Failed to retrieve proxy '' @ name @ '': '' @ err @ nl), s)"

definition list_header :: "bool \<Rightarrow> string" where
  "list_header isTTY = (if isTTY
     then color isTTY GREEN @ ''Name'' @ tabs 3 @ color isTTY BLUE @ ''Listen'' @ tabs 2 @ color isTTY YELLOW @ ''Upstream'' @ tabs 2
       @ color isTTY PURPLE @ ''Enabled'' @ tabs 2 @ color isTTY RED @ ''Toxics'' @ nl @ color isTTY NONE
       @ color isTTY NONE @ replicate 86 (CHR 0x3D) @ nl
     else [])"

definition list_row :: "bool \<Rightarrow> client_proxy \<Rightarrow> string outcome" where
  "list_row isTTY proxy =
     (let n = decimal (length (cp_ActiveToxics proxy)); numToxics = (if n = ''0'' \<and> isTTY then ''None'' else n)
      in print_all [printWidth isTTY (color isTTY (colorEnabled isTTY (cp_Enabled proxy))) (cp_Name proxy) 3,
           printWidth isTTY BLUE (cp_Listen proxy) 2, printWidth isTTY YELLOW (cp_Upstream proxy) 3,
           printWidth isTTY PURPLE (enabledText (cp_Enabled proxy)) 2,
           Fine (color isTTY RED @ numToxics @ color isTTY NONE @ nl)])"

definition list_cmd :: "bool \<Rightarrow> 's client \<Rightarrow> 's \<Rightarrow> 's result" where
  "list_cmd isTTY t s = (case cl_Proxies t s of
       Inl err \<Rightarrow> Fine ([], Some (''Failed to retrieve proxies: '' @ err), s)
     | Inr proxies \<Rightarrow>
         (let proxyNames = sort (map fst proxies)
          in if isTTY \<and> proxyNames = []
             then Fine (list_header isTTY @ color isTTY RED @ ''no proxies'' @ nl @ color isTTY NONE
                    @ hint isTTY ''create a proxy with `toxiproxy-cli create`'', None, s)
             else finish (print_all (Fine (list_header isTTY)
                    # map (\<lambda>n. list_row isTTY (the (map_of proxies n))) proxyNames
                    @ [Fine (hint isTTY ''inspect toxics with `toxiproxy-cli inspect <proxyName>`'')])) s))"

definition inspectProxy :: "conversions \<Rightarrow> bool \<Rightarrow> cli_context \<Rightarrow> 's client \<Rightarrow> 's \<Rightarrow> 's result" where
  "inspectProxy cv isTTY c t s =
     (let proxyName = cx_First c in
      if proxyName = [] then no_name c s
      else (case cl_Proxy t proxyName s of
          Inl err \<Rightarrow> not_retrieved proxyName err s
        | Inr proxy \<Rightarrow>
            if isTTY then
              (let head = color isTTY PURPLE @ ''Name: '' @ color isTTY NONE @ cp_Name proxy @ tabs 1
                   @ color isTTY BLUE @ ''Listen: '' @ color isTTY NONE @ cp_Listen proxy @ tabs 1
                   @ color isTTY YELLOW @ ''Upstream: '' @ color isTTY NONE @ cp_Upstream proxy @ nl
                   @ color isTTY NONE @ replicate 70 (CHR 0x3D) @ nl;
                 (up, down) = splitToxics (cp_ActiveToxics proxy);
                 toxics = (if cp_ActiveToxics proxy = []
                   then [Fine (color isTTY RED @ ''Proxy has no toxics enabled.'' @ nl @ color isTTY NONE)]
                   else [listToxics cv isTTY up ''Upstream'', Fine nl, listToxics cv isTTY down ''Downstream''])
               in finish (print_all (Fine head # toxics @ [Fine (hint isTTY ''add a toxic with `toxiproxy-cli toxic add`'')])) s)
            else finish (listToxics cv isTTY (cp_ActiveToxics proxy) []) s))"

definition toggleProxy :: "bool \<Rightarrow> cli_context \<Rightarrow> 's client \<Rightarrow> 's \<Rightarrow> 's result" where
  "toggleProxy isTTY c t s =
     (let proxyName = cx_First c in
      if proxyName = [] then no_name c s
      else (case cl_Proxy t proxyName s of
          Inl err \<Rightarrow> not_retrieved proxyName err s
        | Inr p \<Rightarrow>
            (let proxy = p\<lparr>cp_Enabled := \<not> cp_Enabled p\<rparr>; col = colorEnabled isTTY (cp_Enabled proxy)
             in case cl_Save t proxy s of
                  (Some err, s') \<Rightarrow> Fine ([], Some (''Failed to toggle proxy '' @ proxyName @ '': '' @ err @ nl), s')
                | (None, s') \<Rightarrow> Fine (''Proxy '' @ col @ proxyName @ color isTTY NONE @ '' is now '' @ col
                      @ enabledText (cp_Enabled proxy) @ color isTTY NONE @ nl, None, s'))))"

definition createProxy :: "cli_context \<Rightarrow> 's client \<Rightarrow> 's \<Rightarrow> 's result" where
  "createProxy c t s =
     (let proxyName = cx_First c in
      if proxyName = [] then no_name c s
      else (case getArgOrFail c ''listen'' of
          Inl (out, err) \<Rightarrow> Fine (out, Some err, s)
        | Inr listen \<Rightarrow> (case getArgOrFail c ''upstream'' of
              Inl (out, err) \<Rightarrow> Fine (out, Some err, s)
            | Inr upstream \<Rightarrow> (case cl_CreateProxy t proxyName listen upstream s of
                  (Some err, s') \<Rightarrow> Fine ([], Some (''Failed to create proxy: '' @ err @ nl), s')
                | (None, s') \<Rightarrow> Fine (''Created new proxy '' @ proxyName @ nl, None, s')))))"

definition deleteProxy :: "cli_context \<Rightarrow> 's client \<Rightarrow> 's \<Rightarrow> 's result" where
  "deleteProxy c t s =
     (let proxyName = cx_First c in
      if proxyName = [] then no_name c s
      else (case cl_Proxy t proxyName s of
          Inl err \<Rightarrow> not_retrieved proxyName err s
        | Inr p \<Rightarrow> (case cl_Delete t p s of
              (Some err, s') \<Rightarrow> Fine ([], Some (''Failed to delete proxy: '' @ err @ nl), s')
            | (None, s') \<Rightarrow> Fine (''Deleted proxy '' @ proxyName @ nl, None, s'))))"

definition quoted :: "string \<Rightarrow> string" where
  "quoted x = CHR 0x27 # x @ [CHR 0x27]"

definition addToxic_cmd :: "conversions \<Rightarrow> cli_context \<Rightarrow> 's client \<Rightarrow> 's \<Rightarrow> 's result" where
  "addToxic_cmd cv c t s = (case parseAddToxicParams cv c of
       Inl (out, err) \<Rightarrow> Fine (out, Some err, s)
     | Inr params \<Rightarrow> (case cl_AddToxic t params s of
           (Inl err, s') \<Rightarrow> Fine ([], Some (''Failed to add toxic: '' @ err @ nl), s')
         | (Inr toxic, s') \<Rightarrow> Fine (''Added '' @ ct_Stream toxic @ '' '' @ ct_Type toxic @ '' toxic '' @ quoted (ct_Name toxic)
              @ '' on proxy '' @ quoted (to_ProxyName params) @ nl, None, s')))"

definition updateToxic_cmd :: "conversions \<Rightarrow> cli_context \<Rightarrow> 's client \<Rightarrow> 's \<Rightarrow> 's result" where
  "updateToxic_cmd cv c t s = (case parseUpdateToxicParams cv c of
       Inl (out, err) \<Rightarrow> Fine (out, Some err, s)
     | Inr params \<Rightarrow> (case cl_UpdateToxic t params s of
           (Inl err, s') \<Rightarrow> Fine ([], Some (''Failed to update toxic: '' @ err @ nl), s')
         | (Inr toxic, s') \<Rightarrow> Fine (''Updated toxic '' @ quoted (ct_Name toxic)
              @ '' on proxy '' @ quoted (to_ProxyName params) @ nl, None, s')))"

definition removeToxic_cmd :: "cli_context \<Rightarrow> 's client \<Rightarrow> 's \<Rightarrow> 's result" where
  "removeToxic_cmd c t s = (case parseToxicCommonParams c of
       Inl (out, err) \<Rightarrow> Fine (out, Some err, s)
     | Inr params \<Rightarrow> (case cl_RemoveToxic t params s of
           (Some err, s') \<Rightarrow> Fine ([], Some (''Failed to remove toxic: '' @ err @ nl), s')
         | (None, s') \<Rightarrow> Fine (''Removed toxic '' @ quoted (to_ToxicName params)
              @ '' on proxy '' @ quoted (to_ProxyName params) @ nl, None, s')))"

subsection \<open>The table of commands\<close>

datatype action = DoList | DoInspect | DoCreate | DoToggle | DoDelete | DoAddToxic | DoUpdateToxic | DoRemoveToxic

text \<open>
  A command: its name and aliases, its flags with theirs, and what it does. (The texts that
  explain them are left out.) The command \<open>toxic\<close> has subcommands instead of an action.
\<close>

record command =
  cm_Names :: "string list"
  cm_Flags :: "string list list"
  cm_Action :: action

definition cliCommands :: "command list" where
  "cliCommands =
     [\<lparr>cm_Names = [''list'', ''l'', ''li'', ''ls''], cm_Flags = [], cm_Action = DoList\<rparr>,
      \<lparr>cm_Names = [''inspect'', ''i'', ''ins''], cm_Flags = [], cm_Action = DoInspect\<rparr>,
      \<lparr>cm_Names = [''create'', ''c'', ''new''], cm_Flags = [[''listen'', ''l''], [''upstream'', ''u'']], cm_Action = DoCreate\<rparr>,
      \<lparr>cm_Names = [''toggle'', ''tog''], cm_Flags = [], cm_Action = DoToggle\<rparr>,
      \<lparr>cm_Names = [''delete'', ''d''], cm_Flags = [], cm_Action = DoDelete\<rparr>]"

definition cliToxiAddSubCommand :: command where
  "cliToxiAddSubCommand = \<lparr>cm_Names = [''add'', ''a''],
     cm_Flags = [[''toxicName'', ''n''], [''type'', ''t''], [''toxicity'', ''tox''], [''attribute'', ''a''],
                 [''upstream'', ''u''], [''downstream'', ''d'']],
     cm_Action = DoAddToxic\<rparr>"

definition cliToxiUpdateSubCommand :: command where
  "cliToxiUpdateSubCommand = \<lparr>cm_Names = [''update'', ''u''],
     cm_Flags = [[''toxicName'', ''n''], [''toxicity'', ''tox''], [''attribute'', ''a'']], cm_Action = DoUpdateToxic\<rparr>"

definition cliToxiRemoveSubCommand :: command where
  "cliToxiRemoveSubCommand = \<lparr>cm_Names = [''remove'', ''r'', ''delete'', ''d''],
     cm_Flags = [[''toxicName'', ''n'']], cm_Action = DoRemoveToxic\<rparr>"

definition cliToxiSubCommands :: "command list" where
  "cliToxiSubCommands = [cliToxiAddSubCommand, cliToxiUpdateSubCommand, cliToxiRemoveSubCommand]"

lemmas command_defs = cliCommands_def cliToxiSubCommands_def cliToxiAddSubCommand_def cliToxiUpdateSubCommand_def
  cliToxiRemoveSubCommand_def

lemma names_unambiguous:
  "distinct ([''toxic'', ''t''] @ concat (map cm_Names cliCommands))"
  "distinct (concat (map cm_Names cliToxiSubCommands))"
  "list_all (\<lambda>c. distinct (concat (cm_Flags c))) (cliCommands @ cliToxiSubCommands)"
  by (simp_all add: command_defs)

definition by_name :: "command list \<Rightarrow> string \<Rightarrow> action option" where
  "by_name table name = map_option cm_Action (find (\<lambda>c. name \<in> set (cm_Names c)) table)"

definition find_action :: "string list \<Rightarrow> action option" where
  "find_action words = (case words of
       [] \<Rightarrow> None
     | w # ws \<Rightarrow> if w = ''toxic'' \<or> w = ''t'' then (case ws of [] \<Rightarrow> None | v # vs \<Rightarrow> by_name cliToxiSubCommands v)
                 else by_name cliCommands w)"

fun run_action :: "conversions \<Rightarrow> bool \<Rightarrow> cli_context \<Rightarrow> 's client \<Rightarrow> action \<Rightarrow> 's \<Rightarrow> 's result" where
  "run_action cv isTTY c t DoList s = list_cmd isTTY t s"
| "run_action cv isTTY c t DoInspect s = inspectProxy cv isTTY c t s"
| "run_action cv isTTY c t DoCreate s = createProxy c t s"
| "run_action cv isTTY c t DoToggle s = toggleProxy isTTY c t s"
| "run_action cv isTTY c t DoDelete s = deleteProxy c t s"
| "run_action cv isTTY c t DoAddToxic s = addToxic_cmd cv c t s"
| "run_action cv isTTY c t DoUpdateToxic s = updateToxic_cmd cv c t s"
| "run_action cv isTTY c t DoRemoveToxic s = removeToxic_cmd c t s"

subsection \<open>What the commands do\<close>

lemma printWidth_Fine: "printWidth isTTY col m n \<noteq> Crash"
  by (simp add: printWidth_def Repeat_def Let_def)

lemma print_all_Crash: "print_all xs = Crash \<longleftrightarrow> Crash \<in> set xs"
  by (induction xs) (auto split: outcome.splits)

lemma finish_Crash [simp]: "finish r s = Crash \<longleftrightarrow> r = Crash"
  by (simp add: finish_def split: outcome.splits)

lemma finish_Fine: "finish r s = Fine (out, e, s') \<Longrightarrow> s' = s \<and> e = None"
  by (simp add: finish_def split: outcome.splits)

lemma sorted_attributes:
  "sortedAttributes attrs = Fine xs \<Longrightarrow> sorted (map fst xs) \<and> set xs = {(k, x). (k, AFloat x) \<in> set attrs}"
  by (auto simp: sortedAttributes_def list_all_iff image_iff split: if_splits attr_value.splits)
    (force split: attr_value.splits)+

definition listable :: "client_toxic \<Rightarrow> bool" where
  "listable t \<longleftrightarrow> list_all (\<lambda>(k, v). case v of AFloat x \<Rightarrow> True | _ \<Rightarrow> False) (ct_Attributes t)"

lemma listToxics_Crash: "listToxics cv isTTY ts stream = Crash \<Longrightarrow> \<exists>t \<in> set ts. \<not> listable t"
  by (auto simp: listToxics_def Let_def print_all_Crash print_toxic_def sortedAttributes_def listable_def
      split: if_splits outcome.splits)

lemma list_row_Fine: "list_row isTTY p \<noteq> Crash"
  by (simp add: list_row_def Let_def print_all_Crash printWidth_Fine printWidth_Fine [symmetric] del: print_all.simps)

lemma list_cmd_Fine: "list_cmd isTTY t s \<noteq> Crash"
proof -
  have "Crash \<notin> (\<lambda>n. list_row isTTY (the (map_of ps n))) ` ns" for ps and ns :: "string set"
    using list_row_Fine by (metis imageE)
  then show ?thesis by (simp add: list_cmd_def Let_def print_all_Crash split: sum.split del: print_all.simps)
qed

text \<open>Only the inspection of a proxy can panic: when a toxic has an attribute that is not a number.\<close>

theorem client_crash_causes:
  assumes "run_action cv isTTY c t a s = Crash"
  shows "a = DoInspect \<and> (\<exists>p. cl_Proxy t (cx_First c) s = Inr p \<and> (\<exists>x \<in> set (cp_ActiveToxics p). \<not> listable x))"
proof -
  have "a = DoInspect"
    using assms
    by (cases a) (auto simp: list_cmd_Fine createProxy_def toggleProxy_def deleteProxy_def addToxic_cmd_def updateToxic_cmd_def
        removeToxic_cmd_def no_name_def not_retrieved_def Let_def split: sum.splits prod.splits option.splits if_splits)
  with assms show ?thesis
    by (auto simp: inspectProxy_def no_name_def not_retrieved_def Let_def print_all_Crash splitToxics_def
        simp del: print_all.simps split: sum.splits if_splits dest!: listToxics_Crash listToxics_Crash [OF sym])
qed

text \<open>Updating a toxic without the option \<open>toxicity\<close> asks for toxicity 1, whatever it was before.\<close>

lemma update_asks_for_toxicity:
  "cx_String c ''toxicity'' = [] \<Longrightarrow> parseUpdateToxicParams cv c = Inr params \<Longrightarrow> to_Toxicity params = Num 1"
  by (auto simp: parseUpdateToxicParams_def parseToxicity_def split: sum.splits)

text \<open>A toxicity that is accepted is between 0 and 1 - or no number at all.\<close>

lemma parsed_toxicity:
  "cx_String c ''toxicity'' \<noteq> [] \<Longrightarrow> parseToxicity cv c d = Inr x \<Longrightarrow> x = NotANumber \<or> (\<exists>r. x = Num r \<and> 0 \<le> r \<and> r \<le> 1)"
  by (cases x) (auto simp: parseToxicity_def above_one_def below_zero_def split: option.splits if_splits)

text \<open>What makes a command line invalid.\<close>

definition invalid_arguments :: "conversions \<Rightarrow> cli_context \<Rightarrow> action \<Rightarrow> bool" where
  "invalid_arguments cv c a \<longleftrightarrow> a \<noteq> DoList \<and> (cx_First c = []
     \<or> a = DoCreate \<and> (cx_String c ''listen'' = [] \<or> cx_String c ''upstream'' = [])
     \<or> a = DoAddToxic \<and> (cx_String c ''type'' = [] \<or> cx_Bool c ''upstream'' \<and> cx_Bool c ''downstream'')
     \<or> a \<in> {DoAddToxic, DoUpdateToxic} \<and> (\<exists>e. parseToxicity cv c (Num 1) = Inl e))"


text \<open>A client whose server counts the calls that change something.\<close>

definition counting_client :: "nat client" where
  "counting_client = \<lparr>cl_Proxies = (\<lambda>s. Inr []), cl_Proxy = (\<lambda>n s. Inl ''proxy not found''), cl_Save = (\<lambda>p s. (None, Suc s)),
     cl_Delete = (\<lambda>p s. (None, Suc s)), cl_CreateProxy = (\<lambda>n l u s. (None, Suc s)),
     cl_AddToxic = (\<lambda>t s. (Inl ''proxy not found'', Suc s)), cl_UpdateToxic = (\<lambda>t s. (Inl ''proxy not found'', Suc s)),
     cl_RemoveToxic = (\<lambda>t s. (None, Suc s))\<rparr>"

definition some_conversions :: conversions where
  "some_conversions = \<lparr>ParseFloat32 = (\<lambda>s. if s = ''2'' then Some (Num 2) else None), ParseFloat64 = (\<lambda>s. None),
     show_two_digits = (\<lambda>x. []), show_float = (\<lambda>x. [])\<rparr>"

definition too_toxic :: cli_context where
  "too_toxic = \<lparr>cx_First = ''p'', cx_String = (\<lambda>k. if k = ''toxicity'' then ''2'' else if k = ''type'' then ''latency'' else []),
     cx_Bool = (\<lambda>k. False), cx_StringSlice = (\<lambda>k. []), cx_Help = []\<rparr>"


end
