(* ===== verification/CliServer.thy ===== *)
theory CliServer
  imports Cli ApiFlow
begin

text \<open>
  The start of the command line client (\<open>cmd/cli/cli.go\<close>, \<open>main\<close>, \<open>withToxi\<close> and \<open>toxicDescription\<close>), and
  what the server makes of what the client sends and of what its help promises.
\<close>

text \<open>
  The server to be asked: the option, else the environment variable, else the default. That
  order is the one the library for command lines documents.
\<close>

definition client_hostname :: "string option \<Rightarrow> (string \<Rightarrow> string option) \<Rightarrow> string" where
  "client_hostname option env = (case option of
       Some h \<Rightarrow> h
     | None \<Rightarrow> (case env ''TOXIPROXY_URL'' of Some h \<Rightarrow> h | None \<Rightarrow> ''http://localhost:8474''))"

text \<open>The user agent of every request, for the version and the platform the client was built for.\<close>

definition client_UserAgent :: "string \<Rightarrow> string \<Rightarrow> string \<Rightarrow> string" where
  "client_UserAgent version goos goarch =
     ''toxiproxy-cli/'' @ version @ '' ('' @ goos @ ''/'' @ goarch @ '')''"

text \<open>\<open>withToxi\<close>: the action gets a client for this host that sends this user agent.\<close>

definition withToxi ::
    "(string \<Rightarrow> string \<Rightarrow> 's client) \<Rightarrow> string \<Rightarrow> string \<Rightarrow> string \<Rightarrow> string \<Rightarrow> ('s client \<Rightarrow> 's \<Rightarrow> 's result) \<Rightarrow> 's \<Rightarrow> 's result" where
  "withToxi NewClient hostname version goos goarch f s =
     f (NewClient hostname (client_UserAgent version goos goarch)) s"

text \<open>The toxics that \<open>toxicDescription\<close> lists, with their attributes.\<close>

definition documented_toxics :: "(string \<times> string list) list" where
  "documented_toxics = [(''latency'', [''latency'', ''jitter'']), (''bandwidth'', [''rate'']), (''slow_close'', [''delay'']),
     (''timeout'', [''timeout'']), (''reset_peer'', [''timeout'']),
     (''slicer'', [''average_size'', ''size_variation'', ''delay''])]"

text \<open>The server refuses browsers by their user agent; it never takes the command line client for one.\<close>

theorem client_is_no_browser:
  assumes "rq_UserAgent rq = client_UserAgent version goos goarch"
  shows "stopBrowsersMiddleware nxt rq s = nxt s"
  using assms by (simp add: stopBrowsersMiddleware_def client_UserAgent_def)

text \<open>The attributes of a toxic, as the server shows them.\<close>

definition attribute_names :: "toxic \<Rightarrow> string list" where
  "attribute_names t = (case encode_toxic t of JObj kvs \<Rightarrow> map fst kvs | _ \<Rightarrow> [])"

definition described_as :: "string \<times> string list \<Rightarrow> bool" where
  "described_as d = (case map_of ToxicRegistry (fst d) of
       None \<Rightarrow> False
     | Some t \<Rightarrow> mset (attribute_names t) = mset (snd d))"

lemma documented_checked:
  "list_all (\<lambda>d. described_as d = (fst d \<noteq> ''slow_close'' \<and> fst d \<noteq> ''timeout'')) documented_toxics"
  by code_simp

lemma undocumented: "map_of ToxicRegistry ''slow_close'' = None" "map_of ToxicRegistry ''timeout'' = None"
  by code_simp+

text \<open>The help of the client lists six toxics. Four of them exist, with just the attributes listed; a request for one of the other
  two, \<open>slow_close\<close> and \<open>timeout\<close>, is always refused with status 400 and changes nothing.\<close>

theorem documented_toxics_exist:
  assumes "(ty, attrs) \<in> set documented_toxics"
  shows "described_as (ty, attrs)
    \<or> ty \<in> {''slow_close'', ''timeout''}
      \<and> (\<forall>tx j chain. tw_Type (fst (fst (decode_struct wrapper_field j (\<lparr>tw_Toxic = NoopToxic, tw_Name = [], tw_Type = [],
              tw_Stream = ''downstream'', tw_Toxicity = 1, tw_Direction = 0, tw_Index = 0, tw_BufferSize = 0\<rparr>, True)))) = ty
          \<longrightarrow> (\<exists>e. AddToxicJson ToxicRegistry tx (Some j) chain = Fine (Inl e, chain) \<and> StatusCode e = 400))"
proof (cases "described_as (ty, attrs)")
  case False
  with documented_checked assms have ty: "ty = ''slow_close'' \<or> ty = ''timeout''"
    by (fastforce simp: list_all_iff)
  then have "New ToxicRegistry (w\<lparr>tw_Direction := d\<rparr>) = (None, w\<lparr>tw_Direction := d\<rparr>)" if "tw_Type w = ty" for w d
    using that undocumented by (auto simp: New_def)
  with ty show ?thesis
    by (auto simp: AddToxicJson_def Let_def split_beta joinError_def api_error_defs)
qed simp

subsection \<open>Witnesses\<close>

theorem client_is_no_browser_witness:
  "stopBrowsersMiddleware ProxyIndex ((some_request GET [''proxies''] None)\<lparr>rq_UserAgent := client_UserAgent ''git'' ''linux'' ''amd64''\<rparr>) s
     = ProxyIndex s"
  by (rule client_is_no_browser) simp

definition slow_close_request :: json where
  "slow_close_request = JObj [(''type'', JStr ''slow_close'')]"

lemma slow_close_type:
  "tw_Type (fst (fst (decode_struct wrapper_field slow_close_request (\<lparr>tw_Toxic = NoopToxic, tw_Name = [], tw_Type = [],
     tw_Stream = ''downstream'', tw_Toxicity = 1, tw_Direction = 0, tw_Index = 0, tw_BufferSize = 0\<rparr>, True)))) = ''slow_close''"
  by code_simp

lemma slow_close_not_described: "\<not> described_as (''slow_close'', [''delay''])"
  by code_simp

theorem documented_toxics_exist_witness:
  "\<exists>e. AddToxicJson ToxicRegistry [] (Some slow_close_request) new_chains = Fine (Inl e, new_chains) \<and> StatusCode e = 400"
proof -
  have "(''slow_close'', [''delay'']) \<in> set documented_toxics" by (simp add: documented_toxics_def)
  from documented_toxics_exist [OF this] slow_close_type slow_close_not_described show ?thesis by blast
qed

end
