(* ===== verification/TestUpstream.thy ===== *)
theory TestUpstream
  imports Proxy
begin

text \<open>
  The UDP server that the tests use as an upstream (\<open>testhelper/upstream.go\<close>): its loop sorts datagrams
  into a queue per client and announces new clients on an unbuffered channel; \<open>ReadAtLeast\<close> takes datagrams
  out of such a queue.
\<close>

text \<open>
  Where the goroutine of \<open>accept\<close> stands: in \<open>ReadFrom\<close>, in the send that announces a client (with the datagram still
  to be queued), in a send to the queue of a client, or ended.
\<close>

datatype accept_pc = AReading | AAnnouncing string "byte list" | AQueueing string | AEnded

record TestServer =
  ts_clientBufs :: "(string \<times> byte list channel) list"
  ts_accept :: accept_pc
  ts_open :: bool

definition NewUpstream :: TestServer where
  "NewUpstream = \<lparr>ts_clientBufs = [], ts_accept = AReading, ts_open = True\<rparr>"

text \<open>
  \<open>listen\<close> ends the test (\<open>None\<close>) when there is no free port. \<open>Addr\<close> is the address the listener got; \<open>Write\<close> hands a
  datagram to the listener, whose answer is a parameter.
\<close>

definition upstream_listen :: "net \<Rightarrow> (string \<times> TestServer) option" where
  "upstream_listen nt = (case listen_packet nt ''localhost:0'' of Inl e \<Rightarrow> None | Inr addr \<Rightarrow> Some (addr, NewUpstream))"

definition upstream_Addr :: "string \<times> TestServer \<Rightarrow> string" where
  "upstream_Addr u = fst u"

definition upstream_Write :: "(byte list \<Rightarrow> string \<Rightarrow> string + nat) \<Rightarrow> byte list \<Rightarrow> string \<Rightarrow> string + nat" where
  "upstream_Write write_to payload conn = write_to payload conn"

text \<open>\<open>c <- buf[:n]\<close>; nobody closes these channels.\<close>

definition enqueue :: "string \<Rightarrow> byte list \<Rightarrow> TestServer \<Rightarrow> TestServer outcome" where
  "enqueue addr d u = (case map_of (ts_clientBufs u) addr of
       None \<Rightarrow> Crash
     | Some c \<Rightarrow> (case chan_send d c of
         None \<Rightarrow> Crash
       | Some c' \<Rightarrow> Fine (u\<lparr>ts_clientBufs := AList.update addr c' (ts_clientBufs u),
                         ts_accept := (if settled c' then AReading else AQueueing addr)\<rparr>)))"

definition accept_datagram :: "bool \<Rightarrow> string \<Rightarrow> byte list \<Rightarrow> TestServer \<Rightarrow> TestServer outcome" where
  "accept_datagram ignoreData addr d u =
     (let buf = take 32768 d
      in if ignoreData then Fine u
         else (case map_of (ts_clientBufs u) addr of
             Some c \<Rightarrow> enqueue addr buf u
           | None \<Rightarrow> Fine (u\<lparr>ts_clientBufs := AList.update addr (make_chan 1000) (ts_clientBufs u),
                             ts_accept := AAnnouncing addr buf\<rparr>)))"

text \<open>The steps: a datagram, a test that receives from \<open>Connections\<close>, room in a queue, \<open>Close\<close> and its effect.\<close>

datatype upstream_event = UDatagram string "byte list" | UAnnounced | UQueued | UClose | UReadFails

fun upstream_step :: "bool \<Rightarrow> upstream_event \<Rightarrow> TestServer \<Rightarrow> TestServer outcome option" where
  "upstream_step ignoreData (UDatagram addr d) u =
     (if ts_accept u = AReading \<and> ts_open u then Some (accept_datagram ignoreData addr d u) else None)"
| "upstream_step ignoreData UAnnounced u =
     (case ts_accept u of AAnnouncing addr buf \<Rightarrow> Some (enqueue addr buf u) | _ \<Rightarrow> None)"
| "upstream_step ignoreData UQueued u = (case ts_accept u of
       AQueueing addr \<Rightarrow> (case map_of (ts_clientBufs u) addr of
           None \<Rightarrow> None
         | Some c \<Rightarrow> if settled c then Some (Fine (u\<lparr>ts_accept := AReading\<rparr>)) else None)
     | _ \<Rightarrow> None)"
| "upstream_step ignoreData UClose u = Some (Fine (u\<lparr>ts_open := False\<rparr>))"
| "upstream_step ignoreData UReadFails u =
     (if ts_accept u = AReading \<and> \<not> ts_open u then Some (Fine (u\<lparr>ts_accept := AEnded\<rparr>)) else None)"

subsection \<open>Reading in a test\<close>

text \<open>
  The loop of \<open>ReadAtLeast\<close> over the datagrams in the queue: the front of the buffer that is filled, and the rest of the
  queue, or \<open>None\<close> when it waits for more. \<open>copy\<close> drops what does not fit.
\<close>

fun read_loop :: "nat \<Rightarrow> nat \<Rightarrow> byte list \<Rightarrow> byte list list \<Rightarrow> (byte list \<times> byte list list) option" where
  "read_loop m n got [] = None"
| "read_loop m n got (v # vs) =
     (let got' = got @ take (m - length got) v
      in if n \<le> length got' then Some (got', vs) else read_loop m n got' vs)"

text \<open>The number returned, what is in the buffer, and the server; \<open>None\<close> when it waits.\<close>

definition ReadAtLeast :: "string \<Rightarrow> nat \<Rightarrow> nat \<Rightarrow> TestServer \<Rightarrow> (nat \<times> byte list \<times> TestServer) option" where
  "ReadAtLeast addr m n u = (case map_of (ts_clientBufs u) addr of
       None \<Rightarrow> Some (m, [], u)
     | Some c \<Rightarrow> map_option (\<lambda>(got, rest). (m, got, u\<lparr>ts_clientBufs := AList.update addr (c\<lparr>queue := rest\<rparr>) (ts_clientBufs u)\<rparr>))
         (read_loop m n [] (queue c)))"

lemma read_loop_got:
  assumes "length got \<le> m" and "read_loop m n got vs = Some (bs, rest)"
  shows "\<exists>used. vs = used @ rest \<and> used \<noteq> [] \<and> bs = got @ take (m - length got) (concat used) \<and> n \<le> length bs"
  using assms
proof (induction vs arbitrary: got)
  case (Cons v vs)
  let ?g = "got @ take (m - length got) v"
  have g: "length ?g \<le> m" using Cons.prems(1) by simp
  show ?case
  proof (cases "n \<le> length ?g")
    case True
    with Cons.prems(2) show ?thesis by (intro exI [of _ "[v]"]) (auto simp: Let_def)
  next
    case False
    then have "read_loop m n ?g vs = Some (bs, rest)" using Cons.prems(2) by (simp add: Let_def)
    from Cons.IH [OF g this] obtain used where u: "vs = used @ rest" "used \<noteq> []"
      "bs = ?g @ take (m - length ?g) (concat used)" "n \<le> length bs" by blast
    have "take (m - length ?g) (concat used) = take (m - length got - length v) (concat used)"
      by (cases "m - length got \<le> length v") simp_all
    then have "bs = got @ take (m - length got) (concat (v # used))" using u(3) by simp
    with u show ?thesis by (intro exI [of _ "v # used"]) simp
  qed
qed simp

text \<open>When \<open>ReadAtLeast\<close> returns for a known client, the buffer begins with at least as many bytes as asked for, the first bytes of
  the datagrams taken from the queue; but the number it returns is the size of the buffer, whatever was
  read, and for a client that has sent nothing it returns this number at once, without having read anything.\<close>

theorem ReadAtLeast_result:
  assumes "ReadAtLeast addr m n u = Some (k, got, u')"
  shows "k = m
    \<and> (map_of (ts_clientBufs u) addr = None \<longrightarrow> got = [] \<and> u' = u)
    \<and> (\<forall>c. map_of (ts_clientBufs u) addr = Some c \<longrightarrow>
         (\<exists>used c'. map_of (ts_clientBufs u') addr = Some c' \<and> queue c = used @ queue c' \<and> used \<noteq> []
            \<and> got = take m (concat used) \<and> n \<le> length got))"
proof (cases "map_of (ts_clientBufs u) addr")
  case (Some c)
  with assms obtain rest where r: "read_loop m n [] (queue c) = Some (got, rest)" and k: "k = m"
    and u': "u' = u\<lparr>ts_clientBufs := AList.update addr (c\<lparr>queue := rest\<rparr>) (ts_clientBufs u)\<rparr>"
    by (auto simp: ReadAtLeast_def)
  with read_loop_got [OF _ r] Some show ?thesis by (auto simp: update_conv')
qed (use assms in \<open>simp add: ReadAtLeast_def\<close>)

lemma short_read: "ReadAtLeast ''c'' 8 1 \<lparr>ts_clientBufs = [(''c'', (make_chan 1000)\<lparr>queue := [[1, 2]]\<rparr>)], ts_accept = AReading, ts_open = True\<rparr>
    = Some (8, [1, 2], \<lparr>ts_clientBufs = [(''c'', (make_chan 1000)\<lparr>queue := []\<rparr>)], ts_accept = AReading, ts_open = True\<rparr>)"
  by (simp add: ReadAtLeast_def)

theorem ReadAtLeast_result_witness:
  "\<exists>u u' got. ReadAtLeast ''c'' 8 1 u = Some (8, got, u') \<and> map_of (ts_clientBufs u) ''c'' \<noteq> None \<and> got = [1, 2] \<and> 1 \<le> length got"
  using short_read ReadAtLeast_result [OF short_read] by fastforce

end
