(* ===== verification/Examples.thy ===== *)
theory Examples
  imports CollectionRefine
begin

text \<open>
  How the example programs for DNS and QUIC set up their proxy (\<open>setupProxy\<close> in \<open>examples/dns/main.go\<close> and
  \<open>examples/quic/main.go\<close>): they use the proxy and its collection of toxics without a server. The end of the
  theory has the echo server of the QUIC example (\<open>examples/quic/server.go\<close>) and its \<open>main\<close>.
\<close>

definition dns_wrapper :: ToxicWrapper where
  "dns_wrapper = \<lparr>tw_Toxic = LatencyT \<lparr>Latency = 750, Jitter = 0\<rparr>, tw_Name = ''latency_up'', tw_Type = ''latency'',
     tw_Stream = [], tw_Toxicity = 0, tw_Direction = Upstream, tw_Index = 0, tw_BufferSize = 0\<rparr>"

definition quic_wrapper :: "int \<Rightarrow> ToxicWrapper" where
  "quic_wrapper rateLimit = \<lparr>tw_Toxic = BandwidthT \<lparr>Rate = rateLimit\<rparr>, tw_Name = [], tw_Type = ''bandwidth'',
     tw_Stream = [], tw_Toxicity = 0, tw_Direction = Upstream, tw_Index = 0, tw_BufferSize = 0\<rparr>"

text \<open>A proxy without clients has no links, so adding a toxic changes its chains only. The error of \<open>Start\<close> is not looked at.\<close>

definition add_first :: "ToxicWrapper \<Rightarrow> Proxy \<Rightarrow> ((string + string) \<times> Proxy) outcome" where
  "add_first tw p = (case AddToxic tw (coll_chains (px_Toxics p)) of
       Crash \<Rightarrow> Crash
     | Fine (Inl e, chain) \<Rightarrow> Fine (Inl (''AddToxic returned error: '' @ Message e), p)
     | Fine (Inr w, chain) \<Rightarrow> Fine (Inr (px_Listen p), with_chains chain p))"

definition dns_setupProxy :: "net \<Rightarrow> string \<Rightarrow> ((string + string) \<times> Proxy) outcome" where
  "dns_setupProxy nt upstream =
     add_first dns_wrapper (snd (proxy_start nt (NewProxy ''dns-test'' ''localhost:0'' upstream)))"

definition quic_setupProxy :: "net \<Rightarrow> string \<Rightarrow> int \<Rightarrow> ((string + string) \<times> Proxy) outcome" where
  "quic_setupProxy nt upstream rateLimit =
     add_first (quic_wrapper rateLimit) (snd (proxy_start nt (NewProxy ''quic-test'' ''localhost:0'' upstream)))"

definition bound :: "net \<Rightarrow> string" where
  "bound nt = (case listen_packet nt ''localhost:0'' of Inl e \<Rightarrow> ''localhost:0'' | Inr a \<Rightarrow> a)"

lemma add_first_new:
  assumes "unat (tw_Direction tw) < 2"
  shows "\<exists>p. add_first tw (snd (proxy_start nt (NewProxy n ''localhost:0'' u))) = Fine (Inr (bound nt), p)
    \<and> px_Enabled p = (\<exists>a. listen_packet nt ''localhost:0'' = Inr a)
    \<and> GetToxicArray (coll_chains (px_Toxics p)) =
        [tw\<lparr>tw_Name := given_name (tw\<lparr>tw_Toxicity := 1\<rparr>), tw_Toxicity := 1, tw_Index := 1\<rparr>]"
proof -
  let ?p = "snd (proxy_start nt (NewProxy n ''localhost:0'' u))"
  have c: "coll_chains (px_Toxics (NewProxy n ''localhost:0'' u)) = [[noop_wrapper], [noop_wrapper]]"
    by (simp add: NewProxy_def NewToxicCollection_def new_chains_eq)
  have k: "unat (tw_Direction tw) = 0 \<or> unat (tw_Direction tw) = 1" using assms less_two by blast
  have f: "findToxicByName m [[noop_wrapper], [noop_wrapper]] = None" for m by (simp add: findToxicByName_def)
  have l: "px_Listen ?p = bound nt" "px_Enabled ?p = (\<exists>a. listen_packet nt ''localhost:0'' = Inr a)"
    by (simp_all add: proxy_start_def proxy_listen_def NewProxy_def bound_def split: sum.split)
  show ?thesis
    using k by (auto simp: add_first_def c AddToxic_def f Let_def chain_add_def l with_chains_def GetToxicArray_def given_name_def)
qed

lemma quic_proxy: "\<exists>p. quic_setupProxy nt up rate = Fine (Inr (bound nt), p)"
proof -
  have "unat (tw_Direction (quic_wrapper rate)) < 2" by (simp add: quic_wrapper_def Upstream_def)
  from add_first_new [OF this, of nt "''quic-test''" up] show ?thesis by (auto simp: quic_setupProxy_def)
qed

text \<open>Both examples get a proxy with exactly the one toxic they want, at toxicity 1. They always go on with the address of the
  proxy: when it could not be bound this is the address \<open>localhost:0\<close> of a proxy that does not run. The latency toxic has no buffer, as
  only toxics made from a request get theirs.\<close>

theorem example_proxies:
  "(\<exists>p w. dns_setupProxy nt up = Fine (Inr (bound nt), p) \<and> px_Enabled p = (\<exists>a. listen_packet nt ''localhost:0'' = Inr a)
      \<and> GetToxicArray (coll_chains (px_Toxics p)) = [w] \<and> tw_Name w = ''latency_up'' \<and> tw_Toxicity w = 1
      \<and> tw_BufferSize w = 0 \<and> GetBufferSize (tw_Toxic w) = Some 1024)
   \<and> (\<exists>p w. quic_setupProxy nt up rate = Fine (Inr (bound nt), p) \<and> px_Enabled p = (\<exists>a. listen_packet nt ''localhost:0'' = Inr a)
      \<and> GetToxicArray (coll_chains (px_Toxics p)) = [w] \<and> tw_Name w = ''bandwidth_'' \<and> tw_Toxicity w = 1)"
proof -
  have d: "unat (tw_Direction dns_wrapper) < 2" "unat (tw_Direction (quic_wrapper rate)) < 2"
    by (simp_all add: dns_wrapper_def quic_wrapper_def Upstream_def)
  from add_first_new [OF d(1), of nt "''dns-test''" up] add_first_new [OF d(2), of nt "''quic-test''" up]
  show ?thesis
    by (auto simp: dns_setupProxy_def quic_setupProxy_def dns_wrapper_def quic_wrapper_def given_name_def
        latency_GetBufferSize_def)
qed


subsection \<open>The server and \<open>main\<close> of the QUIC example\<close>

text \<open>
  \<open>generateTLSConfig\<close> panics when one of its four calls of the library fails; the arguments are their results.
\<close>

definition generateTLSConfig :: "'key option \<Rightarrow> 'der option \<Rightarrow> 'cert option \<Rightarrow> 'cert outcome" where
  "generateTLSConfig key certDER tlsCert = (case key of
       None \<Rightarrow> Crash
     | Some k \<Rightarrow> (case certDER of
         None \<Rightarrow> Crash
       | Some d \<Rightarrow> (case tlsCert of None \<Rightarrow> Crash | Some c \<Rightarrow> Fine c)))"

text \<open>
  \<open>Start\<close>: what it sends on \<open>started\<close>, and the error it returns. The arguments are the configuration and the errors of listening, of
  accepting a connection and a stream, and of copying the stream to itself.
\<close>

definition EchoServer_Start ::
    "'cert outcome \<Rightarrow> string option \<Rightarrow> string option \<Rightarrow> string option \<Rightarrow> string option \<Rightarrow> (bool \<times> string option) outcome" where
  "EchoServer_Start tls listen accept stream copy = (case tls of
       Crash \<Rightarrow> Crash
     | Fine c \<Rightarrow> (case listen of
         Some e \<Rightarrow> Fine (False, Some e)
       | None \<Rightarrow> Fine (True, (case accept of
             Some e \<Rightarrow> Some e
           | None \<Rightarrow> (case stream of Some e \<Rightarrow> Some e | None \<Rightarrow> copy)))))"

text \<open>
  \<open>main\<close>: the lines it prints itself. It receives from \<open>started\<close> and does not look at the value. \<open>dial\<close> is the error of
  connecting to an address, \<open>count\<close> the number \<open>PingPong\<close> returns.
\<close>

definition quic_main ::
    "(bool \<times> string option) outcome \<Rightarrow> net \<Rightarrow> (string \<Rightarrow> string option) \<Rightarrow> (nat \<Rightarrow> string) \<Rightarrow> nat \<Rightarrow> string list outcome" where
  "quic_main server nt dial report count = (case server of
       Crash \<Rightarrow> Crash
     | Fine (started, err) \<Rightarrow> (case quic_setupProxy nt ''localhost:4242'' 35 of
         Crash \<Rightarrow> Crash
       | Fine (Inl e, p) \<Rightarrow> Fine [''Failed to setup UDP crusher: '' @ e]
       | Fine (Inr addr, p) \<Rightarrow> (case dial addr of
           Some e \<Rightarrow> Fine [e]
         | None \<Rightarrow> Fine [report count])))"

text \<open>The example goes on in the same way whether its server listens or not, and connects to the address of its proxy.\<close>

theorem failed_server_ignored:
  "quic_main (EchoServer_Start (Fine c) (Some e) a s cp) nt dial report n
     = quic_main (EchoServer_Start (Fine c) None a s cp) nt dial report n
   \<and> quic_main (EchoServer_Start (Fine c) (Some e) a s cp) nt dial report n
     = Fine (case dial (bound nt) of Some err \<Rightarrow> [err] | None \<Rightarrow> [report n])"
proof -
  obtain p where "quic_setupProxy nt ''localhost:4242'' 35 = Fine (Inr (bound nt), p)"
    using quic_proxy by blast
  then show ?thesis by (auto simp: quic_main_def EchoServer_Start_def split: option.splits)
qed

end
