(* ===== verification/DnsExample.thy ===== *)
theory DnsExample
  imports Examples
begin

text \<open>
  The rest of the DNS example (\<open>examples/dns/dns.go\<close> and \<open>main\<close> of \<open>examples/dns/main.go\<close>): the record is put into a DNS server by
  three HTTP requests, and asked for through the proxy. The answers of the HTTP server (which may depend on
  the requests before) and of the DNS library are parameters, as is the parsing of a text as JSON.
\<close>

text \<open>An answer has a status and a body; \<open>io.ReadAll\<close> gives the bytes that could be read.\<close>

type_synonym 's http_get = "string \<Rightarrow> 's \<Rightarrow> (string + nat \<times> string) \<times> 's"

definition token_field :: "string \<Rightarrow> json \<Rightarrow> string \<Rightarrow> string \<times> bool" where
  "token_field k j t = (if key_is k ''token'' then set_string j t else (t, False))"

definition status_field :: "string \<Rightarrow> json \<Rightarrow> string \<Rightarrow> string \<times> bool" where
  "status_field k j t = (if key_is k ''status'' then set_string j t else (t, False))"

text \<open>\<open>json.Unmarshal\<close> into a struct with one field that is a string: its value, and the error.\<close>

definition unmarshal_field :: "(string \<Rightarrow> json option) \<Rightarrow> (string \<Rightarrow> json \<Rightarrow> string \<Rightarrow> string \<times> bool) \<Rightarrow> string \<Rightarrow> string \<times> string option" where
  "unmarshal_field parse f body = (case parse body of
       None \<Rightarrow> ([], Some ''invalid JSON'')
     | Some j \<Rightarrow> (case decode_struct f j [] of (t, bad) \<Rightarrow> (t, if bad then Some ''cannot unmarshal'' else None)))"

definition loginReq :: "string \<Rightarrow> string" where
  "loginReq addr = ''http://'' @ addr @ ''/api/user/login?user=admin&pass=admin&includeInfo=true''"

definition createZoneReq :: "string \<Rightarrow> string \<Rightarrow> string \<Rightarrow> string" where
  "createZoneReq addr token name =
     ''http://'' @ addr @ ''/api/zones/create?token='' @ token @ ''&zone='' @ name @ ''&type=Primary''"

definition addRecordReq :: "string \<Rightarrow> string \<Rightarrow> string \<Rightarrow> string \<Rightarrow> string" where
  "addRecordReq addr token name ip = ''http://'' @ addr @ ''/api/zones/records/add?token='' @ token @ ''&domain='' @ name
     @ ''&zone='' @ name @ ''&ipAddress='' @ ip @ ''&type=A''"

text \<open>The end of \<open>setupDNS\<close>: of a request that failed there is no response, and reading its body is a nil dereference.\<close>

definition added :: "(string \<Rightarrow> json option) \<Rightarrow> string \<Rightarrow> string \<Rightarrow> string + nat \<times> string \<Rightarrow> string option outcome" where
  "added parse name ip resp = (case resp of
       Inl e \<Rightarrow> Crash
     | Inr (code, body) \<Rightarrow>
         (let status = fst (unmarshal_field parse status_field body)
          in Fine (if status \<noteq> ''ok''
                   then Some (''Failed to add '' @ name @ '' with '' @ ip @ '' IP record to DNS, status '' @ status)
                   else None)))"

definition setupDNS ::
    "'s http_get \<Rightarrow> (string \<Rightarrow> json option) \<Rightarrow> string \<Rightarrow> string \<Rightarrow> string \<Rightarrow> 's \<Rightarrow> string option outcome \<times> 's" where
  "setupDNS get parse addr name ip s = (case get (loginReq addr) s of
       (Inl e, s1) \<Rightarrow> (Fine (Some e), s1)
     | (Inr (code, body), s1) \<Rightarrow>
         if code \<noteq> 200 then (Fine (Some (''failed to login DNS: '' @ decimal code)), s1)
         else (case unmarshal_field parse token_field body of
             (token, Some e) \<Rightarrow> (Fine (Some e), s1)
           | (token, None) \<Rightarrow>
               (let s2 = snd (get (createZoneReq addr token name) s1);
                    (resp, s3) = get (addRecordReq addr token name ip) s2
                in (added parse name ip resp, s3))))"

text \<open>\<open>queryDNS\<close>: an answer is an A record with its address, or another one.\<close>

datatype dns_answer = ARecord string | OtherRecord

fun first_A :: "dns_answer list \<Rightarrow> string" where
  "first_A [] = []"
| "first_A (ARecord a # rest) = a"
| "first_A (OtherRecord # rest) = first_A rest"

definition queryDNS ::
    "(string \<Rightarrow> string \<Rightarrow> string + nat \<times> dns_answer list) \<Rightarrow> (nat \<Rightarrow> string) \<Rightarrow> string \<Rightarrow> string \<Rightarrow> string + string" where
  "queryDNS exchange rcode_name addr name = (case exchange addr (name @ ''.'') of
       Inl e \<Rightarrow> Inl e
     | Inr (rcode, answers) \<Rightarrow>
         if rcode \<noteq> 0 then Inl (''DNS query failed: '' @ rcode_name rcode) else Inr (first_A answers))"

text \<open>\<open>main\<close>: the lines it prints; the one with the time taken has the time as a parameter.\<close>

definition dns_main ::
    "'s http_get \<Rightarrow> (string \<Rightarrow> json option) \<Rightarrow> net \<Rightarrow> (string \<Rightarrow> string \<Rightarrow> string + nat \<times> dns_answer list) \<Rightarrow> (nat \<Rightarrow> string)
       \<Rightarrow> string \<Rightarrow> 's \<Rightarrow> string list outcome" where
  "dns_main get parse nt exchange rcode_name since s = (case fst (setupDNS get parse ''127.0.0.1:5380'' ''example.com'' ''6.6.6.6'' s) of
       Crash \<Rightarrow> Crash
     | Fine (Some e) \<Rightarrow> Fine [''Failed to setup DNS records: '' @ e]
     | Fine None \<Rightarrow> (let line = ''Add: example.com -> 6.6.6.6''
         in (case dns_setupProxy nt ''127.0.0.1:5453'' of
           Crash \<Rightarrow> Crash
         | Fine (Inl e, p) \<Rightarrow> Fine [line, ''Failed to setup UDP crusher: '' @ e]
         | Fine (Inr addr, p) \<Rightarrow> (case queryDNS exchange rcode_name addr ''example.com'' of
             Inl e \<Rightarrow> Fine [line, ''Failed to setup DNS records: '' @ e]
           | Inr ip \<Rightarrow> Fine [line, ''Lookup: example.com -> '' @ ip, ''RTT: '' @ since]))))"

text \<open>\<open>setupDNS\<close> reports success only when the login was answered with 200 and a token, and the record was then added with
  that token and answered with the status \<open>ok\<close>; the answer to the creation of the zone is not looked at. It
  panics when the last request fails, and only then.\<close>

theorem setupDNS_result:
  assumes "get (loginReq addr) s = (Inr (code, body), s1)" and "unmarshal_field parse token_field body = (token, e)"
    and "get (addRecordReq addr token name ip) (snd (get (createZoneReq addr token name) s1)) = (resp, s3)"
  shows "(fst (setupDNS get parse addr name ip s) = Fine None \<longleftrightarrow> code = 200 \<and> e = None
      \<and> (\<exists>c b. resp = Inr (c, b) \<and> fst (unmarshal_field parse status_field b) = ''ok''))
    \<and> (fst (setupDNS get parse addr name ip s) = Crash \<longleftrightarrow> code = 200 \<and> e = None \<and> isl resp)"
  using assms by (cases resp) (auto simp: setupDNS_def added_def Let_def split: option.splits if_splits)

definition dns_answers :: "bool \<Rightarrow> nat http_get" where
  "dns_answers down url n = (if n = 0 then (Inr (200, ''login''), 1)
     else if n = 2 \<and> down then (Inl ''connection refused'', 3) else (Inr (200, ''done''), n + 1))"

definition dns_texts :: "string \<Rightarrow> json option" where
  "dns_texts body = (if body = ''login'' then Some (JObj [(''token'', JStr ''t'')]) else Some (JObj [(''status'', JStr ''ok'')]))"

theorem setupDNS_result_witness:
  "fst (setupDNS (dns_answers True) dns_texts ''h'' ''n'' ''i'' 0) = Crash
   \<and> fst (setupDNS (dns_answers False) dns_texts ''h'' ''n'' ''i'' 0) = Fine None"
proof -
  have t: "unmarshal_field dns_texts token_field ''login'' = (''t'', None)"
    "fst (unmarshal_field dns_texts status_field ''done'') = ''ok''" by code_simp+
  have g: "dns_answers d (loginReq ''h'') 0 = (Inr (200, ''login''), 1)" for d by (simp add: dns_answers_def)
  have a: "dns_answers True (addRecordReq ''h'' ''t'' ''n'' ''i'') (snd (dns_answers True (createZoneReq ''h'' ''t'' ''n'') 1))
      = (Inl ''connection refused'', 3)"
    "dns_answers False (addRecordReq ''h'' ''t'' ''n'' ''i'') (snd (dns_answers False (createZoneReq ''h'' ''t'' ''n'') 1))
      = (Inr (200, ''done''), 3)" by (simp_all add: dns_answers_def)
  show ?thesis
    using setupDNS_result [OF g t(1) a(1)] setupDNS_result [OF g t(1) a(2)] t(2) by simp
qed

text \<open>The query takes the first address among the answers; without one it succeeds with an empty text.\<close>

theorem queryDNS_first:
  "first_A answers = (case filter (\<lambda>a. a \<noteq> OtherRecord) answers of ARecord a # _ \<Rightarrow> a | _ \<Rightarrow> [])"
  by (induction answers rule: first_A.induct) auto

lemma no_A: "first_A (replicate n OtherRecord) = []"
  by (induction n) auto

theorem empty_lookup:
  "exchange addr (name @ ''.'') = Inr (0, replicate n OtherRecord) \<Longrightarrow> queryDNS exchange rcode_name addr name = Inr []"
  by (simp add: queryDNS_def no_A)

end
