(* ===== verification/AeronExample.thy ===== *)
theory AeronExample
  imports Toxic
begin

text \<open>
  The Aeron example (\<open>examples/aeron/ping.go\<close>, \<open>pong.go\<close>): one goroutine sends messages with the time in them and measures how
  long the echo takes, the other one echoes. What the Aeron library answers to \<open>Offer\<close> and \<open>Poll\<close>, the
  clock, and which values the histogram accepts are parameters of the steps.
\<close>

subsection \<open>Ping\<close>

text \<open>
  Where \<open>Ping\<close> stands: waiting for the connection, in the loop of \<open>Offer\<close> or of \<open>Poll\<close> of a round of the warm-up or of the measurement
  (with the number of rounds finished), or at the output of the histogram.
\<close>

datatype ping_at = Connecting | WarmOffer nat | WarmPoll nat | MainOffer nat | MainPoll nat | Printing

record Ping =
  pg_at :: ping_at
  pg_hist :: "int list"
  pg_cancelled :: bool

definition Ping_begin :: Ping where
  "Ping_begin = \<lparr>pg_at = Connecting, pg_hist = [], pg_cancelled = False\<rparr>"

definition warmupIt :: nat where
  "warmupIt = 1000"

text \<open>The handler of a message with the time \<open>sent\<close> in it; \<open>accepted\<close> says which values the histogram records.\<close>

definition ping_handler :: "(int \<Rightarrow> bool) \<Rightarrow> int \<Rightarrow> int \<times> int \<Rightarrow> Ping \<Rightarrow> Ping" where
  "ping_handler accepted messages = (\<lambda>(sent, now) p.
     (let hist = (if accepted (i64 (now - sent)) then pg_hist p @ [i64 (now - sent)] else pg_hist p)
      in p\<lparr>pg_hist := hist, pg_cancelled := (pg_cancelled p \<or> int (length hist) = messages)\<rparr>))"

text \<open>The heads of the two loops over the rounds.\<close>

definition main_loop :: "int \<Rightarrow> nat \<Rightarrow> Ping \<Rightarrow> Ping" where
  "main_loop messages cnt p = p\<lparr>pg_at := (if int cnt < messages then MainOffer cnt else Printing)\<rparr>"

definition warm_loop :: "int \<Rightarrow> nat \<Rightarrow> Ping \<Rightarrow> Ping" where
  "warm_loop messages i p = (if i < warmupIt then p\<lparr>pg_at := WarmOffer i\<rparr> else main_loop messages 0 (p\<lparr>pg_hist := []\<rparr>))"

text \<open>
  The events: the answer of \<open>IsConnected\<close>, of \<open>Offer\<close>, and of \<open>Poll\<close> with the messages it has handed to the handler.
  \<open>backPressured\<close> is the library's constant.
\<close>

datatype aeron_event = Connected bool | Offered int | Polled int "(int \<times> int) list"

fun aeron_ping_step :: "int \<Rightarrow> (int \<Rightarrow> bool) \<Rightarrow> int \<Rightarrow> aeron_event \<Rightarrow> Ping \<Rightarrow> Ping outcome option" where
  "aeron_ping_step backPressured accepted messages (Connected b) p =
     (if pg_at p = Connecting then Some (Fine (if b then warm_loop messages 0 p else p)) else None)"
| "aeron_ping_step backPressured accepted messages (Offered ret) p = (case pg_at p of
       WarmOffer i \<Rightarrow>
         Some (if ret > 0 then Fine (p\<lparr>pg_at := WarmPoll i\<rparr>)
               else if ret = backPressured then Fine p
               else if ret < 0 then Crash else Fine p)
     | MainOffer cnt \<Rightarrow> Some (Fine (if ret < 0 then p else p\<lparr>pg_at := MainPoll cnt\<rparr>))
     | _ \<Rightarrow> None)"
| "aeron_ping_step backPressured accepted messages (Polled ret msgs) p =
     (let p' = fold (ping_handler accepted messages) msgs p
      in case pg_at p of
       WarmPoll i \<Rightarrow>
         Some (if ret > 0 then Fine (warm_loop messages (Suc i) p') else if ret < 0 then Crash else Fine p')
     | MainPoll cnt \<Rightarrow> Some (Fine (if ret \<le> 0 then p' else main_loop messages (Suc cnt) p'))
     | _ \<Rightarrow> None)"

fun aeron_ping_run :: "int \<Rightarrow> (int \<Rightarrow> bool) \<Rightarrow> int \<Rightarrow> aeron_event list \<Rightarrow> Ping \<Rightarrow> Ping outcome option" where
  "aeron_ping_run bp accepted messages [] p = Some (Fine p)"
| "aeron_ping_run bp accepted messages (e # es) p = (case aeron_ping_step bp accepted messages e p of
       Some (Fine p') \<Rightarrow> aeron_ping_run bp accepted messages es p'
     | r \<Rightarrow> r)"

lemma aeron_ping_run_append:
  "aeron_ping_run bp accepted messages (es @ fs) p = (case aeron_ping_run bp accepted messages es p of
       Some (Fine p') \<Rightarrow> aeron_ping_run bp accepted messages fs p' | r \<Rightarrow> r)"
  by (induction es arbitrary: p) (auto split: option.splits outcome.splits)

text \<open>A round in which the message is sent and its echo is polled at once, as the only one.\<close>

definition a_round :: "int \<Rightarrow> aeron_event list" where
  "a_round t = [Offered 1, Polled 1 [(0, t)]]"

lemma warm_round:
  "accepted (i64 t) \<Longrightarrow> aeron_ping_run bp accepted messages (a_round t) \<lparr>pg_at = WarmOffer i, pg_hist = h, pg_cancelled = c\<rparr>
     = Some (Fine (warm_loop messages (Suc i) \<lparr>pg_at = WarmPoll i, pg_hist = h @ [i64 t],
         pg_cancelled = (c \<or> int (Suc (length h)) = messages)\<rparr>))"
  by (simp add: a_round_def ping_handler_def)

lemma warm_rounds:
  assumes "accepted (i64 t)" and "n < warmupIt"
  shows "aeron_ping_run bp accepted messages (Connected True # concat (replicate n (a_round t))) Ping_begin
    = Some (Fine \<lparr>pg_at = WarmOffer n, pg_hist = replicate n (i64 t), pg_cancelled = (1 \<le> messages \<and> messages \<le> int n)\<rparr>)"
  using assms(2)
proof (induction n)
  case 0
  then show ?case by (simp add: Ping_begin_def warm_loop_def)
next
  case (Suc n)
  have "concat (replicate (Suc n) (a_round t)) = concat (replicate n (a_round t)) @ a_round t"
    by (induction n) simp_all
  then have "aeron_ping_run bp accepted messages (Connected True # concat (replicate (Suc n) (a_round t))) Ping_begin
    = (case aeron_ping_run bp accepted messages (Connected True # concat (replicate n (a_round t))) Ping_begin of
       Some (Fine p') \<Rightarrow> aeron_ping_run bp accepted messages (a_round t) p' | r \<Rightarrow> r)"
    using aeron_ping_run_append [of bp accepted messages "Connected True # concat (replicate n (a_round t))" "a_round t"] by simp
  with Suc warm_round [of accepted t, OF assms(1)] show ?case
    by (auto simp: warm_loop_def replicate_append_same)
qed

text \<open>The handler counts the messages of the warm-up, too: with fewer than 1000 messages to be sent, the run is cancelled while the
  warm-up still goes on, and nothing has been measured.\<close>

theorem cancelled_in_warmup:
  assumes "1 \<le> n" and "n < warmupIt" and "accepted (i64 t)"
  shows "\<exists>p. aeron_ping_run bp accepted (int n) (Connected True # concat (replicate n (a_round t))) Ping_begin = Some (Fine p)
    \<and> pg_cancelled p \<and> pg_at p = WarmOffer n"
  using warm_rounds [of accepted t n bp "int n", OF assms(3,2)] assms(1) by simp

theorem cancelled_in_warmup_witness:
  "\<exists>p. aeron_ping_run (- 2) (\<lambda>x. True) 3 (Connected True # concat (replicate 3 (a_round 8))) Ping_begin = Some (Fine p)
    \<and> pg_cancelled p \<and> pg_at p = WarmOffer 3"
  using cancelled_in_warmup [of 3 "\<lambda>x. True" 8 "- 2"] by (simp add: warmupIt_def)

text \<open>A message that is polled is recorded before its round ends, so the run is cancelled, and \<open>main\<close> may return, before the output.\<close>

lemma handled_hist:
  "\<exists>vs. pg_hist (fold (ping_handler accepted messages) msgs p) = pg_hist p @ vs
     \<and> (pg_cancelled p \<longrightarrow> pg_cancelled (fold (ping_handler accepted messages) msgs p))
     \<and> pg_at (fold (ping_handler accepted messages) msgs p) = pg_at p"
proof (induction msgs arbitrary: p)
  case (Cons m ms)
  obtain sent now where m: "m = (sent, now)" by (cases m)
  from Cons [of "ping_handler accepted messages m p"] show ?case
    by (auto simp: m ping_handler_def Let_def)
qed simp

subsection \<open>Pong\<close>

text \<open>Messages polled and not yet echoed, those echoed, and whether the wait for a signal or for \<open>Ping\<close> is over.\<close>

record 'f Pong =
  po_waiting :: "'f list"
  po_echoed :: "'f list"
  po_polled :: "'f list"
  po_over :: bool

definition Pong_begin :: "'f Pong" where
  "Pong_begin = \<lparr>po_waiting = [], po_echoed = [], po_polled = [], po_over = False\<rparr>"

datatype 'f pong_event = PongPolled "'f list" | PongOffered int | PongSignal | PongCancelled

text \<open>The handler offers a message until the answer is not negative.\<close>

fun pong_step :: "'f pong_event \<Rightarrow> 'f Pong \<Rightarrow> 'f Pong option" where
  "pong_step (PongPolled msgs) p =
     (if po_waiting p = [] then Some (p\<lparr>po_waiting := msgs, po_polled := po_polled p @ msgs\<rparr>) else None)"
| "pong_step (PongOffered ret) p = (case po_waiting p of
       [] \<Rightarrow> None
     | m # ms \<Rightarrow> Some (if ret \<ge> 0 then p\<lparr>po_waiting := ms, po_echoed := po_echoed p @ [m]\<rparr> else p))"
| "pong_step PongSignal p = Some (p\<lparr>po_over := True\<rparr>)"
| "pong_step PongCancelled p = Some (p\<lparr>po_over := True\<rparr>)"

fun pong_run :: "'f pong_event list \<Rightarrow> 'f Pong \<Rightarrow> 'f Pong option" where
  "pong_run [] p = Some p"
| "pong_run (e # es) p = Option.bind (pong_step e p) (pong_run es)"

text \<open>Every message polled is echoed exactly once and in order, however often an offer is refused.\<close>

lemma pong_keeps:
  "pong_run es p = Some p' \<Longrightarrow> po_polled p = po_echoed p @ po_waiting p \<Longrightarrow> po_polled p' = po_echoed p' @ po_waiting p'"
proof (induction es arbitrary: p)
  case (Cons e es)
  then obtain p1 where s: "pong_step e p = Some p1" "pong_run es p1 = Some p'" by (auto simp: bind_eq_Some_conv)
  have "po_polled p1 = po_echoed p1 @ po_waiting p1"
    using s(1) Cons.prems(2) by (cases e) (auto split: if_splits list.splits)
  with Cons.IH s(2) show ?case by blast
qed simp

theorem pong_echoes_in_order:
  assumes "pong_run es Pong_begin = Some p" shows "po_polled p = po_echoed p @ po_waiting p"
  using pong_keeps [OF assms] by (simp add: Pong_begin_def)

theorem pong_echoes_in_order_witness:
  "\<exists>p. pong_run [PongPolled [''a'', ''b''], PongOffered (- 2), PongOffered 64] Pong_begin = Some p
    \<and> po_echoed p = [''a''] \<and> po_polled p = po_echoed p @ po_waiting p"
proof -
  have r: "pong_run [PongPolled [''a'', ''b''], PongOffered (- 2), PongOffered 64] Pong_begin
      = Some \<lparr>po_waiting = [''b''], po_echoed = [''a''], po_polled = [''a'', ''b''], po_over = False\<rparr>"
    by (simp add: Pong_begin_def)
  from pong_echoes_in_order [OF r] r show ?thesis by simp
qed

end
