(* ===== verification/QuicClient.thy ===== *)
theory QuicClient
  imports Toxic
begin

text \<open>
  The client of the QUIC example (\<open>examples/quic/client.go\<close>): its framing of messages by a length byte, and the count of
  the messages that come back. The stream (\<open>Read\<close> of the QUIC library) and the coding of a message as bytes
  (\<open>encoding/gob\<close>) are parameters.
\<close>

subsection \<open>Framing\<close>

text \<open>\<open>write\<close>: the bytes handed to the stream. The length is converted to a byte, so it wraps around.\<close>

definition write_message :: "('m \<Rightarrow> string + byte list) \<Rightarrow> 'm \<Rightarrow> string + byte list" where
  "write_message enc m = (case enc m of
       Inl e \<Rightarrow> Inl e
     | Inr b \<Rightarrow> Inr (word_of_nat (length b) # b))"

text \<open>
  A stream has a \<open>Read\<close> for a buffer of the given size; it answers with the bytes read and an error, and the program
  looks at the error first.
\<close>

type_synonym 's stream_read = "nat \<Rightarrow> 's \<Rightarrow> byte list \<times> string option \<times> 's"

text \<open>The loop that fills the buffer; \<open>None\<close> when it does not end.\<close>

partial_function (option) read_rest :: "'s stream_read \<Rightarrow> nat \<Rightarrow> byte list \<Rightarrow> 's \<Rightarrow> ((string + byte list) \<times> 's) option" where
  "read_rest rd msgSize b s =
     (if msgSize \<le> length b then Some (Inr b, s)
      else (case rd (msgSize - length b) s of
          (n, Some e, s') \<Rightarrow> Some (Inl e, s')
        | (n, None, s') \<Rightarrow> read_rest rd msgSize (b @ n) s'))"

declare read_rest.simps [code]

text \<open>
  \<open>readMessage\<close>. \<open>dec\<close> gives the error of the decoder and what it leaves in the message; the error is assigned and then
  \<open>nil\<close> is returned. A first \<open>Read\<close> without a byte leaves the length 0.
\<close>

definition readMessage :: "'s stream_read \<Rightarrow> (byte list \<Rightarrow> string option \<times> 'm) \<Rightarrow> 's \<Rightarrow> ((string + 'm) \<times> 's) option" where
  "readMessage rd dec s = (case rd 1 s of
       (lenByte, Some e, s1) \<Rightarrow> Some (Inl e, s1)
     | (lenByte, None, s1) \<Rightarrow>
         (let msgSize = (case lenByte of [] \<Rightarrow> 0 | l # _ \<Rightarrow> unat l)
          in (case rd msgSize s1 of
              (b, Some e, s2) \<Rightarrow> Some (Inl e, s2)
            | (b, None, s2) \<Rightarrow> map_option (\<lambda>(r, s3). (map_sum id (\<lambda>b. snd (dec b)) r, s3)) (read_rest rd msgSize b s2))))"

text \<open>
  What is asked of a stream, as documented for readers: as long as bytes are still to come, a read into a buffer that is
  not empty gives the next ones, some or all that fit, without an error.
\<close>

definition in_order :: "('s \<Rightarrow> byte list) \<Rightarrow> 's stream_read \<Rightarrow> bool" where
  "in_order coming rd \<longleftrightarrow> (\<forall>n s. 0 < n \<longrightarrow> coming s \<noteq> [] \<longrightarrow>
     (\<exists>bs s'. rd n s = (bs, None, s') \<and> bs \<noteq> [] \<and> length bs \<le> n \<and> coming s = bs @ coming s'))"

lemma in_orderE:
  assumes "in_order coming rd" and "0 < n" and "coming s \<noteq> []"
  obtains bs s' where "rd n s = (bs, None, s')" "bs \<noteq> []" "length bs \<le> n" "coming s = bs @ coming s'"
  using assms unfolding in_order_def by blast

lemma read_rest_fills:
  assumes "in_order coming rd" and "coming s = todo @ rest" and "length b + length todo = n"
  shows "\<exists>s'. read_rest rd n b s = Some (Inr (b @ todo), s') \<and> coming s' = rest"
  using assms(2,3)
proof (induction "length todo" arbitrary: todo b s rule: less_induct)
  case less
  show ?case
  proof (cases todo)
    case Nil
    then show ?thesis using less.prems by (subst read_rest.simps) simp
  next
    case (Cons x xs)
    then have p: "0 < n - length b" "coming s \<noteq> []" using less.prems by auto
    from in_orderE [OF assms(1) p] obtain bs s1 where r: "rd (n - length b) s = (bs, None, s1)" "bs \<noteq> []"
      "length bs \<le> n - length b" "coming s = bs @ coming s1" by blast
    have "length bs \<le> length todo" using r(3) less.prems(2) by simp
    with r(4) less.prems(1) obtain todo' where m: "todo = bs @ todo'" "coming s1 = todo' @ rest"
      by (auto simp: append_eq_append_conv2)
    have "length todo' < length todo" "length (b @ bs) + length todo' = n" using m r(2) less.prems(2) by auto
    from less.hyps [OF this(1) m(2) this(2)] show ?thesis
      using r(1) p(1) m(1) by (subst read_rest.simps) simp
  qed
qed

lemma readMessage_frame:
  assumes "in_order coming rd" and "coming s = word_of_nat (length b) # b @ rest"
    and "b \<noteq> []" and "length b < 256"
  shows "\<exists>s'. readMessage rd dec s = Some (Inr (snd (dec b)), s') \<and> coming s' = rest"
proof -
  from in_orderE [OF assms(1), of 1 s] assms(2) obtain l s1 where r: "rd 1 s = (l, None, s1)" "l \<noteq> []" "length l \<le> 1"
    "coming s = l @ coming s1" by auto
  then have l: "l = [word_of_nat (length b)]" "coming s1 = b @ rest" using assms(2) by (cases l; auto)+
  have u: "unat (word_of_nat (length b) :: byte) = length b" using assms(4) by (simp add: unat_of_nat take_bit_nat_eq_self)
  have n: "0 < length b" "coming s1 \<noteq> []" using l(2) assms(3) by auto
  from in_orderE [OF assms(1) n] obtain b1 s2 where q: "rd (length b) s1 = (b1, None, s2)"
    "length b1 \<le> length b" "coming s1 = b1 @ coming s2" by blast
  with l(2) obtain b2 where b: "b = b1 @ b2" "coming s2 = b2 @ rest" by (auto simp: append_eq_append_conv2)
  from read_rest_fills [OF assms(1) b(2), of b1 "length b"] b(1)
  obtain s3 where "read_rest rd (length b) b1 s2 = Some (Inr b, s3)" "coming s3 = rest" by auto
  then show ?thesis using r(1) l(1) u q(1) by (simp add: readMessage_def)
qed

fun read_messages :: "'s stream_read \<Rightarrow> (byte list \<Rightarrow> string option \<times> 'm) \<Rightarrow> nat \<Rightarrow> 's \<Rightarrow> ('m list \<times> 's) option" where
  "read_messages rd dec 0 s = Some ([], s)"
| "read_messages rd dec (Suc n) s = (case readMessage rd dec s of
       Some (Inr m, s') \<Rightarrow> map_option (\<lambda>(ms, s''). (m # ms, s'')) (read_messages rd dec n s')
     | _ \<Rightarrow> None)"

text \<open>Messages that were written are read again, in order, however the stream cuts the bytes, and the loops end, as long as no
  message takes more than 255 bytes.\<close>

theorem framing_roundtrip:
  assumes "in_order coming rd"
    and "\<And>m. m \<in> set ms \<Longrightarrow> \<exists>b. enc m = Inr b \<and> b \<noteq> [] \<and> length b < 256 \<and> snd (dec b) = m"
    and "coming s = concat (map (\<lambda>m. case write_message enc m of Inr bs \<Rightarrow> bs | Inl e \<Rightarrow> []) ms) @ rest"
  shows "\<exists>s'. read_messages rd dec (length ms) s = Some (ms, s') \<and> coming s' = rest"
  using assms(2,3)
proof (induction ms arbitrary: s)
  case (Cons m ms)
  from Cons.prems(1) [of m] obtain b where b: "enc m = Inr b" "b \<noteq> []" "length b < 256" "snd (dec b) = m" by auto
  let ?rest = "concat (map (\<lambda>m. case write_message enc m of Inr bs \<Rightarrow> bs | Inl e \<Rightarrow> []) ms) @ rest"
  have "coming s = word_of_nat (length b) # b @ ?rest" using Cons.prems(2) b(1) by (simp add: write_message_def)
  from readMessage_frame [OF assms(1) this b(2,3), of dec] obtain s1 where
    s1: "readMessage rd dec s = Some (Inr m, s1)" "coming s1 = ?rest" using b(4) by auto
  from Cons.IH [OF _ s1(2)] Cons.prems(1) obtain s2 where
    "read_messages rd dec (length ms) s1 = Some (ms, s2)" "coming s2 = rest" by fastforce
  with s1(1) show ?case by simp
qed simp

text \<open>A stream that gives its bytes one at a time.\<close>

fun single_bytes :: "(byte list) stream_read" where
  "single_bytes n [] = ([], Some ''EOF'', [])"
| "single_bytes n (x # xs) = (if n = 0 then [] else [x], None, if n = 0 then x # xs else xs)"

lemma in_order_single: "in_order (\<lambda>s. s) single_bytes"
  unfolding in_order_def
proof (intro allI impI)
  fix n :: nat and s :: "byte list"
  assume "0 < n" "s \<noteq> []"
  then show "\<exists>bs s'. single_bytes n s = (bs, None, s') \<and> bs \<noteq> [] \<and> length bs \<le> n \<and> s = bs @ s'" by (cases s) auto
qed

theorem framing_roundtrip_witness:
  "\<exists>s'. read_messages single_bytes (\<lambda>b. (None, b)) 2 [2, 7, 8, 1, 9, 5 :: byte] = Some ([[7, 8], [9]], s') \<and> s' = [5]"
  using framing_roundtrip [OF in_order_single, of "[[7, 8], [9 :: byte]]" Inr "\<lambda>b. (None, b)" "[2, 7, 8, 1, 9, 5]" "[5]"]
  by (force simp: write_message_def numeral_2_eq_2)

text \<open>An error of the decoder is never reported: only an error of the stream is.\<close>

lemma isl_map_sum_id [simp]: "isl (map_sum id f r) = isl r"
  by (cases r) simp_all

theorem decode_error_dropped:
  "map_option (\<lambda>(r, s'). (isl r, s')) (readMessage rd dec s) = map_option (\<lambda>(r, s'). (isl r, s')) (readMessage rd dec' s)"
  by (auto simp: readMessage_def Let_def option.map_comp comp_def split: prod.splits option.splits intro!: option.map_cong)

subsection \<open>Counting the answers\<close>

text \<open>
  \<open>PingPong\<close> and the goroutine of \<open>receiveLoop\<close>, which stands in \<open>readMessage\<close>, in a send, at the check of the context, or
  has ended. The writing goroutine touches the stream only.
\<close>

datatype receiver_pc = RReading | RSending | RChecking | RStopped

record 'm PingPong =
  pp_messages :: "'m channel"
  pp_errs :: "string channel"
  pp_receiver :: receiver_pc
  pp_deadline :: bool
  pp_msgCount :: nat
  pp_returned :: "nat option"

definition PingPong_begin :: "'m PingPong" where
  "PingPong_begin = \<lparr>pp_messages = make_chan 1000, pp_errs = make_chan 100, pp_receiver = RReading, pp_deadline = False,
     pp_msgCount = 0, pp_returned = None\<rparr>"

text \<open>The deferred calls of the goroutine, the last one first.\<close>

definition receiver_return :: "'m PingPong \<Rightarrow> 'm PingPong outcome" where
  "receiver_return p = (case chan_close (pp_errs p) of
       None \<Rightarrow> Crash
     | Some errs \<Rightarrow> (case chan_close (pp_messages p) of
         None \<Rightarrow> Crash
       | Some msgs \<Rightarrow> Fine (p\<lparr>pp_errs := errs, pp_messages := msgs, pp_receiver := RStopped\<rparr>)))"

text \<open>The goroutine sends at most one error, so this send finds room (lemma \<open>errors_fit\<close>).\<close>

definition receiver_read :: "string + 'm \<Rightarrow> 'm PingPong \<Rightarrow> 'm PingPong outcome" where
  "receiver_read r p = (case r of
       Inl e \<Rightarrow> (case chan_send e (pp_errs p) of
           None \<Rightarrow> Crash
         | Some c \<Rightarrow> receiver_return (p\<lparr>pp_errs := c\<rparr>))
     | Inr m \<Rightarrow> (case chan_send m (pp_messages p) of
           None \<Rightarrow> Crash
         | Some c \<Rightarrow> Fine (p\<lparr>pp_messages := c, pp_receiver := (if settled c then RChecking else RSending)\<rparr>)))"

datatype 'm ping_event =
    PRead "string + 'm" | PSent | PChecked
  | PDeadline | PErr | PMsg | PTimer | PDone

text \<open>The branches of the \<open>select\<close> of \<open>PingPong\<close> are possible until it returns; the two timers only print.\<close>

fun ping_step :: "'m ping_event \<Rightarrow> 'm PingPong \<Rightarrow> 'm PingPong outcome option" where
  "ping_step (PRead r) p = (if pp_receiver p = RReading then Some (receiver_read r p) else None)"
| "ping_step PSent p =
     (if pp_receiver p = RSending \<and> settled (pp_messages p) then Some (Fine (p\<lparr>pp_receiver := RChecking\<rparr>)) else None)"
| "ping_step PChecked p =
     (if pp_receiver p = RChecking
      then Some (if pp_deadline p then receiver_return p else Fine (p\<lparr>pp_receiver := RReading\<rparr>)) else None)"
| "ping_step PDeadline p = Some (Fine (p\<lparr>pp_deadline := True\<rparr>))"
| "ping_step PErr p = (if pp_returned p \<noteq> None then None else (case chan_recv (pp_errs p) of
       Value e c \<Rightarrow> Some (Fine (p\<lparr>pp_errs := c\<rparr>))
     | Drained \<Rightarrow> Some (Fine p)
     | Empty \<Rightarrow> None))"
| "ping_step PMsg p = (if pp_returned p \<noteq> None then None else (case chan_recv (pp_messages p) of
       Value m c \<Rightarrow> Some (Fine (p\<lparr>pp_messages := c, pp_msgCount := pp_msgCount p + 1\<rparr>))
     | Drained \<Rightarrow> Some (Fine (p\<lparr>pp_msgCount := pp_msgCount p + 1\<rparr>))
     | Empty \<Rightarrow> None))"
| "ping_step PTimer p = (if pp_returned p \<noteq> None then None else Some (Fine p))"
| "ping_step PDone p =
     (if pp_returned p = None \<and> pp_deadline p then Some (Fine (p\<lparr>pp_returned := Some (pp_msgCount p)\<rparr>)) else None)"

fun ping_run :: "'m ping_event list \<Rightarrow> 'm PingPong \<Rightarrow> 'm PingPong outcome option" where
  "ping_run [] p = Some (Fine p)"
| "ping_run (e # es) p = (case ping_step e p of
       None \<Rightarrow> None
     | Some Crash \<Rightarrow> Some Crash
     | Some (Fine p') \<Rightarrow> ping_run es p')"

fun arrivals :: "'m ping_event list \<Rightarrow> nat" where
  "arrivals [] = 0"
| "arrivals (PRead (Inr m) # es) = Suc (arrivals es)"
| "arrivals (e # es) = arrivals es"

text \<open>The channels are closed exactly when the goroutine has ended, and until then every message read is counted or waits.\<close>

definition ping_ok :: "nat \<Rightarrow> 'm PingPong \<Rightarrow> bool" where
  "ping_ok n p \<longleftrightarrow>
     (shut (pp_errs p) \<longleftrightarrow> pp_receiver p = RStopped) \<and> (shut (pp_messages p) \<longleftrightarrow> pp_receiver p = RStopped)
     \<and> (pp_receiver p \<noteq> RStopped \<longrightarrow> queue (pp_errs p) = [] \<and> pp_msgCount p + length (queue (pp_messages p)) = n)
     \<and> length (queue (pp_errs p)) \<le> 1 \<and> n \<le> pp_msgCount p + length (queue (pp_messages p))"

lemma ping_ok_begin: "ping_ok 0 PingPong_begin"
  by (simp add: ping_ok_def PingPong_begin_def make_chan_def)

lemma ping_ok_step:
  assumes "ping_ok n p" and "ping_step e p = Some r"
  shows "\<exists>p'. r = Fine p' \<and> ping_ok (n + arrivals [e]) p'"
proof (cases e)
  case (PRead x)
  with assms show ?thesis
    by (cases x) (auto simp: ping_ok_def receiver_read_def receiver_return_def chan_defs split: if_splits)
qed (use assms in \<open>auto simp: ping_ok_def receiver_return_def chan_defs chan_recv_def split: if_splits list.splits\<close>)

lemma arrivals_Cons: "arrivals (e # es) = arrivals [e] + arrivals es"
proof (cases e)
  case (PRead x)
  then show ?thesis by (cases x) simp_all
qed simp_all

lemma ping_ok_run:
  "ping_ok n p \<Longrightarrow> ping_run es p = Some r \<Longrightarrow> \<exists>p'. r = Fine p' \<and> ping_ok (n + arrivals es) p'"
proof (induction es arbitrary: n p)
  case (Cons e es)
  from Cons.prems(2) obtain r1 where s: "ping_step e p = Some r1" by (cases "ping_step e p") auto
  from ping_ok_step [OF Cons.prems(1) s] obtain p1 where p1: "r1 = Fine p1" "ping_ok (n + arrivals [e]) p1" by blast
  with Cons.prems(2) s have "ping_run es p1 = Some r" by simp
  from Cons.IH [OF p1(2) this] show ?case by (simp add: arrivals_Cons [of e es] add.assoc)
qed auto

lemma errors_fit: "ping_ok n p \<Longrightarrow> pp_receiver p = RReading \<Longrightarrow> chan_send e (pp_errs p) = Some c \<Longrightarrow> length (queue c) = 1"
  by (auto simp: ping_ok_def chan_send_def split: if_splits)

text \<open>The client never panics, and as long as its receiver runs, the count is the number of the messages read without those
  that still wait in the channel.\<close>

theorem ping_count:
  assumes "ping_run es PingPong_begin = Some r"
  shows "\<exists>p. r = Fine p \<and> (pp_receiver p \<noteq> RStopped \<longrightarrow> pp_msgCount p + length (queue (pp_messages p)) = arrivals es)
    \<and> arrivals es \<le> pp_msgCount p + length (queue (pp_messages p))"
  using ping_ok_run [OF ping_ok_begin assms] by (auto simp: ping_ok_def)

theorem ping_count_witness:
  "\<exists>p. ping_run [PRead (Inr ''a''), PMsg, PChecked, PRead (Inr ''b'')] PingPong_begin = Some (Fine p) \<and> pp_msgCount p = 1
    \<and> arrivals [PRead (Inr ''a''), PMsg, PChecked, PRead (Inr ''b'')] \<le> pp_msgCount p + length (queue (pp_messages p))"
proof -
  have r: "ping_run [PRead (Inr ''a''), PMsg, PChecked, PRead (Inr ''b'')] PingPong_begin = Some (Fine (PingPong_begin\<lparr>
      pp_messages := (make_chan 1000)\<lparr>queue := [''b'']\<rparr>, pp_receiver := RChecking, pp_msgCount := 1\<rparr>))"
    by (simp add: PingPong_begin_def receiver_read_def chan_defs chan_recv_def)
  from ping_count [OF r] r show ?thesis by auto
qed

lemma closed_counts:
  assumes "pp_returned p = None" and "queue (pp_messages p) = []" and "shut (pp_messages p)"
  shows "ping_run (replicate k PMsg @ es) p = ping_run es (p\<lparr>pp_msgCount := pp_msgCount p + k\<rparr>)"
  using assms
proof (induction k arbitrary: p)
  case (Suc k)
  then have "ping_step PMsg p = Some (Fine (p\<lparr>pp_msgCount := pp_msgCount p + 1\<rparr>))" by (simp add: chan_recv_def)
  with Suc.IH [of "p\<lparr>pp_msgCount := pp_msgCount p + 1\<rparr>"] Suc.prems show ?case by simp
qed simp

text \<open>After an error of the stream the receiver closes its channels, and every receive from the closed channel of messages is
  counted: the client can return any number without having read one message.\<close>

theorem closed_channel_counted:
  "\<exists>p. ping_run (PRead (Inl e) # replicate k PMsg @ [PDeadline, PDone]) (PingPong_begin :: 'm PingPong) = Some (Fine p)
     \<and> pp_returned p = Some k \<and> arrivals (PRead (Inl e) # replicate k PMsg @ [PDeadline, PDone] :: 'm ping_event list) = 0"
proof -
  have "arrivals (replicate k PMsg @ [PDeadline, PDone] :: 'm ping_event list) = 0" by (induction k) simp_all
  then show ?thesis
    by (simp add: receiver_read_def receiver_return_def PingPong_begin_def chan_defs closed_counts)
qed

end
