(* ===== verification/Spec2Isabelle.thy ===== *)
theory Spec2Isabelle
  imports SystemFlow CollectionTypes Pacing LinkDrain ServerProgram CliServer TestUpstream DnsExample AeronExample QuicClient
begin

text \<open>
  A model of udp-crasher, a proxy for UDP that damages the traffic between clients and an
  upstream server on purpose, and the theorems that say when it does what it means to.

  \<^bold>\<open>The program.\<close> An HTTP server (\<open>api.go\<close>) keeps a set of proxies (\<open>proxy_collection.go\<close>). A proxy
  (\<open>proxy.go\<close>) listens on a UDP port; for every client address its server loop makes a queue of
  datagrams and two links (\<open>link.go\<close>), one towards the upstream and one back. A link is a row of
  goroutines joined by channels: a reader (\<open>stream/io_chan.go\<close>, \<open>ChanWriter\<close>) that turns datagrams
  into chunks, one stub (\<open>toxics/toxic.go\<close>) per toxic that runs the toxic's \<open>Pipe\<close>
  (\<open>toxics/*.go\<close>), and a writer (\<open>ChanReader\<close>) that turns chunks into datagrams again. The toxics of
  a proxy are kept in two chains (\<open>toxic_collection.go\<close>); requests change the chains and every
  running link, while data is flowing. The process (\<open>cmd/server\<close>) reads its flags and a file of proxies,
  starts the HTTP server and waits for a signal; byte counters (\<open>metrics.go\<close>, \<open>collectors/\<close>) count what the
  links copy; a command line client (\<open>cmd/cli\<close>) asks the server for proxies and toxics.

  \<^bold>\<open>Theories and files.\<close>

  \<^item> \<open>Prelude\<close>: 64-bit integers with their wrap-around, slices that can panic, lists.
  \<^item> \<open>Direction\<close>: \<open>stream/direction.go\<close>. \<open>Channel\<close>: Go's channels with capacity, closing and a sender
    that waits. \<open>IoChan\<close>: \<open>stream/io_chan.go\<close>.
  \<^item> \<open>Pipe\<close>: the contract of a toxic's \<open>Pipe\<close> (locales \<open>pipe\<close> and \<open>lossless_pipe\<close>); \<open>Noop\<close>, \<open>Latency\<close>,
    \<open>Bandwidth\<close>, \<open>Slicer\<close>, \<open>ResetPeer\<close>: the five toxics as goroutines that stand at program points
    between communications, each with an interpretation of the contract. \<open>Pacing\<close>: their
    timing, and the settings with which they do not work.
  \<^item> \<open>Toxic\<close>: wrappers, the registry, and stubs with \<open>Run\<close>, \<open>WriteOutput\<close>, \<open>InterruptToxic\<close>, \<open>Close\<close>
    (\<open>toxics/toxic.go\<close>).
  \<^item> \<open>Link\<close>: \<open>link.go\<close>, every goroutine and every operation as steps that interleave; \<open>LinkInv\<close>: its
    invariant; \<open>LinkSafe\<close>: which steps can crash; \<open>LinkFlow\<close>: what happens to the bytes. \<open>Work\<close>: the
    locale \<open>working_pipe\<close> of toxics that use up a potential; \<open>LinkDrain\<close>: that a link delivers everything.
  \<^item> \<open>Json\<close>: the part of \<open>encoding/json\<close> the program uses, and the settings as struct tags name them.
    \<open>ApiErrors\<close>: the errors of \<open>api.go\<close>, and the locale \<open>named_store\<close> of things kept by name.
  \<^item> \<open>Collection\<close>: the chains of \<open>toxic_collection.go\<close> and the requests on them; \<open>CollectionTypes\<close>: that
    toxics stay of their type; \<open>CollectionRun\<close>: the collection with its links and its lock, as steps;
    \<open>CollectionRefine\<close>: the steps and the requests have the same effect on the chains.
  \<^item> \<open>Datagram\<close>: \<open>UDPReader\<close> and \<open>UDPWriter\<close> with the two copying loops of a link (\<open>proxy.go\<close>). \<open>Proxy\<close>:
    the proxy with its server loop, start, stop and update; \<open>ProxyFlow\<close>: its invariant. \<open>Metrics\<close>: the
    collectors, and the steps of a proxy with its byte counters.
  \<^item> \<open>ProxyCollection\<close>: \<open>proxy_collection.go\<close>. \<open>Api\<close>: routes, middlewares and handlers of \<open>api.go\<close>;
    \<open>ApiFlow\<close>: what the handlers guarantee. \<open>System\<close>: the server that runs, requests interleaved with the
    steps of all proxies, and the locale \<open>proxy_property\<close> of what every operation keeps of each proxy;
    \<open>SystemFlow\<close>: what holds of every run.
  \<^item> \<open>Arguments\<close>: the flags of the server with Go's parsing of them. \<open>ServerProgram\<close>: the process from its start
    to its exit status (\<open>cmd/server/server.go\<close>, \<open>PopulateConfig\<close>, \<open>Listen\<close> and \<open>Shutdown\<close> of \<open>api.go\<close>,
    \<open>setupLogger\<close>).
  \<^item> \<open>Cli\<close>: the command line client (\<open>cmd/cli/cli.go\<close>), over any client library; \<open>CliServer\<close>: the client
    against the server's model.
  \<^item> \<open>TestUpstream\<close>: the server of the tests (\<open>testhelper/upstream.go\<close>). \<open>Examples\<close>: the proxies of two
    examples, and server and \<open>main\<close> of the QUIC one; \<open>QuicClient\<close>: the framing and counting of its client;
    \<open>DnsExample\<close>, \<open>AeronExample\<close>: the other two examples (\<open>examples/\<close>).

  \<^bold>\<open>State.\<close> A struct is a record and an operation a function of it: \<open>ToxicLink\<close> holds the channels,
  stubs and the ghost logs of bytes taken and delivered, \<open>ToxicCollection\<close> the chains and the
  running links by name, \<open>Proxy\<close> the fields of the struct and where its server goroutine stands,
  \<open>ProxyCollection\<close> a heap of proxies and the map from names to them. Concurrent parts are step
  functions (\<open>link_step\<close>, \<open>coll_step\<close>, \<open>proxy_step\<close>, \<open>sys_step\<close>, each containing the one before) from an
  event to the next state; an event that
  is not possible gives \<open>None\<close>, a run-time panic \<open>Crash\<close>. A run is a list of events,
  so a theorem about all lists is one about all interleavings.

  \<^bold>\<open>What is shown.\<close> Data: through any sequence of requests a link loses no byte unless a write times
  out, never reorders, and ends only after its data (\<open>LinkFlow\<close>); with documented toxics its goroutines always
  come to an end, within a number of steps given by a potential, with everything delivered (\<open>LinkDrain\<close>); datagrams become chunks and
  chunks datagrams one by one (\<open>Datagram\<close>); a client's link carries this client's
  datagrams only (\<open>ProxyFlow\<close>). State: chains, links, collections and proxies stay well formed under
  every interleaving and every request (\<open>CollectionRun\<close>, \<open>CollectionTypes\<close>, \<open>ProxyCollection\<close>,
  \<open>ApiFlow\<close>), and so does the whole server (\<open>SystemFlow\<close>); requests by name behave as on a map (two
  refinements, by one locale). Levels: requests handled in steps, between the
  steps of goroutines, change the chains as the sequential requests do (\<open>CollectionRefine\<close>), and the handlers of
  the running server have the effects and answers of the sequential handlers
  (\<open>SystemFlow\<close>). Time: the bounds of latency, bandwidth and slicer (\<open>Pacing\<close>). Process: the flags that are
  given are those that are read (\<open>Arguments\<close>); the exit status of the server (\<open>ServerProgram\<close>). Errors:
  every branch of the requests, the possible causes of a crash (\<open>LinkSafe\<close>, \<open>CollectionRun\<close>, \<open>SystemFlow\<close>), and
  where the program falls short of its aims: a toxicity that is discarded, updates that are refused but
  take effect, long datagrams cut off, clients that are never connected and block the whole proxy, an
  operation that keeps the lock for ever, settings that stop all data or crash the process, a reset that starts
  deleted proxies again, a counter that never counts, a server that stays without its port, and
  mistakes of the examples: messages counted that were never read, failures not looked at, a measurement cancelled while it warms up.

  \<^bold>\<open>Bounds and fuel.\<close> No model uses fuel: \<open>chunk\<close> and \<open>reset_direction\<close>, whose loops are not bounded by
  their arguments, are partial functions, with a theorem that they return (for documented
  settings, and for well-formed chains); so is \<open>read_rest\<close> of the QUIC client, which returns when its stream
  delivers. Theorems of \<open>Pacing\<close> assume latencies and rates below
  \<open>2 ^ 40\<close> and chunks below \<open>2 ^ 32\<close> bytes (the program's are at most 32 KiB), so that the 64-bit
  arithmetic does not wrap around. A link's copy buffer has 32 KiB, the queue of a client 1000
  datagrams, as in the source.

  \<^bold>\<open>Parameters.\<close> The operating system (what listening, resolving and dialling answer, files, the
  environment, signals), the random numbers and the clock, the text of decoding errors, the names of levels in
  the logging library, the text of the metrics, the client library and the command line parser of the
  client with the conversion of floating-point numbers, the order in which a map is traversed, whether
  a handler takes longer than its timeout, and what the HTTP, DNS, QUIC and Aeron libraries answer to the examples.

  \<^bold>\<open>Not modelled.\<close> The writing of log lines; the texts that explain the commands of the client; of the
  examples the set-up of connections and of the profiler, and the output of the histogram, which only call libraries. The Prometheus
  library is modelled only by what it documents of counters and registries. Numbers of type \<open>float32\<close> are
  rationals without rounding. A running stub keeps the settings it was started with until it is updated
  through its link, and a link that has removed itself from its collection is not followed any
  further. The handlers of \<open>Api\<close> change the chains of a proxy in one piece; that the same requests also change
  its running links, step by step, is \<open>CollectionRun\<close> and \<open>System\<close>. A stop is one step of \<open>System\<close>, possible when
  the server goroutine can end; a stop that has to wait for it is \<open>Proxy\<close>. Fields that are read without
  their lock are read in one step.
\<close>

end
